(* ===== verification/Prelude.thy ===== *)
theory Prelude
  imports Main "HOL-Library.Word" "HOL-Library.Monad_Syntax"
begin

text \<open>
  Shared vocabulary of the development.

  \<^item> Machine integers are words of their C width; \<open>bytes\<close> is a memory block.
  \<^item> Memory is little endian (the tested Linux platform): \<open>le16\<close>, \<open>le32\<close> assemble
    the integer that \<open>memcpy\<close> into a \<open>__u16\<close> or \<open>__u32\<close> yields, \<open>bytes16\<close>,
    \<open>bytes32\<close> are the bytes it stores, \<open>htons\<close> and \<open>htonl\<close> swap them.
  \<^item> \<open>ld\<close> and \<open>st\<close> are checked accesses: \<open>None\<close> stands for an access outside of
    the block, which is undefined behaviour in C.  A function of the code that returns
    \<open>Some\<close> therefore stays inside its blocks.
  \<^item> \<open>allocator\<close> answers whether \<open>malloc(n)\<close> (or \<open>realloc\<close>) succeeds, so that every
    out-of-memory branch of the code is a branch of the model.
\<close>

unbundle bit_operations_syntax

type_synonym u8 = "8 word"
type_synonym u16 = "16 word"
type_synonym u32 = "32 word"
type_synonym u64 = "64 word"
type_synonym bytes = "u8 list"
type_synonym allocator = "nat \<Rightarrow> bool"

named_theorems mem_simps "rewrite rules for checked memory accesses"
named_theorems wf_intros "well-formedness is kept"

section \<open>Words in memory\<close>

definition le16 :: "u8 \<Rightarrow> u8 \<Rightarrow> u16" where
  "le16 a b = ucast a + 256 * ucast b"

definition le32 :: "u8 \<Rightarrow> u8 \<Rightarrow> u8 \<Rightarrow> u8 \<Rightarrow> u32" where
  "le32 a b c d = ucast a + 256 * ucast b + 65536 * ucast c + 16777216 * ucast d"

definition bytes16 :: "u16 \<Rightarrow> bytes" where
  "bytes16 w = [ucast w, ucast (drop_bit 8 w)]"

definition bytes32 :: "u32 \<Rightarrow> bytes" where
  "bytes32 w = [ucast w, ucast (drop_bit 8 w), ucast (drop_bit 16 w), ucast (drop_bit 24 w)]"

definition htons :: "u16 \<Rightarrow> u16" where
  "htons w = le16 (ucast (drop_bit 8 w)) (ucast w)"

definition htonl :: "u32 \<Rightarrow> u32" where
  "htonl w = le32 (ucast (drop_bit 24 w)) (ucast (drop_bit 16 w)) (ucast (drop_bit 8 w)) (ucast w)"

lemma length_bytes16 [simp]: "length (bytes16 w) = 2"
  by (simp add: bytes16_def)

lemma length_bytes32 [simp]: "length (bytes32 w) = 4"
  by (simp add: bytes32_def)

lemma word_unat_eqI: "unat v = unat w \<Longrightarrow> v = w"
  by (simp add: word_unat_eq_iff)

lemma unat_ucast_mod: "unat (ucast (w::'a::len word) :: 'b::len word) = unat w mod 2 ^ LENGTH('b)"
  by (simp add: unsigned_ucast_eq take_bit_eq_mod)

lemma unat8_less [simp]: "unat (a::u8) < 256"
  using unsigned_less [of a] by simp

lemma unat16_less [simp]: "unat (w::u16) < 65536"
  using unsigned_less [of w] by simp

lemma unat32_less [simp]: "unat (w::u32) < 4294967296"
  using unsigned_less [of w] by simp

lemma unat_le16: "unat (le16 a b) = unat a + 256 * unat b"
proof -
  have "unat a + 256 * unat b < 65536"
    using unat8_less [of a] unat8_less [of b] by linarith
  then show ?thesis
    by (simp add: le16_def unat_word_ariths unat_ucast_mod mod_mult_right_eq mod_add_eq unat_numeral)
qed

lemma unat_low_byte16: "unat (ucast (w::u16) :: u8) = unat w mod 256"
  by (simp add: unat_ucast_mod)

lemma unat_high_byte16: "unat (ucast (drop_bit 8 (w::u16)) :: u8) = unat w div 256"
proof -
  have "unat w div 256 < 256" using unat16_less [of w] by (simp add: less_mult_imp_div_less)
  then show ?thesis by (simp add: unat_ucast_mod drop_bit_eq_div unat_div)
qed

lemma le16_bytes16: "le16 (ucast w) (ucast (drop_bit 8 w)) = w"
proof (rule word_unat_eqI)
  show "unat (le16 (ucast w) (ucast (drop_bit 8 w))) = unat w"
    by (simp only: unat_le16 unat_high_byte16) (simp add: unat_low_byte16)
qed

lemma low_le16: "ucast (le16 a b) = a"
  by (rule word_unat_eqI) (simp add: unat_low_byte16 unat_le16)

lemma high_le16: "ucast (drop_bit 8 (le16 a b)) = b"
  by (rule word_unat_eqI) (simp only: unat_high_byte16 unat_le16, simp)

lemma bytes16_le16 [simp]: "bytes16 (le16 a b) = [a, b]"
  by (simp add: bytes16_def low_le16 high_le16)

lemma unat_le32: "unat (le32 a b c d) = unat a + 256 * unat b + 65536 * unat c + 16777216 * unat d"
proof -
  have "unat a + 256 * unat b + 65536 * unat c + 16777216 * unat d < 4294967296"
    using unat8_less [of a] unat8_less [of b] unat8_less [of c] unat8_less [of d] by linarith
  then show ?thesis
    by (simp add: le32_def unat_word_ariths unat_ucast_mod mod_mult_right_eq mod_add_eq unat_numeral)
qed

lemma unat_byte32: "unat (ucast (drop_bit n (w :: u32)) :: u8) = unat w div 2 ^ n mod 256"
  by (simp only: unat_ucast_mod unat_drop_bit_eq) (simp add: drop_bit_eq_div)

lemma power2_numerals: "2 ^ 8 = (256 :: nat)" "2 ^ 16 = (65536 :: nat)" "2 ^ 24 = (16777216 :: nat)"
  by simp_all

lemma bytes32_le32 [simp]: "bytes32 (le32 a b c d) = [a, b, c, d]"
proof -
  let ?n = "unat a + 256 * unat b + 65536 * unat c + 16777216 * unat d"
  let ?c = "unat c + 256 * unat d" and ?b = "unat b + 256 * (unat c + 256 * unat d)"
  have n: "?n = unat a + 256 * ?b" by simp
  have d1: "?n div 256 = ?b" unfolding n by (simp only: div_mult_self2 div_less unat8_less zero_neq_numeral not_False_eq_True zero_less_numeral add_0_right)
  have d2: "?n div 65536 = ?c"
  proof -
    have "?n div 65536 = ?n div 256 div 256" by (simp add: div_mult2_eq [symmetric])
    also have "\<dots> = ?c" unfolding d1
      by (simp only: div_mult_self2 div_less unat8_less zero_neq_numeral not_False_eq_True zero_less_numeral add_0_right)
    finally show ?thesis .
  qed
  have d3: "?n div 16777216 = unat d"
  proof -
    have "?n div 16777216 = ?n div 65536 div 256" by (simp add: div_mult2_eq [symmetric])
    then show ?thesis unfolding d2 by simp
  qed
  note mods = mod_mult_self2 mod_less unat8_less
  have "ucast (le32 a b c d) = a"
    using unat_byte32 [of 0 "le32 a b c d"]
    by (intro word_unat_eqI) (simp only: drop_bit_0 unat_le32 power_0 div_by_1 n mods id_apply)
  moreover have "ucast (drop_bit 8 (le32 a b c d)) = b"
    by (rule word_unat_eqI, simp only: unat_byte32 unat_le32 power2_numerals d1 mods)
  moreover have "ucast (drop_bit 16 (le32 a b c d)) = c"
    by (rule word_unat_eqI, simp only: unat_byte32 unat_le32 power2_numerals d2 mods)
  moreover have "ucast (drop_bit 24 (le32 a b c d)) = d"
    by (rule word_unat_eqI, simp only: unat_byte32 unat_le32 power2_numerals d3 mods)
  ultimately show ?thesis by (simp only: bytes32_def)
qed

lemma unat_htons: "unat (htons w) = unat w div 256 + 256 * (unat w mod 256)"
  by (simp only: htons_def unat_le16 unat_high_byte16) (simp add: unat_low_byte16)

lemma htons_htons [simp]: "htons (htons w) = w"
  by (simp add: htons_def low_le16 high_le16 le16_bytes16)

lemma and_0xf_unat: "unat ((v :: u8) AND 0xf) = unat v mod 16"
proof -
  have "(0xf :: u8) = mask 4" by (simp add: mask_eq_exp_minus_1)
  then have "v AND 0xf = take_bit 4 v" by (simp only: take_bit_eq_mask)
  then have "unat (v AND 0xf) = take_bit 4 (unat v)" by (simp only: unsigned_take_bit_eq)
  then show ?thesis by (simp add: take_bit_eq_mod)
qed

lemma high_nibble_unat: "unat (drop_bit 4 ((v :: u8) AND 0xF0)) = unat v div 16"
proof -
  have "drop_bit 4 (v AND 0xF0) = drop_bit 4 v AND 0xF" by (simp add: drop_bit_and)
  moreover have "unat (drop_bit 4 v) = unat v div 16" by (simp add: drop_bit_eq_div unat_div)
  moreover have "unat v div 16 < 16" using unat8_less [of v] by linarith
  ultimately show ?thesis by (simp only: and_0xf_unat) simp
qed

section \<open>Checked memory accesses\<close>

definition ld :: "bytes \<Rightarrow> nat \<Rightarrow> nat \<Rightarrow> bytes option" where
  "ld d off n = (if off + n \<le> length d then Some (take n (drop off d)) else None)"

definition st :: "bytes \<Rightarrow> nat \<Rightarrow> bytes \<Rightarrow> bytes option" where
  "st d off bs =
     (if off + length bs \<le> length d then Some (take off d @ bs @ drop (off + length bs) d) else None)"

definition ld8 :: "bytes \<Rightarrow> nat \<Rightarrow> u8 option" where
  "ld8 d off = (if off < length d then Some (d ! off) else None)"

definition ld16 :: "bytes \<Rightarrow> nat \<Rightarrow> u16 option" where
  "ld16 d off = (if off + 1 < length d then Some (le16 (d ! off) (d ! (off + 1))) else None)"

definition ld32 :: "bytes \<Rightarrow> nat \<Rightarrow> u32 option" where
  "ld32 d off = (if off + 3 < length d
     then Some (le32 (d ! off) (d ! (off + 1)) (d ! (off + 2)) (d ! (off + 3))) else None)"

definition st8 :: "bytes \<Rightarrow> nat \<Rightarrow> u8 \<Rightarrow> bytes option" where
  "st8 d off b = st d off [b]"

definition st16 :: "bytes \<Rightarrow> nat \<Rightarrow> u16 \<Rightarrow> bytes option" where
  "st16 d off w = st d off (bytes16 w)"

definition st32 :: "bytes \<Rightarrow> nat \<Rightarrow> u32 \<Rightarrow> bytes option" where
  "st32 d off w = st d off (bytes32 w)"

lemma ld_eq_Some [mem_simps]: "off + n \<le> length d \<Longrightarrow> ld d off n = Some (take n (drop off d))"
  by (simp add: ld_def)

lemma st_eq_Some [mem_simps]:
  "off + length bs \<le> length d \<Longrightarrow> st d off bs = Some (take off d @ bs @ drop (off + length bs) d)"
  by (simp add: st_def)

lemma ld_SomeD: "ld d off n = Some x \<Longrightarrow> off + n \<le> length d \<and> x = take n (drop off d)"
  by (simp add: ld_def split: if_splits)

lemma length_ld: "ld d off n = Some x \<Longrightarrow> length x = n"
  by (auto simp: ld_def split: if_splits)

lemma length_st: "st d off bs = Some d' \<Longrightarrow> length d' = length d"
  by (auto simp: st_def split: if_splits)

lemma st_SomeD: "st d off bs = Some d' \<Longrightarrow> off + length bs \<le> length d \<and> d' = take off d @ bs @ drop (off + length bs) d"
  by (simp add: st_def split: if_splits)

lemma length_st8: "st8 d off b = Some d' \<Longrightarrow> length d' = length d"
  by (simp add: st8_def length_st)

lemma length_st16: "st16 d off w = Some d' \<Longrightarrow> length d' = length d"
  by (simp add: st16_def length_st)

lemma length_st32: "st32 d off w = Some d' \<Longrightarrow> length d' = length d"
  by (simp add: st32_def length_st)

text \<open>An access that succeeds is exactly one inside the block.\<close>

lemma ld8_defined [mem_simps]: "off < length d \<Longrightarrow> ld8 d off = Some (d ! off)"
  by (simp add: ld8_def)

lemma ld16_defined [mem_simps]: "off + 1 < length d \<Longrightarrow> ld16 d off = Some (le16 (d ! off) (d ! (off + 1)))"
  by (simp add: ld16_def)

lemma ld_defined_iff: "(\<exists>x. ld d off n = Some x) \<longleftrightarrow> off + n \<le> length d"
  by (simp add: ld_def)

lemma st_defined_iff: "(\<exists>x. st d off bs = Some x) \<longleftrightarrow> off + length bs \<le> length d"
  by (simp add: st_def)

text \<open>Reading back what was stored, and what was stored elsewhere.\<close>

lemma st_read_same: "st d off bs = Some d' \<Longrightarrow> ld d' off (length bs) = Some bs"
  by (auto simp: st_def ld_def split: if_splits)

lemma st_nth_other:
  "st d off bs = Some d' \<Longrightarrow> i < off \<or> off + length bs \<le> i \<Longrightarrow> i < length d \<Longrightarrow> d' ! i = d ! i"
  by (auto simp: st_def nth_append split: if_splits)

lemma ld_st_disjoint:
  assumes "st d off bs = Some d'" "i + n \<le> off \<or> off + length bs \<le> i"
  shows "ld d' i n = ld d i n"
proof -
  have len: "length d' = length d" using assms(1) by (rule length_st)
  have "take n (drop i d') = take n (drop i d)" if "i + n \<le> length d"
  proof (rule nth_equalityI)
    show "length (take n (drop i d')) = length (take n (drop i d))" by (simp add: len)
  next
    fix k assume "k < length (take n (drop i d'))"
    then have "k < n" "i + k < length d" using that len by auto
    then show "take n (drop i d') ! k = take n (drop i d) ! k"
      using st_nth_other [OF assms(1), of "i + k"] assms(2) len by auto
  qed
  then show ?thesis by (simp add: ld_def len)
qed

text \<open>\<open>realloc\<close> keeps the common prefix.\<close>

definition brealloc :: "nat \<Rightarrow> bytes \<Rightarrow> bytes" where
  "brealloc n d = take n d @ replicate (n - length d) 0"

lemma length_brealloc [simp]: "length (brealloc n d) = n"
  by (simp add: brealloc_def)

section \<open>Computations that may fail\<close>

text \<open>\<open>yields m P\<close>: the computation \<open>m\<close> does not fail, and its result has the property \<open>P\<close>.  The
  rules follow the structure of the computation, so that the simplifier walks through a whole
  operation and leaves the calls of other operations.\<close>

definition yields :: "'a option \<Rightarrow> ('a \<Rightarrow> bool) \<Rightarrow> bool" where
  "yields m P \<longleftrightarrow> (case m of None \<Rightarrow> False | Some x \<Rightarrow> P x)"

lemma yields_simps [simp]:
  "yields (Some x) P \<longleftrightarrow> P x" "\<not> yields None P"
  "yields (Option.bind m f) P \<longleftrightarrow> yields m (\<lambda>x. yields (f x) P)"
  "yields (map_option g m) P \<longleftrightarrow> yields m (\<lambda>x. P (g x))"
  by (auto simp: yields_def split: option.splits Option.bind_split)

lemma yields_mono: "yields m Q \<Longrightarrow> (\<And>x. Q x \<Longrightarrow> P x) \<Longrightarrow> yields m P"
  by (simp add: yields_def split: option.splits)

lemma yields_bindI: "yields m Q \<Longrightarrow> (\<And>x. Q x \<Longrightarrow> yields (f x) P) \<Longrightarrow> yields (Option.bind m f) P"
  by (cases m) auto

lemma yields_if: "(c \<Longrightarrow> yields m P) \<Longrightarrow> (\<not> c \<Longrightarrow> yields n P) \<Longrightarrow> yields (if c then m else n) P"
  by simp

lemma yieldsE: "yields m P \<Longrightarrow> (\<And>x. m = Some x \<Longrightarrow> P x \<Longrightarrow> thesis) \<Longrightarrow> thesis"
  by (auto simp: yields_def split: option.splits)

lemma yields_iff: "yields m P \<longleftrightarrow> (\<exists>x. m = Some x \<and> P x)"
  by (auto simp: yields_def split: option.splits)

lemma yields_ld: "off + n \<le> length d \<Longrightarrow> yields (ld d off n) P \<longleftrightarrow> P (take n (drop off d))"
  by (simp add: ld_eq_Some)

lemma yields_ld8: "off < length d \<Longrightarrow> yields (ld8 d off) P \<longleftrightarrow> P (d ! off)"
  by (simp add: ld8_defined)

text \<open>\<open>always m P\<close>: if the computation \<open>m\<close> does not fail, its result has the property \<open>P\<close>.\<close>

definition always :: "'a option \<Rightarrow> ('a \<Rightarrow> bool) \<Rightarrow> bool" where
  "always m P \<longleftrightarrow> (\<forall>x. m = Some x \<longrightarrow> P x)"

lemma always_simps [simp]:
  "always (Some x) P \<longleftrightarrow> P x" "always None P"
  "always (map_option g m) P \<longleftrightarrow> always m (\<lambda>x. P (g x))"
  by (auto simp: always_def)

lemma always_bindI: "always m Q \<Longrightarrow> (\<And>x. Q x \<Longrightarrow> always (f x) P) \<Longrightarrow> always (Option.bind m f) P"
  by (auto simp: always_def bind_eq_Some_conv)

lemma always_bind2:
  "always m (\<lambda>(a, b). Q a b) \<Longrightarrow> (\<And>a b. Q a b \<Longrightarrow> always (f a b) P) \<Longrightarrow> always (Option.bind m (\<lambda>(a, b). f a b)) P"
  by (auto simp: always_def bind_eq_Some_conv)

lemma always_bind3:
  "always m (\<lambda>(a, b, c). Q a b c) \<Longrightarrow> (\<And>a b c. Q a b c \<Longrightarrow> always (f a b c) P) \<Longrightarrow>
    always (Option.bind m (\<lambda>(a, b, c). f a b c)) P"
  by (auto simp: always_def bind_eq_Some_conv)

lemma always_skip2: "(\<And>a b. always (f a b) P) \<Longrightarrow> always (Option.bind m (\<lambda>(a, b). f a b)) P"
  by (auto simp: always_def bind_eq_Some_conv)

lemma always_skip: "(\<And>x. always (f x) P) \<Longrightarrow> always (Option.bind m f) P"
  by (auto simp: always_def bind_eq_Some_conv)

lemma always_mono: "always m Q \<Longrightarrow> (\<And>x. Q x \<Longrightarrow> P x) \<Longrightarrow> always m P"
  by (auto simp: always_def)

lemma always_if: "(c \<Longrightarrow> always m P) \<Longrightarrow> (\<not> c \<Longrightarrow> always n P) \<Longrightarrow> always (if c then m else n) P"
  by simp

lemma alwaysI: "(\<And>x. m = Some x \<Longrightarrow> P x) \<Longrightarrow> always m P"
  by (simp add: always_def)

lemma alwaysD: "always m P \<Longrightarrow> m = Some x \<Longrightarrow> P x"
  by (simp add: always_def)

lemma always_triv: "(\<And>x. P x) \<Longrightarrow> always m P"
  by (simp add: always_def)

section \<open>Lists\<close>

lemma sum_list_map_upt_Suc: "j < n \<Longrightarrow> sum_list (map f [j..<n]) = f j + sum_list (map f [Suc j..<n])"
  for f :: "nat \<Rightarrow> nat"
  by (simp add: upt_conv_Cons)

lemma concat_map_upt_Suc: "j < n \<Longrightarrow> concat (map f [j..<n]) = f j @ concat (map f [Suc j..<n])"
  by (simp add: upt_conv_Cons)

lemma map_upt_cong: "(\<And>i. a \<le> i \<Longrightarrow> i < b \<Longrightarrow> f i = g i) \<Longrightarrow> map f [a..<b] = map g [a..<b]"
  by simp

end
