(* ===== verification/Cksum.thy ===== *)
theory Cksum
  imports Prelude
begin

text \<open>
  The Internet checksum: \<open>ars_cksum\<close> and \<open>ars_multi_cksum\<close> of \<open>src/ars.c\<close>,
  \<open>cksum\<close> of \<open>src/cksum.c\<close>.  The sum is kept in a wrapping \<open>u_int32_t\<close> as in the
  code and words are read from memory as the host stores them; the lemmas show that the
  chunked version computes the same function, that the byte order of the host does not
  matter, that a receiver accepts the value and that a changed word is noticed.
\<close>

section \<open>The code\<close>

text \<open>The \<open>while (nbytes > 1)\<close> loop: the sum so far and what is left (at most one byte).\<close>

fun sum_words :: "u32 \<Rightarrow> bytes \<Rightarrow> u32 \<times> bytes" where
  "sum_words s (a # b # p) = sum_words (s + ucast (le16 a b)) p"
| "sum_words s p = (s, p)"

definition sum_odd :: "u32 \<Rightarrow> bytes \<Rightarrow> u32" where
  "sum_odd s p = (case p of [] \<Rightarrow> s | a # _ \<Rightarrow> s + ucast (le16 a 0))"

text \<open>The two folding statements and the complement that close every variant.\<close>

definition fold_sum :: "u32 \<Rightarrow> u32" where
  "fold_sum s = (let s1 = drop_bit 16 s + (s AND 0xffff) in s1 + drop_bit 16 s1)"

definition ars_cksum :: "bytes \<Rightarrow> u16" where
  "ars_cksum buf = (case sum_words 0 buf of (s, p) \<Rightarrow> ucast (NOT (fold_sum (sum_odd s p))))"

text \<open>\<open>cksum.c\<close>: the same, and the sum is spoilt on purpose with \<open>--badcksum\<close>.\<close>

definition cksum :: "bool \<Rightarrow> bytes \<Rightarrow> u16" where
  "cksum opt_badcksum buf = (case sum_words 0 buf of (s, p) \<Rightarrow>
     let sum = fold_sum (sum_odd s p);
         sum = (if opt_badcksum then sum XOR 0x5555 else sum)
     in ucast (NOT sum))"

record mc_context =
  oddbyte_flag :: u32
  old :: u32
  oddbyte :: u8
  pad :: u8

datatype mc_op = ARS_MC_INIT | ARS_MC_UPDATE | ARS_MC_FINAL

definition mc_init :: "mc_context \<Rightarrow> mc_context" where
  "mc_init c = c\<lparr>oddbyte_flag := 0, oddbyte := 0, old := 0\<rparr>"

definition mc_update :: "mc_context \<Rightarrow> bytes \<Rightarrow> mc_context" where
  "mc_update c buf =
     (let (sum, p, c) =
        (case buf of
           a # p \<Rightarrow> if oddbyte_flag c \<noteq> 0
                    then (old c + ucast (le16 (oddbyte c) a), p, c\<lparr>oddbyte_flag := 0\<rparr>)
                    else (old c, buf, c)
         | [] \<Rightarrow> (old c, buf, c));
        (sum, p) = sum_words sum p;
        c = (case p of [] \<Rightarrow> c | a # _ \<Rightarrow> c\<lparr>oddbyte := a, oddbyte_flag := 1\<rparr>)
      in c\<lparr>old := sum\<rparr>)"

definition mc_final :: "mc_context \<Rightarrow> u16" where
  "mc_final c =
     ucast (NOT (fold_sum (if oddbyte_flag c \<noteq> 0 then old c + ucast (le16 (oddbyte c) 0) else old c)))"

definition ars_multi_cksum :: "mc_context \<Rightarrow> mc_op \<Rightarrow> bytes \<Rightarrow> u16 \<times> mc_context" where
  "ars_multi_cksum c op buf = (case op of
     ARS_MC_INIT \<Rightarrow> (0, mc_init c)
   | ARS_MC_UPDATE \<Rightarrow> (0, mc_update c buf)
   | ARS_MC_FINAL \<Rightarrow> (mc_final c, c))"

text \<open>How every caller uses it: \<open>INIT\<close>, one \<open>UPDATE\<close> per buffer, \<open>FINAL\<close>; \<open>c0\<close> is
  the uninitialised context on the caller's stack.\<close>

definition mc_run :: "mc_context \<Rightarrow> bytes list \<Rightarrow> u16" where
  "mc_run c0 bufs =
     fst (ars_multi_cksum
       (fold (\<lambda>b c. snd (ars_multi_cksum c ARS_MC_UPDATE b)) bufs
          (snd (ars_multi_cksum c0 ARS_MC_INIT []))) ARS_MC_FINAL [])"

section \<open>Chunked input\<close>

text \<open>
  A digest fed in chunks.  \<open>rel c bs\<close> says that the context \<open>c\<close> stands for the bytes
  \<open>bs\<close> consumed so far; the three laws are all a client of the interface needs.
\<close>

locale chunked_digest =
  fixes init :: "'c \<Rightarrow> 'c" and update :: "'c \<Rightarrow> 'b list \<Rightarrow> 'c" and final :: "'c \<Rightarrow> 'd"
    and whole :: "'b list \<Rightarrow> 'd" and rel :: "'c \<Rightarrow> 'b list \<Rightarrow> bool"
  assumes rel_init: "rel (init c) []"
    and rel_update: "rel c xs \<Longrightarrow> rel (update c ys) (xs @ ys)"
    and rel_final: "rel c xs \<Longrightarrow> final c = whole xs"
begin

lemma rel_fold: "rel c xs \<Longrightarrow> rel (fold (\<lambda>b c. update c b) bufs c) (xs @ concat bufs)"
proof (induction bufs arbitrary: c xs)
  case Nil
  then show ?case by simp
next
  case (Cons b bufs)
  then show ?case using Cons.IH [OF rel_update [OF Cons.prems, of b]] by simp
qed

lemma digest_chunks: "final (fold (\<lambda>b c. update c b) bufs (init c)) = whole (concat bufs)"
  using rel_final [OF rel_fold [OF rel_init, of bufs c]] by simp

end

text \<open>What a context stands for: the sum of the complete words, and the odd byte.\<close>

definition mc_rel :: "mc_context \<Rightarrow> bytes \<Rightarrow> bool" where
  "mc_rel c bs \<longleftrightarrow>
     (case sum_words 0 bs of (s, p) \<Rightarrow>
        old c = s \<and> (case p of [] \<Rightarrow> oddbyte_flag c = 0 | a # _ \<Rightarrow> oddbyte_flag c \<noteq> 0 \<and> oddbyte c = a))"

lemma sum_words_left: "length (snd (sum_words s p)) \<le> 1"
  by (induction s p rule: sum_words.induct) auto

lemma sum_words_append:
  "sum_words s (xs @ ys) = (case sum_words s xs of (t, p) \<Rightarrow> sum_words t (p @ ys))"
  by (induction s xs rule: sum_words.induct) auto

lemma mc_update_rel:
  assumes "mc_rel c xs"
  shows "mc_rel (mc_update c ys) (xs @ ys)"
proof -
  obtain s p where sp: "sum_words 0 xs = (s, p)" by fastforce
  have app: "sum_words 0 (xs @ ys) = sum_words s (p @ ys)"
    by (simp only: sum_words_append [of 0 xs ys] sp prod.case)
  obtain t q where tq: "sum_words s (p @ ys) = (t, q)" by fastforce
  have q: "q = [] \<or> (\<exists>a. q = [a])"
    using sum_words_left [of s "p @ ys"] by (cases q) (auto simp: tq)
  have p: "p = [] \<or> (\<exists>a. p = [a])"
    using sum_words_left [of 0 xs] by (cases p) (auto simp: sp)
  show ?thesis
  proof (cases p)
    case Nil
    with assms sp have c: "old c = s" "oddbyte_flag c = 0" by (simp_all add: mc_rel_def)
    have tq': "sum_words (old c) ys = (t, q)" using tq Nil c by simp
    have "mc_update c ys = (case q of [] \<Rightarrow> c | a # _ \<Rightarrow> c\<lparr>oddbyte := a, oddbyte_flag := 1\<rparr>)\<lparr>old := t\<rparr>"
    proof (cases ys)
      case Nil
      with tq' show ?thesis by (auto simp: mc_update_def)
    next
      case (Cons y ys')
      with tq' show ?thesis by (simp add: mc_update_def c(2))
    qed
    with c q show ?thesis by (auto simp: mc_rel_def app tq)
  next
    case (Cons a r)
    with p have pa: "p = [a]" by auto
    with assms sp have c: "old c = s" "oddbyte_flag c \<noteq> 0" "oddbyte c = a" by (simp_all add: mc_rel_def)
    show ?thesis
    proof (cases ys)
      case Nil
      with tq pa have "t = s" "q = [a]" by simp_all
      with c Nil sp pa show ?thesis by (simp add: mc_rel_def mc_update_def)
    next
      case (Cons y ys')
      have tq': "sum_words (old c + ucast (le16 (oddbyte c) y)) ys' = (t, q)"
        using tq pa Cons c by simp
      have "mc_update c ys = (case q of [] \<Rightarrow> c\<lparr>oddbyte_flag := 0\<rparr>
          | a # _ \<Rightarrow> c\<lparr>oddbyte := a, oddbyte_flag := 1\<rparr>)\<lparr>old := t\<rparr>"
        using q by (auto simp: mc_update_def c(2) Cons tq')
      with q show ?thesis by (auto simp: mc_rel_def app tq)
    qed
  qed
qed

lemma mc_final_rel: "mc_rel c xs \<Longrightarrow> mc_final c = ars_cksum xs"
  by (auto simp: mc_rel_def mc_final_def ars_cksum_def sum_odd_def split: list.splits prod.splits)

interpretation mc: chunked_digest mc_init mc_update mc_final ars_cksum mc_rel
proof
  show "mc_rel (mc_init c) []" for c by (simp add: mc_rel_def mc_init_def)
qed (simp_all add: mc_update_rel mc_final_rel)

lemma mc_run_eq: "mc_run c0 bufs = ars_cksum (concat bufs)"
  by (simp add: mc_run_def ars_multi_cksum_def mc.digest_chunks)

lemma cksum_eq: "cksum False buf = ars_cksum buf"
  by (simp add: cksum_def ars_cksum_def split: prod.splits)

section \<open>What the number means\<close>

text \<open>The sum of the 16-bit words over the naturals, without wrap-around.\<close>

fun word_sum :: "bytes \<Rightarrow> nat" where
  "word_sum (a # b # p) = unat (le16 a b) + word_sum p"
| "word_sum [a] = unat (le16 a 0)"
| "word_sum [] = 0"

lemma word_sum_bound: "word_sum bs \<le> 65535 * ((length bs + 1) div 2)"
proof (induction bs rule: word_sum.induct)
  case (1 a b p)
  then show ?case by simp (use unat16_less [of "le16 a b"] in linarith)
next
  case (2 a)
  then show ?case by simp (use unat16_less [of "le16 a 0"] in linarith)
qed simp

text \<open>131074 bytes are twice what an IP datagram can hold, and the \<open>u_int32_t\<close> holds their sum.\<close>

lemma word_sum_less: "length bs \<le> 131074 \<Longrightarrow> word_sum bs < 2 ^ 32"
proof -
  assume "length bs \<le> 131074"
  then have "65535 * ((length bs + 1) div 2) \<le> 65535 * 65537" by auto
  with word_sum_bound [of bs] show ?thesis by simp
qed

lemma unat_ucast32 [simp]: "unat (ucast (w::u16) :: u32) = unat w"
proof -
  have "unat w < 4294967296" using unat16_less [of w] by linarith
  then show ?thesis by (simp add: unat_ucast_mod)
qed

lemma sum_words_unat:
  "unat s + word_sum bs < 2 ^ 32 \<Longrightarrow>
     (case sum_words s bs of (t, p) \<Rightarrow> unat (sum_odd t p) = unat s + word_sum bs)"
proof (induction s bs rule: sum_words.induct)
  case (1 s a b p)
  have "unat (s + ucast (le16 a b)) = unat s + unat (le16 a b)"
    using "1.prems" by (simp add: unat_word_ariths)
  with 1 show ?case by (simp add: add.assoc)
qed (simp_all add: sum_odd_def unat_word_ariths)

text \<open>Folding on the naturals: one's complement addition of the two halves.\<close>

definition fold_nat :: "nat \<Rightarrow> nat" where
  "fold_nat n = (let f = n div 65536 + n mod 65536 in (f + f div 65536) mod 65536)"

lemma fold_sum_unat: "unat (ucast (fold_sum s) :: u16) = fold_nat (unat s)"
proof -
  define n where "n = unat s"
  have n: "n < 4294967296" using unat32_less [of s] by (simp add: n_def)
  define s1 where "s1 = drop_bit 16 s + (s AND 0xffff)"
  have lo: "unat (s AND 0xffff) = n mod 65536"
  proof -
    have "s AND 0xffff = s AND mask 16" by (simp add: mask_eq_decr_exp)
    then have "s AND 0xffff = take_bit 16 s" by (simp only: take_bit_eq_mask)
    then have "unat (s AND 0xffff) = take_bit 16 (unat s)" by (simp only: unsigned_take_bit_eq)
    then show ?thesis by (simp add: n_def take_bit_eq_mod)
  qed
  have hi: "unat (drop_bit 16 s) = n div 65536"
    by (simp add: n_def unat_div drop_bit_eq_div)
  have s1: "unat s1 = n div 65536 + n mod 65536"
  proof -
    have "n div 65536 + n mod 65536 < 4294967296" using n by linarith
    then show ?thesis by (simp add: s1_def unat_word_ariths lo hi)
  qed
  have "unat (drop_bit 16 s1) = unat s1 div 65536"
    by (simp add: unat_div drop_bit_eq_div)
  moreover have "unat s1 + unat s1 div 65536 < 4294967296"
    using s1 n by linarith
  ultimately have "unat (s1 + drop_bit 16 s1) = unat s1 + unat s1 div 65536"
    by (simp add: unat_word_ariths)
  then show ?thesis
    by (simp add: fold_sum_def Let_def flip: s1_def) (simp add: unat_ucast_mod fold_nat_def s1 n_def Let_def)
qed

lemma unat_NOT16: "unat (NOT (w::u16)) = 65535 - unat w"
proof -
  have "NOT w = 65535 - w" by (simp add: not_eq_complement)
  moreover have "w \<le> 65535"
    unfolding word_le_nat_alt using unat16_less [of w] by (simp del: unat16_less)
  ultimately show ?thesis by (simp add: unat_sub)
qed

lemma unat_ars_cksum:
  assumes "length bs \<le> 131074"
  shows "unat (ars_cksum bs) = 65535 - fold_nat (word_sum bs)"
proof -
  obtain s p where sp: "sum_words 0 bs = (s, p)" by fastforce
  have "unat (sum_odd s p) = word_sum bs"
    using sum_words_unat [of 0 bs] word_sum_less [OF assms] by (simp add: sp)
  moreover have "ars_cksum bs = NOT (ucast (fold_sum (sum_odd s p)))"
    by (simp add: ars_cksum_def sp) (rule bit_word_eqI, simp add: bit_simps)
  ultimately show ?thesis
    by (simp add: unat_NOT16 fold_sum_unat)
qed

lemma fold_nat_less: "fold_nat n < 65536"
  by (simp add: fold_nat_def Let_def)

text \<open>The second fold cannot overflow: the value is the one's complement residue of the sum.\<close>

lemma fold_nat_cases:
  assumes "n < 2 ^ 32"
  shows "fold_nat n = (if n div 65536 + n mod 65536 < 65536 then n div 65536 + n mod 65536
                       else n div 65536 + n mod 65536 - 65535)"
proof -
  define f where "f = n div 65536 + n mod 65536"
  have "n div 65536 < 65536" using assms by (simp add: less_mult_imp_div_less)
  then have f: "f \<le> 131070" unfolding f_def using mod_less_divisor [of 65536 n] by linarith
  show ?thesis
  proof (cases "f < 65536")
    case True
    then show ?thesis by (simp add: fold_nat_def Let_def flip: f_def)
  next
    case False
    with f have "f div 65536 = 1" by simp
    with False f show ?thesis by (simp add: fold_nat_def Let_def flip: f_def) (simp add: mod_if)
  qed
qed

lemma fold_nat_mod:
  assumes "n < 2 ^ 32"
  shows "fold_nat n mod 65535 = n mod 65535"
proof -
  define f where "f = n div 65536 + n mod 65536"
  have "n = 65536 * (n div 65536) + n mod 65536" by simp
  then have "n = f + 65535 * (n div 65536)" unfolding f_def by linarith
  then have "n mod 65535 = (f + 65535 * (n div 65536)) mod 65535" by (rule arg_cong)
  then have "n mod 65535 = f mod 65535" by simp
  moreover have "(f - 65535) mod 65535 = f mod 65535" if "\<not> f < 65536"
    using that by (simp add: le_mod_geq)
  ultimately show ?thesis
    by (simp add: fold_nat_cases [OF assms] flip: f_def)
qed

lemma fold_nat_eq_0:
  assumes "n < 2 ^ 32"
  shows "fold_nat n = 0 \<longleftrightarrow> n = 0"
proof -
  have "n div 65536 + n mod 65536 = 0 \<longleftrightarrow> n = 0"
    by (metis add_is_0 div_mult_mod_eq mult_zero_left div_0 mod_0)
  then show ?thesis by (auto simp: fold_nat_cases [OF assms])
qed

section \<open>What a receiver checks\<close>

text \<open>The big endian reading of the same memory, for the comparison of hosts.\<close>

fun word_sum_be :: "bytes \<Rightarrow> nat" where
  "word_sum_be (a # b # p) = unat (le16 b a) + word_sum_be p"
| "word_sum_be [a] = unat (le16 0 a)"
| "word_sum_be [] = 0"

lemma word_sum_append:
  "even (length xs) \<Longrightarrow> word_sum (xs @ ys) = word_sum xs + word_sum ys"
  by (induction xs rule: word_sum.induct) auto

lemma word_sum_bytes16 [simp]: "word_sum (bytes16 w) = unat w"
  by (simp add: bytes16_def le16_bytes16)

lemma word_sum_be_mod: "word_sum_be bs mod 65535 = (256 * word_sum bs) mod 65535"
proof (induction bs rule: word_sum_be.induct)
  case (1 a b p)
  have "unat (le16 b a) mod 65535 = (256 * unat (le16 a b)) mod 65535"
  proof -
    have "256 * unat (le16 a b) = unat (le16 b a) + 65535 * unat b"
      by (simp add: unat_le16)
    then show ?thesis by simp
  qed
  with 1 show ?case
    by (simp add: distrib_left) (metis mod_add_cong)
next
  case (2 a)
  then show ?case by (simp add: unat_le16)
qed simp

lemma word_sum_be_bound: "word_sum_be bs \<le> 65535 * ((length bs + 1) div 2)"
proof (induction bs rule: word_sum_be.induct)
  case (1 a b p)
  then show ?case by simp (use unat16_less [of "le16 b a"] in linarith)
next
  case (2 a)
  then show ?case by simp (use unat16_less [of "le16 0 a"] in linarith)
qed simp

lemma word_sum_be_eq_0: "word_sum_be bs = 0 \<longleftrightarrow> word_sum bs = 0"
  by (induction bs rule: word_sum_be.induct) (auto simp: unat_le16)

text \<open>The residue 0 of one's complement arithmetic has two names, 0 and 65535: \<open>fold_nat\<close>
  picks 0 for the sum 0 only, so it is determined by the residue and by being zero.\<close>

lemma residue_unique:
  fixes m n :: nat
  assumes "m \<le> 65535" "n \<le> 65535" "m mod 65535 = n mod 65535" "m = 0 \<longleftrightarrow> n = 0"
  shows "m = n"
proof -
  have small: "k mod 65535 = (if k = 65535 then 0 else k)" if "k \<le> 65535" for k :: nat
  proof (cases "k = 65535")
    case False
    with that have "k < 65535" by linarith
    with False show ?thesis by (simp only: mod_less if_False)
  qed simp
  have "(if m = 65535 then 0 else m) = (if n = 65535 then 0 else n)"
    using assms(3) small [OF assms(1)] small [OF assms(2)] by simp
  with assms(4) show ?thesis by (simp split: if_splits)
qed

lemma fold_nat_unique:
  assumes "m < 2 ^ 32" "n < 2 ^ 32" "m mod 65535 = n mod 65535" "m = 0 \<longleftrightarrow> n = 0"
  shows "fold_nat m = fold_nat n"
proof (rule residue_unique)
  show "fold_nat m \<le> 65535" "fold_nat n \<le> 65535"
    using fold_nat_less [of m] fold_nat_less [of n] by linarith+
  show "fold_nat m mod 65535 = fold_nat n mod 65535"
    by (simp only: fold_nat_mod [OF assms(1)] fold_nat_mod [OF assms(2)] assms(3))
  show "(fold_nat m = 0) = (fold_nat n = 0)"
    by (simp only: fold_nat_eq_0 [OF assms(1)] fold_nat_eq_0 [OF assms(2)] assms(4))
qed

lemma word_sum_be_less: "length bs \<le> 131074 \<Longrightarrow> word_sum_be bs < 2 ^ 32"
proof -
  assume "length bs \<le> 131074"
  then have "65535 * ((length bs + 1) div 2) \<le> 65535 * 65537" by auto
  with word_sum_be_bound [of bs] show ?thesis by simp
qed

text \<open>RFC 1071 on the network-order words: the complement of their one's complement sum.\<close>

definition rfc1071 :: "bytes \<Rightarrow> nat" where
  "rfc1071 bs = 65535 - fold_nat (word_sum_be bs)"

lemma div_mod_256: "c = 256 * (c div 256) + c mod 256" for c :: nat
  by simp

lemma swap_eq_0: "c div 256 + 256 * (c mod 256) = 0 \<longleftrightarrow> c = 0" for c :: nat
proof
  assume "c div 256 + 256 * (c mod 256) = 0"
  then have "c div 256 = 0" "c mod 256 = 0" by simp_all
  then show "c = 0" using div_mod_256 [of c] by (simp only: mult_0_right add_0)
qed simp

lemma swap_residue: "(c div 256 + 256 * (c mod 256)) mod 65535 = 256 * c mod 65535" for c :: nat
proof -
  define q r where "q = c div 256" and "r = c mod 256"
  have "c = 256 * q + r" unfolding q_def r_def by (rule div_mod_256)
  then have "256 * c mod 65535 = ((q + 256 * r) + 65535 * q) mod 65535"
    by (intro arg_cong [where f = "\<lambda>x. x mod 65535"]) simp
  then show ?thesis unfolding q_def [symmetric] r_def [symmetric] by (simp only: mod_mult_self2)
qed

lemma swap_complement:
  fixes c :: nat
  assumes "c < 65536"
  shows "(65535 - c) div 256 + 256 * ((65535 - c) mod 256) = 65535 - (c div 256 + 256 * (c mod 256))"
proof -
  define q r where "q = c div 256" and "r = c mod 256"
  have c: "c = 256 * q + r" unfolding q_def r_def by (rule div_mod_256)
  have q: "q < 256" using assms by (simp add: q_def less_mult_imp_div_less)
  have r: "r < 256" by (simp add: r_def)
  obtain q' r' where q': "q + q' = 255" and r': "r + r' = 255"
    using q r by (metis le_add_diff_inverse less_Suc_eq_le numeral_eq_Suc pred_numeral_simps(2)
        eval_nat_numeral(2) semiring_norm(28) semiring_norm(27) semiring_norm(26))
  have "65535 - c = 256 * q' + r'" using c q' r' by linarith
  moreover have "r' < 256" using r' by simp
  ultimately have "(65535 - c) div 256 = q'" "(65535 - c) mod 256 = r'" by simp_all
  moreover have "65535 - (q + 256 * r) = q' + 256 * r'" using q' r' by linarith
  ultimately show ?thesis by (simp add: q_def r_def)
qed

lemma complement_residue:
  assumes "z < 2 ^ 32"
  shows "(z + (65535 - fold_nat z)) mod 65535 = 0"
proof -
  have "(z + (65535 - fold_nat z)) mod 65535 = (fold_nat z + (65535 - fold_nat z)) mod 65535"
    using fold_nat_mod [OF assms] by (intro mod_add_cong) simp_all
  also have "fold_nat z + (65535 - fold_nat z) = 65535"
    using fold_nat_less [of z] by linarith
  finally show ?thesis by simp
qed

lemma mod_add_right_cancel: "(a + r) mod m = (b + r) mod m \<Longrightarrow> a mod m = b mod m" for a b r m :: nat
  by (auto simp: nat_mod_eq_iff)

lemma swap_fold:
  assumes "length bs \<le> 131074" and "c = fold_nat (word_sum bs)"
  shows "c div 256 + 256 * (c mod 256) = fold_nat (word_sum_be bs)"
proof (rule residue_unique)
  have c: "c < 65536" using assms(2) fold_nat_less by simp
  then have "c div 256 < 256" by (simp add: less_mult_imp_div_less)
  moreover have "c mod 256 < 256" by simp
  ultimately show "c div 256 + 256 * (c mod 256) \<le> 65535" by linarith
  show "fold_nat (word_sum_be bs) \<le> 65535" using fold_nat_less [of "word_sum_be bs"] by simp
  have "(c div 256 + 256 * (c mod 256)) mod 65535 = 256 * c mod 65535"
    by (rule swap_residue)
  also have "\<dots> = 256 * word_sum bs mod 65535"
    using fold_nat_mod [OF word_sum_less [OF assms(1)]] assms(2) by (intro mod_mult_cong) simp_all
  also have "\<dots> = fold_nat (word_sum_be bs) mod 65535"
    using fold_nat_mod [OF word_sum_be_less [OF assms(1)]] by (simp add: word_sum_be_mod)
  finally show "(c div 256 + 256 * (c mod 256)) mod 65535 = fold_nat (word_sum_be bs) mod 65535" .
  show "(c div 256 + 256 * (c mod 256) = 0) = (fold_nat (word_sum_be bs) = 0)"
    using fold_nat_eq_0 [OF word_sum_less [OF assms(1)]] fold_nat_eq_0 [OF word_sum_be_less [OF assms(1)]]
    by (simp only: swap_eq_0 assms(2) word_sum_be_eq_0)
qed

lemma cksum_receiver:
  assumes "even (length pre)" and "length pre + 2 + length post \<le> 131074"
  shows "ars_cksum (pre @ bytes16 (ars_cksum (pre @ [0, 0] @ post)) @ post) = 0"
proof -
  let ?z = "pre @ [0, 0] @ post" and ?m = "pre @ bytes16 (ars_cksum (pre @ [0, 0] @ post)) @ post"
  have len: "length ?z \<le> 131074" "length ?m \<le> 131074" using assms(2) by simp_all
  have z: "word_sum ?z = word_sum pre + word_sum post"
    by (simp add: word_sum_append [OF assms(1)] unat_le16)
  have ck: "unat (ars_cksum ?z) = 65535 - fold_nat (word_sum ?z)" by (rule unat_ars_cksum [OF len(1)])
  have m: "word_sum ?m = word_sum ?z + (65535 - fold_nat (word_sum ?z))"
    using z ck by (simp add: word_sum_append [OF assms(1)] word_sum_append [of "bytes16 w" for w])
  have lt: "word_sum ?z < 2 ^ 32" "word_sum ?m < 2 ^ 32"
    using word_sum_less len by blast+
  have "word_sum ?m mod 65535 = 0"
    unfolding m by (rule complement_residue [OF lt(1)])
  moreover have "word_sum ?m \<noteq> 0"
    using m fold_nat_eq_0 [OF lt(1)] fold_nat_less [of "word_sum ?z"] by auto
  ultimately have "fold_nat (word_sum ?m) = fold_nat 65535"
    by (intro fold_nat_unique [OF lt(2)]) simp_all
  then have "unat (ars_cksum ?m) = 0"
    using unat_ars_cksum [OF len(2)] by (simp add: fold_nat_def)
  then show ?thesis by (simp add: unat_eq_0)
qed

section \<open>Properties\<close>

text \<open>C4. Feeding a message to \<open>ars_multi_cksum\<close> in any number of chunks, of any (also odd or
  zero) sizes and from any uninitialised context, gives the checksum that \<open>ars_cksum\<close> computes
  over the concatenation.\<close>

theorem multi_cksum_chunks: "mc_run c0 bufs = ars_cksum (concat bufs)"
  by (rule mc_run_eq)

text \<open>C17. On every message of at most 131074 bytes the value that \<open>ars_cksum\<close> leaves in
  memory is the RFC 1071 checksum in network byte order, although the code adds the words in
  host order and folds only twice.\<close>

theorem ars_cksum_rfc1071:
  assumes "length bs \<le> 131074"
  shows "unat (htons (ars_cksum bs)) = rfc1071 bs"
proof -
  define c where "c = fold_nat (word_sum bs)"
  have c: "c < 65536" by (simp add: c_def fold_nat_less)
  have w: "unat (ars_cksum bs) = 65535 - c" by (simp add: unat_ars_cksum [OF assms] c_def)
  have "unat (htons (ars_cksum bs)) = 65535 - (c div 256 + 256 * (c mod 256))"
    using swap_complement [OF c] by (simp only: unat_htons w)
  then show ?thesis by (simp add: rfc1071_def swap_fold [OF assms c_def])
qed

theorem ars_cksum_rfc1071_witness:
  "length [0x45, 0x00, 0x1c :: u8] \<le> 131074 \<and> unat (htons (ars_cksum [0x45, 0x00, 0x1c])) = rfc1071 [0x45, 0x00, 0x1c]"
  using ars_cksum_rfc1071 [of "[0x45, 0x00, 0x1c]"] by simp

text \<open>C18. A receiver accepts: when the checksum of a message with a zeroed checksum field at an
  even offset is stored in that field, the checksum of the result is 0.\<close>

theorem receiver_accepts:
  assumes "even (length pre)" and "length pre + 2 + length post \<le> 131074"
  shows "ars_cksum (pre @ bytes16 (ars_cksum (pre @ [0, 0] @ post)) @ post) = 0"
  using assms by (rule cksum_receiver)

theorem receiver_accepts_witness:
  "even (length [0x45 :: u8, 0x00]) \<and> length [0x45 :: u8, 0x00] + 2 + length [0x1c :: u8, 0x02, 0x7f] \<le> 131074
   \<and> ars_cksum ([0x45, 0x00] @ bytes16 (ars_cksum ([0x45, 0x00] @ [0, 0] @ [0x1c, 0x02, 0x7f])) @ [0x1c, 0x02, 0x7f]) = 0"
  using receiver_accepts [of "[0x45, 0x00]" "[0x1c, 0x02, 0x7f]"] by simp

text \<open>C19. A changed 16-bit word is noticed, except that one's complement arithmetic cannot
  tell 0x0000 from 0xffff.\<close>

theorem changed_word_noticed:
  assumes "even (length pre)" and "length pre + 2 + length post \<le> 131074"
    and "ars_cksum (pre @ bytes16 v @ post) = ars_cksum (pre @ bytes16 w @ post)"
  shows "v = w \<or> {v, w} = {0, 0xffff}"
proof -
  have len: "length (pre @ bytes16 x @ post) \<le> 131074" for x using assms(2) by simp
  have sum: "word_sum (pre @ bytes16 x @ post) = unat x + (word_sum pre + word_sum post)" for x
    by (simp add: word_sum_append [OF assms(1)] word_sum_append [of "bytes16 x"])
  define r where "r = word_sum pre + word_sum post"
  have ck: "unat (ars_cksum (pre @ bytes16 x @ post)) = 65535 - fold_nat (unat x + r)" for x
    using unat_ars_cksum [OF len] by (simp only: sum r_def)
  have le: "fold_nat n \<le> 65535" for n using fold_nat_less [of n] by simp
  have "65535 - fold_nat (unat v + r) = 65535 - fold_nat (unat w + r)"
    using assms(3) ck by metis
  then have f: "fold_nat (unat v + r) = fold_nat (unat w + r)"
    using le [of "unat v + r"] le [of "unat w + r"] by linarith
  have lt: "unat x + r < 2 ^ 32" for x :: u16
    using word_sum_less [OF len, of x] unfolding sum r_def .
  have "(unat v + r) mod 65535 = (unat w + r) mod 65535"
    using fold_nat_mod [OF lt [of v]] fold_nat_mod [OF lt [of w]] f by simp
  then have mods: "unat v mod 65535 = unat w mod 65535"
    by (rule mod_add_right_cancel)
  have "unat v \<le> 65535" "unat w \<le> 65535"
    using unat16_less [of v] unat16_less [of w] by linarith+
  then have "unat v = unat w \<or> (unat v = 0 \<and> unat w = 65535) \<or> (unat v = 65535 \<and> unat w = 0)"
    using residue_unique [of "unat v" "unat w"] mods by (cases "unat v = 65535"; cases "unat w = 65535") auto
  then show ?thesis
    by (auto simp: word_unat_eq_iff)
qed

theorem changed_word_noticed_witness:
  "even (length [1 :: u8, 2]) \<and> length [1 :: u8, 2] + 2 + length [9 :: u8] \<le> 131074
   \<and> ars_cksum ([1, 2] @ bytes16 0 @ [9]) = ars_cksum ([1, 2] @ bytes16 0xffff @ [9])
   \<and> ((0 :: u16) = 0xffff \<or> {0, 0xffff} = {0, 0xffff :: u16})"
proof -
  have eq: "ars_cksum ([1, 2] @ bytes16 0 @ [9]) = ars_cksum ([1, 2] @ bytes16 0xffff @ [9])"
    by code_simp
  show ?thesis
    using changed_word_noticed [OF _ _ eq] eq by simp
qed

end
