(* ===== verification/Adbuf.thy ===== *)
theory Adbuf
  imports Prelude
begin

text \<open>
  Dynamic buffers, \<open>src/adbuf.c\<close> and \<open>src/adbuf.h\<close>.  A buffer is the heap block
  \<open>buf\<close> (\<open>None\<close> for \<open>NULL\<close>), the allocated \<open>size\<close> and the unused \<open>left\<close> (\<open>bsize\<close>, \<open>bleft\<close> here); sizes
  are natural numbers (objects are smaller than \<open>2 ^ 63\<close>, so the sums never wrap) except
  in \<open>adbuf_rtrim\<close>, whose subtraction does wrap.  Every write into the block is checked:
  a result \<open>None\<close> would be a write outside of it.  Bytes of a fresh block that the code
  does not initialise are \<open>NUL\<close> in the model; no operation reads them.

  \<open>adbuf_ok\<close> is the invariant, \<open>adbuf_str\<close> the contents; the lemmas say that every
  operation keeps the first and what it does to the second.
\<close>

abbreviation NUL :: char where "NUL \<equiv> CHR 0x00"

record adbuf =
  buf :: "string option"
  bsize :: nat
  bleft :: nat

definition ADBUF_INCR :: nat where "ADBUF_INCR = 256"

definition adbuf_used :: "adbuf \<Rightarrow> nat" where
  "adbuf_used b = bsize b - bleft b"

definition adbuf_from_heapstring :: "string \<Rightarrow> adbuf" where
  "adbuf_from_heapstring s = \<lparr>buf = Some (s @ [NUL]), bsize = length s, bleft = 0\<rparr>"

text \<open>\<open>realloc\<close> to \<open>n\<close> bytes keeps the common prefix; a checked \<open>memcpy\<close> into a block.\<close>

definition resize :: "nat \<Rightarrow> string \<Rightarrow> string" where
  "resize n d = take n d @ replicate (n - length d) NUL"

definition put :: "string \<Rightarrow> nat \<Rightarrow> string \<Rightarrow> string option" where
  "put d off s = (if off + length s \<le> length d
     then Some (take off d @ s @ drop (off + length s) d) else None)"

section \<open>Operations\<close>

text \<open>The return value is 0 for success and 1 for an error, as in the code.\<close>

definition adbuf_init :: "allocator \<Rightarrow> adbuf \<Rightarrow> nat \<times> adbuf" where
  "adbuf_init al b = (if al 1 then (0, \<lparr>buf = Some [NUL], bsize = 1, bleft = 1\<rparr>) else (1, b\<lparr>buf := None\<rparr>))"

definition adbuf_free :: "adbuf \<Rightarrow> adbuf" where
  "adbuf_free b = b\<lparr>buf := None\<rparr>"

definition adbuf_reset :: "allocator \<Rightarrow> adbuf \<Rightarrow> nat \<times> adbuf" where
  "adbuf_reset al b = adbuf_init al (adbuf_free b)"

definition adbuf_grow :: "allocator \<Rightarrow> adbuf \<Rightarrow> string \<Rightarrow> nat \<Rightarrow> adbuf option" where
  "adbuf_grow al b d len =
     (if len + 1 > bleft b then
        let newsz = bsize b + len + ADBUF_INCR
        in if al newsz then Some \<lparr>buf = Some (resize newsz d), bsize = newsz, bleft = bleft b + len + ADBUF_INCR\<rparr>
           else None
      else Some b)"

definition adbuf_add :: "allocator \<Rightarrow> adbuf \<Rightarrow> string \<Rightarrow> (nat \<times> adbuf) option" where
  "adbuf_add al b data =
     (let len = length data in
      case buf b of None \<Rightarrow> Some (1, b)
      | Some d \<Rightarrow>
        if len = 0 then Some (0, b)
        else case adbuf_grow al b d len of None \<Rightarrow> Some (1, b)
        | Some b' \<Rightarrow> do {
            d \<leftarrow> put (the (buf b')) (adbuf_used b') data;
            d \<leftarrow> put d (adbuf_used b' + len) [NUL];
            Some (0, b'\<lparr>buf := Some d, bleft := bleft b' - len\<rparr>)
          })"

definition adbuf_addchar :: "allocator \<Rightarrow> adbuf \<Rightarrow> int \<Rightarrow> (nat \<times> adbuf) option" where
  "adbuf_addchar al b c =
     (case buf b of None \<Rightarrow> Some (1, b)
      | Some d \<Rightarrow>
        if bleft b \<ge> 2 then do {
          d \<leftarrow> put d (adbuf_used b) [char_of c];
          d \<leftarrow> put d (adbuf_used b + 1) [NUL];
          Some (0, b\<lparr>buf := Some d, bleft := bleft b - 1\<rparr>)
        } else adbuf_add al b [char_of c])"

text \<open>\<open>strlen\<close>: a C string ends at its first NUL.\<close>

definition cstr :: "string \<Rightarrow> string" where
  "cstr s = takeWhile (\<lambda>c. c \<noteq> NUL) s"

definition adbuf_strcat :: "allocator \<Rightarrow> adbuf \<Rightarrow> string \<Rightarrow> (nat \<times> adbuf) option" where
  "adbuf_strcat al b s = adbuf_add al b (cstr s)"

definition adbuf_cat :: "allocator \<Rightarrow> adbuf \<Rightarrow> adbuf \<Rightarrow> (nat \<times> adbuf) option" where
  "adbuf_cat al a b = adbuf_add al a (take (adbuf_used b) (case buf b of None \<Rightarrow> [] | Some d \<Rightarrow> d))"

definition adbuf_cut :: "allocator \<Rightarrow> adbuf \<Rightarrow> nat \<Rightarrow> (nat \<times> adbuf) option" where
  "adbuf_cut al b count =
     (case buf b of None \<Rightarrow> Some (1, b)
      | Some d \<Rightarrow>
        if count \<ge> adbuf_used b then Some (0, b)
        else let count = count + 1 in
          if al count then do {
            t \<leftarrow> put (resize count d) (count - 1) [NUL];
            Some (0, \<lparr>buf = Some t, bsize = count, bleft = 1\<rparr>)
          } else Some (1, b))"

definition adbuf_ltrim :: "allocator \<Rightarrow> adbuf \<Rightarrow> nat \<Rightarrow> (nat \<times> adbuf) option" where
  "adbuf_ltrim al b count =
     (case buf b of None \<Rightarrow> Some (1, b)
      | Some d \<Rightarrow>
        if count = 0 then Some (0, b)
        else if count \<ge> adbuf_used b then Some (adbuf_reset al b)
        else let newlen = adbuf_used b - count in
          if al (newlen + 1) then do {
            t \<leftarrow> put (replicate (newlen + 1) NUL) 0 (take newlen (drop count d));
            t \<leftarrow> put t newlen [NUL];
            Some (0, \<lparr>buf = Some t, bsize = newlen + 1, bleft = 1\<rparr>)
          } else Some (1, b))"

text \<open>\<open>adbuf_used(b)-count\<close> is a \<open>size_t\<close>: it wraps when more is trimmed than there is.\<close>

definition adbuf_rtrim :: "allocator \<Rightarrow> adbuf \<Rightarrow> nat \<Rightarrow> (nat \<times> adbuf) option" where
  "adbuf_rtrim al b count =
     adbuf_cut al b (nat ((int (adbuf_used b) - int count) mod 2 ^ 64))"

definition digit :: "nat \<Rightarrow> char" where
  "digit n = char_of (48 + n mod 10)"

text \<open>The loop that fills \<open>s\<close> from its end: \<open>k\<close> is the room bleft, \<open>acc\<close> what was written.\<close>

fun itoa_loop :: "nat \<Rightarrow> nat \<Rightarrow> string \<Rightarrow> string" where
  "itoa_loop 0 l acc = acc"
| "itoa_loop (Suc k) l acc =
     (let acc = digit l # acc; l = l div 10 in if l = 0 then acc else itoa_loop k l acc)"

definition ADBUF_ITOABUFSZ :: nat where "ADBUF_ITOABUFSZ = 32"

text \<open>\<open>l = -l\<close> is undefined for \<open>LONG_MIN\<close>.  \<open>p > s\<close> keeps one place for the sign.\<close>

definition adbuf_add_long :: "allocator \<Rightarrow> adbuf \<Rightarrow> int \<Rightarrow> (nat \<times> adbuf) option" where
  "adbuf_add_long al b l =
     (if l = - (2 ^ 63) then None
      else let s = itoa_loop (ADBUF_ITOABUFSZ - 2) (nat \<bar>l\<bar>) []
           in adbuf_strcat al b (if l < 0 then CHR ''-'' # s else s))"

definition adbuf_add_ulong :: "allocator \<Rightarrow> adbuf \<Rightarrow> nat \<Rightarrow> (nat \<times> adbuf) option" where
  "adbuf_add_ulong al b l = adbuf_strcat al b (itoa_loop (ADBUF_ITOABUFSZ - 1) l [])"

definition adbuf_clone :: "allocator \<Rightarrow> adbuf \<Rightarrow> adbuf \<Rightarrow> (nat \<times> adbuf) option" where
  "adbuf_clone al src dst =
     (case buf src of None \<Rightarrow> Some (1, dst)
      | Some d \<Rightarrow>
        (case adbuf_init al dst of (err, dst) \<Rightarrow>
           if err \<noteq> 0 then Some (1, dst)
           else adbuf_add al dst (take (adbuf_used src) d)))"

definition ADBUF_PRINTF_BUFSZ :: nat where "ADBUF_PRINTF_BUFSZ = 1024"

text \<open>\<open>out\<close> is what C99 \<open>vsnprintf\<close> produces for the format and its arguments; output
  that does not fit the buffer on the stack goes through a heap buffer.\<close>

definition adbuf_printf :: "allocator \<Rightarrow> adbuf \<Rightarrow> string \<Rightarrow> (nat \<times> adbuf) option" where
  "adbuf_printf al dst out =
     (if length out \<ge> ADBUF_PRINTF_BUFSZ \<and> \<not> al (length out + 1) then Some (1, dst)
      else adbuf_add al dst out)"

section \<open>Invariant and contents\<close>

text \<open>The block covers \<open>bsize\<close> bytes and is nul terminated right after the contents.\<close>

definition adbuf_ok :: "adbuf \<Rightarrow> bool" where
  "adbuf_ok b \<longleftrightarrow> (case buf b of None \<Rightarrow> False | Some d \<Rightarrow>
     bleft b \<le> bsize b \<and> bsize b \<le> length d \<and> adbuf_used b < length d \<and> d ! adbuf_used b = NUL)"

definition adbuf_str :: "adbuf \<Rightarrow> string" where
  "adbuf_str b = (case buf b of None \<Rightarrow> [] | Some d \<Rightarrow> take (adbuf_used b) d)"

lemma adbuf_okE:
  assumes "adbuf_ok b"
  obtains d where "buf b = Some d" "bleft b \<le> bsize b" "bsize b \<le> length d" "adbuf_used b < length d"
    "d ! adbuf_used b = NUL" "adbuf_str b = take (adbuf_used b) d"
  using assms by (auto simp: adbuf_ok_def adbuf_str_def split: option.splits)

lemma length_adbuf_str: "adbuf_ok b \<Longrightarrow> length (adbuf_str b) = adbuf_used b"
  by (auto elim!: adbuf_okE)

lemma adbuf_init_ok:
  assumes "al 1"
  shows "adbuf_init al b = (0, \<lparr>buf = Some [NUL], bsize = 1, bleft = 1\<rparr>)"
    and "adbuf_ok (snd (adbuf_init al b))" and "adbuf_str (snd (adbuf_init al b)) = []"
  using assms by (simp_all add: adbuf_init_def adbuf_ok_def adbuf_str_def adbuf_used_def)

lemma from_heapstring_ok:
  "adbuf_ok (adbuf_from_heapstring s)" "adbuf_str (adbuf_from_heapstring s) = s"
  by (simp_all add: adbuf_from_heapstring_def adbuf_ok_def adbuf_str_def adbuf_used_def)

text \<open>The common step of all appending operations: room for the data and its NUL.\<close>

lemma store_ok:
  assumes "buf b = Some d" "bleft b \<le> bsize b" "bsize b \<le> length d" "s \<noteq> []" "length s + 1 \<le> bleft b"
  shows "\<exists>b'. (do { d \<leftarrow> put (the (buf b)) (adbuf_used b) s; d \<leftarrow> put d (adbuf_used b + length s) [NUL];
                    Some (0, b\<lparr>buf := Some d, bleft := bleft b - length s\<rparr>) }) = Some (0, b')
    \<and> adbuf_ok b' \<and> adbuf_str b' = take (adbuf_used b) d @ s \<and> bsize b' = bsize b \<and> bleft b' = bleft b - length s"
proof -
  let ?u = "adbuf_used b"
  let ?d1 = "take ?u d @ s @ drop (?u + length s) d"
  let ?d2 = "take (?u + length s) ?d1 @ [NUL] @ drop (?u + length s + 1) ?d1"
  have room: "?u + length s + 1 \<le> length d" using assms by (simp add: adbuf_used_def)
  then have p1: "put d ?u s = Some ?d1" by (simp add: put_def)
  have l1: "length ?d1 = length d" using room by simp
  have p2: "put ?d1 (?u + length s) [NUL] = Some ?d2"
    using room l1 by (simp add: put_def)
  have used: "adbuf_used (b\<lparr>buf := Some ?d2, bleft := bleft b - length s\<rparr>) = ?u + length s"
    using assms by (simp add: adbuf_used_def)
  show ?thesis
    using room assms used p1 p2
    by (auto simp: adbuf_ok_def adbuf_str_def min_def nth_append)
qed

lemma adbuf_add_ok:
  assumes "adbuf_ok b" and "\<forall>n. al n"
  shows "\<exists>b'. adbuf_add al b s = Some (0, b') \<and> adbuf_ok b' \<and> adbuf_str b' = adbuf_str b @ s"
proof (cases "s = []")
  case True
  with assms(1) show ?thesis by (auto simp: adbuf_add_def adbuf_ok_def split: option.splits)
next
  case False
  obtain d where d: "buf b = Some d" "bleft b \<le> bsize b" "bsize b \<le> length d" "adbuf_used b < length d"
    "d ! adbuf_used b = NUL" "adbuf_str b = take (adbuf_used b) d"
    using assms(1) by (rule adbuf_okE)
  obtain b1 d1 where b1: "adbuf_grow al b d (length s) = Some b1" "buf b1 = Some d1" "bleft b1 \<le> bsize b1"
    "bsize b1 \<le> length d1" "length s + 1 \<le> bleft b1" "adbuf_used b1 = adbuf_used b"
    "take (adbuf_used b) d1 = take (adbuf_used b) d"
  proof (cases "length s + 1 > bleft b")
    case True
    let ?n = "bsize b + length s + ADBUF_INCR"
    have "adbuf_grow al b d (length s) = Some \<lparr>buf = Some (resize ?n d), bsize = ?n, bleft = bleft b + length s + ADBUF_INCR\<rparr>"
      using True assms(2) by (simp add: adbuf_grow_def Let_def)
    then show thesis
      by (rule that [of _ "resize ?n d"]) (use d in \<open>auto simp: resize_def adbuf_used_def ADBUF_INCR_def min_def\<close>)
  next
    case False
    then have "adbuf_grow al b d (length s) = Some b" by (simp add: adbuf_grow_def)
    with False d show thesis by (intro that) auto
  qed
  obtain b' where "adbuf_add al b s = Some (0, b')" "adbuf_ok b'" "adbuf_str b' = take (adbuf_used b1) d1 @ s"
    using store_ok [OF b1(2,3,4) False b1(5)] False d(1) b1(1) by (auto simp: adbuf_add_def Let_def)
  with b1(6,7) d(6) show ?thesis by simp
qed

text \<open>Whatever the allocator answers: no access outside of the block, the invariant is kept, and
  a failed call changes nothing.\<close>

lemma adbuf_add_total:
  assumes "adbuf_ok b"
  shows "\<exists>r b'. adbuf_add al b s = Some (r, b') \<and> adbuf_ok b'
     \<and> (r = 0 \<longrightarrow> adbuf_str b' = adbuf_str b @ s) \<and> (r \<noteq> 0 \<longrightarrow> b' = b)"
proof (cases "al (bsize b + length s + ADBUF_INCR)")
  case True
  have "adbuf_add al b s = adbuf_add (\<lambda>_. True) b s"
    using True by (simp add: adbuf_add_def adbuf_grow_def Let_def split: option.splits)
  with adbuf_add_ok [OF assms, of "\<lambda>_. True" s] show ?thesis by auto
next
  case False
  show ?thesis
  proof (cases "s \<noteq> [] \<and> length s + 1 > bleft b")
    case True
    then have "adbuf_add al b s = Some (1, b)"
      using False assms by (auto simp: adbuf_add_def adbuf_grow_def Let_def elim!: adbuf_okE)
    with assms show ?thesis by simp
  next
    case ok: False
    then have "adbuf_add al b s = adbuf_add (\<lambda>_. True) b s"
      by (auto simp: adbuf_add_def adbuf_grow_def Let_def split: option.splits)
    with adbuf_add_ok [OF assms, of "\<lambda>_. True" s] show ?thesis by auto
  qed
qed

lemma adbuf_addchar_ok:
  assumes "adbuf_ok b" and "\<forall>n. al n"
  shows "\<exists>b'. adbuf_addchar al b c = Some (0, b') \<and> adbuf_ok b' \<and> adbuf_str b' = adbuf_str b @ [char_of c]"
proof -
  obtain d where d: "buf b = Some d" "bleft b \<le> bsize b" "bsize b \<le> length d" "adbuf_used b < length d"
    "d ! adbuf_used b = NUL" "adbuf_str b = take (adbuf_used b) d"
    using assms(1) by (rule adbuf_okE)
  show ?thesis
  proof (cases "bleft b \<ge> 2")
    case True
    with store_ok [of b d "[char_of c]"] d show ?thesis by (auto simp: adbuf_addchar_def)
  next
    case False
    with d(1) adbuf_add_ok [OF assms, of "[char_of c]"] show ?thesis by (auto simp: adbuf_addchar_def)
  qed
qed

lemma adbuf_printf_ok:
  assumes "adbuf_ok b" and "\<forall>n. al n"
  shows "\<exists>b'. adbuf_printf al b s = Some (0, b') \<and> adbuf_ok b' \<and> adbuf_str b' = adbuf_str b @ s"
proof -
  have "adbuf_printf al b s = adbuf_add al b s"
    using assms(2) by (auto simp: adbuf_printf_def)
  then show ?thesis using adbuf_add_ok [OF assms, of s] by (simp only:)
qed

lemma adbuf_cut_ok:
  assumes "adbuf_ok b" and "\<forall>n. al n"
  shows "\<exists>b'. adbuf_cut al b n = Some (0, b') \<and> adbuf_ok b' \<and> adbuf_str b' = take n (adbuf_str b)"
proof -
  obtain d where d: "buf b = Some d" "bleft b \<le> bsize b" "bsize b \<le> length d" "adbuf_used b < length d"
    "d ! adbuf_used b = NUL" "adbuf_str b = take (adbuf_used b) d"
    using assms(1) by (rule adbuf_okE)
  show ?thesis
  proof (cases "n \<ge> adbuf_used b")
    case True
    with d assms(1) show ?thesis by (auto simp: adbuf_cut_def)
  next
    case False
    with d assms(2) show ?thesis
      by (auto simp: adbuf_cut_def put_def resize_def adbuf_ok_def adbuf_str_def adbuf_used_def
          min_def nth_append)
  qed
qed

lemma adbuf_rtrim_ok:
  assumes "adbuf_ok b" and "\<forall>n. al n" and "n \<le> adbuf_used b" and "adbuf_used b < 2 ^ 64"
  shows "\<exists>b'. adbuf_rtrim al b n = Some (0, b') \<and> adbuf_ok b'
     \<and> adbuf_str b' = take (adbuf_used b - n) (adbuf_str b)"
proof -
  have "(int (adbuf_used b) - int n) mod 2 ^ 64 = int (adbuf_used b - n)"
    using assms(3,4) by (subst mod_pos_pos_trivial) auto
  then show ?thesis
    using adbuf_cut_ok [OF assms(1,2), of "adbuf_used b - n"] by (simp add: adbuf_rtrim_def)
qed

lemma adbuf_ltrim_ok:
  assumes "adbuf_ok b" and "\<forall>n. al n"
  shows "\<exists>b'. adbuf_ltrim al b n = Some (0, b') \<and> adbuf_ok b' \<and> adbuf_str b' = drop n (adbuf_str b)"
proof -
  obtain d where d: "buf b = Some d" "bleft b \<le> bsize b" "bsize b \<le> length d" "adbuf_used b < length d"
    "d ! adbuf_used b = NUL" "adbuf_str b = take (adbuf_used b) d"
    using assms(1) by (rule adbuf_okE)
  consider "n = 0" | "n > 0" "n \<ge> adbuf_used b" | "n > 0" "n < adbuf_used b" by linarith
  then show ?thesis
  proof cases
    case 1
    with d assms(1) show ?thesis by (auto simp: adbuf_ltrim_def)
  next
    case 2
    with d assms(2) show ?thesis
      by (auto simp: adbuf_ltrim_def adbuf_reset_def adbuf_init_def adbuf_ok_def adbuf_str_def adbuf_used_def)
  next
    case 3
    with d assms(2) show ?thesis
      by (auto simp: adbuf_ltrim_def put_def adbuf_ok_def adbuf_str_def adbuf_used_def min_def nth_append
          drop_take Let_def)
  qed
qed

section \<open>Decimal output\<close>

text \<open>The value of a string of decimal digits.\<close>

definition digit_val :: "char \<Rightarrow> nat" where
  "digit_val c = of_char c - 48"

definition dec_val :: "string \<Rightarrow> nat" where
  "dec_val s = foldl (\<lambda>v c. 10 * v + digit_val c) 0 s"

lemma digit_val_digit: "digit_val (digit n) = n mod 10"
proof -
  have "(48 + n mod 10) mod 256 = 48 + n mod 10"
    using mod_less_divisor [of 10 n] by simp
  then show ?thesis by (simp add: digit_val_def digit_def)
qed

lemma digit_not_NUL: "digit n \<noteq> NUL"
proof
  assume "digit n = NUL"
  then have "of_char (digit n) = (0 :: nat)" by simp
  moreover have "(48 + n mod 10) mod 256 = 48 + n mod 10"
    using mod_less_divisor [of 10 n] by simp
  ultimately show False by (simp add: digit_def)
qed

lemma foldl_dec: "foldl (\<lambda>v c. 10 * v + digit_val c) a s = a * 10 ^ length s + dec_val s"
proof (induction s arbitrary: a)
  case (Cons c s)
  have "dec_val (c # s) = digit_val c * 10 ^ length s + dec_val s"
    using Cons [of "digit_val c"] by (simp add: dec_val_def)
  then show ?case using Cons [of "10 * a + digit_val c"] by (simp add: algebra_simps)
qed (simp add: dec_val_def)

lemma dec_val_Cons: "dec_val (c # s) = digit_val c * 10 ^ length s + dec_val s"
  using foldl_dec [of "digit_val c" s] by (simp add: dec_val_def)

text \<open>With room for all digits the loop prints the number; \<open>k\<close> is the room.\<close>

lemma itoa_loop_val:
  "l < 10 ^ k \<Longrightarrow> 0 < k \<Longrightarrow> dec_val (itoa_loop k l acc) = l * 10 ^ length acc + dec_val acc"
proof (induction k l acc rule: itoa_loop.induct)
  case (2 k l acc)
  show ?case
  proof (cases "l div 10 = 0")
    case True
    then have "l mod 10 = l" by simp
    with True show ?thesis by (simp add: dec_val_Cons digit_val_digit)
  next
    case False
    then have k: "0 < k" using "2.prems" by (cases k) auto
    have lt: "l div 10 < 10 ^ k" using "2.prems"(1) by (simp add: less_mult_imp_div_less)
    have "dec_val (itoa_loop (Suc k) l acc) = dec_val (itoa_loop k (l div 10) (digit l # acc))"
      using False by (simp add: Let_def)
    also have "\<dots> = l div 10 * 10 ^ length (digit l # acc) + dec_val (digit l # acc)"
      using "2.IH" [OF refl refl False lt k] .
    also have "\<dots> = l div 10 * 10 * 10 ^ length acc + l mod 10 * 10 ^ length acc + dec_val acc"
      by (simp add: dec_val_Cons digit_val_digit)
    also have "\<dots> = l * 10 ^ length acc + dec_val acc"
      by (simp only: flip: add_mult_distrib) (simp only: div_mult_mod_eq)
    finally show ?thesis .
  qed
qed simp

lemma itoa_loop_chars: "set (itoa_loop k l acc) \<subseteq> range digit \<union> set acc"
  by (induction k l acc rule: itoa_loop.induct) (auto simp: Let_def)

lemma cstr_id: "NUL \<notin> set s \<Longrightarrow> cstr s = s"
  unfolding cstr_def by (subst takeWhile_eq_all_conv) auto

lemma itoa_no_NUL: "NUL \<notin> set (itoa_loop k l [])"
  using itoa_loop_chars [of k l "[]"] digit_not_NUL by fastforce

section \<open>The interface its clients use\<close>

text \<open>
  What a producer of text relies on: appending extends the contents, trimming drops its
  end, and both keep the invariant.  \<open>append\<close> returns the buffer only: the producers of
  \<open>src/rapd.c\<close> ignore the status.
\<close>

locale text_buffer =
  fixes inv :: "'b \<Rightarrow> bool" and contents :: "'b \<Rightarrow> 'a list"
    and append :: "'a list \<Rightarrow> 'b \<Rightarrow> 'b option"
  assumes append_ok: "inv b \<Longrightarrow> \<exists>b'. append s b = Some b' \<and> inv b' \<and> contents b' = contents b @ s"
begin

lemma appends_ok:
  "inv b \<Longrightarrow> \<exists>b'. fold (\<lambda>s r. Option.bind r (append s)) ss (Some b) = Some b' \<and> inv b'
     \<and> contents b' = contents b @ concat ss"
proof (induction ss arbitrary: b)
  case Nil
  then show ?case by simp
next
  case (Cons s ss)
  obtain b1 where b1: "append s b = Some b1" "inv b1" "contents b1 = contents b @ s"
    using append_ok [OF Cons.prems, of s] by blast
  with Cons.IH [OF b1(2)] show ?case by auto
qed

end

definition adbuf_print :: "allocator \<Rightarrow> string \<Rightarrow> adbuf \<Rightarrow> adbuf option" where
  "adbuf_print al s b = map_option snd (adbuf_printf al b s)"

interpretation ab: text_buffer adbuf_ok adbuf_str "adbuf_print (\<lambda>_. True)"
proof
  show "adbuf_ok b \<Longrightarrow> \<exists>b'. adbuf_print (\<lambda>_. True) s b = Some b' \<and> adbuf_ok b' \<and> adbuf_str b' = adbuf_str b @ s" for b s
    using adbuf_printf_ok [of b "\<lambda>_. True" s] by (auto simp: adbuf_print_def)
qed

section \<open>Properties\<close>

text \<open>\<open>adbuf_add\<close> on a well-formed buffer never touches memory outside of the block,
  whatever the allocator answers; it keeps the invariant (the nul term included), appends exactly
  the data when it returns 0, and leaves the buffer as it was when it reports an error.\<close>

theorem adbuf_add_spec:
  assumes "adbuf_ok b"
  shows "\<exists>r b'. adbuf_add al b s = Some (r, b') \<and> adbuf_ok b'
     \<and> (r = 0 \<longrightarrow> adbuf_str b' = adbuf_str b @ s) \<and> (r \<noteq> 0 \<longrightarrow> b' = b)"
  using assms by (rule adbuf_add_total)

theorem adbuf_add_spec_witness:
  "adbuf_ok (adbuf_from_heapstring ''ab'') \<and>
   (\<exists>r b'. adbuf_add (\<lambda>n. n < 300) (adbuf_from_heapstring ''ab'') ''cd'' = Some (r, b') \<and> adbuf_ok b'
     \<and> (r = 0 \<longrightarrow> adbuf_str b' = adbuf_str (adbuf_from_heapstring ''ab'') @ ''cd'')
     \<and> (r \<noteq> 0 \<longrightarrow> b' = adbuf_from_heapstring ''ab''))"
  using adbuf_add_spec [OF from_heapstring_ok(1)] from_heapstring_ok(1) by blast

text \<open>\<open>adbuf_add_ulong\<close> appends a decimal numeral of the number, for every 64-bit value:
  the buffer of 32 characters is enough.\<close>

theorem adbuf_add_ulong_value:
  assumes "adbuf_ok b" and "\<forall>n. al n" and "l < 2 ^ 64"
  shows "\<exists>b' s. adbuf_add_ulong al b l = Some (0, b') \<and> adbuf_ok b' \<and> adbuf_str b' = adbuf_str b @ s
    \<and> dec_val s = l \<and> set s \<subseteq> range digit"
proof -
  let ?s = "itoa_loop (ADBUF_ITOABUFSZ - 1) l []"
  have "(2::nat) ^ 64 < 10 ^ (ADBUF_ITOABUFSZ - 1)" by (simp add: ADBUF_ITOABUFSZ_def)
  then have "l < 10 ^ (ADBUF_ITOABUFSZ - 1)" using assms(3) by linarith
  then have v: "dec_val ?s = l"
    using itoa_loop_val [of l "ADBUF_ITOABUFSZ - 1" "[]"] by (simp add: ADBUF_ITOABUFSZ_def dec_val_def)
  moreover have "set ?s \<subseteq> range digit" using itoa_loop_chars [of _ l "[]"] by auto
  ultimately show ?thesis
    using adbuf_add_ok [OF assms(1,2), of ?s]
    by (auto simp: adbuf_add_ulong_def adbuf_strcat_def cstr_id [OF itoa_no_NUL])
qed

theorem adbuf_add_ulong_value_witness:
  "adbuf_ok (adbuf_from_heapstring []) \<and> (18446744073709551615::nat) < 2 ^ 64 \<and>
   (\<exists>b' s. adbuf_add_ulong (\<lambda>_. True) (adbuf_from_heapstring []) 18446744073709551615 = Some (0, b') \<and> adbuf_ok b'
    \<and> adbuf_str b' = adbuf_str (adbuf_from_heapstring []) @ s
    \<and> dec_val s = 18446744073709551615 \<and> set s \<subseteq> range digit)"
  using adbuf_add_ulong_value [OF from_heapstring_ok(1) [of "[]"], of "\<lambda>_. True" 18446744073709551615]
    from_heapstring_ok(1) [of "[]"] by simp

text \<open>The buffer against its specification, a string: one constructor per operation.\<close>

datatype adbuf_op = Add string | Addchar int | Printf string | Cut nat | Ltrim nat | Rtrim nat | Reset

definition adbuf_exec :: "adbuf_op \<Rightarrow> adbuf \<Rightarrow> (nat \<times> adbuf) option" where
  "adbuf_exec op b = (case op of
     Add s \<Rightarrow> adbuf_add (\<lambda>_. True) b s
   | Addchar c \<Rightarrow> adbuf_addchar (\<lambda>_. True) b c
   | Printf s \<Rightarrow> adbuf_printf (\<lambda>_. True) b s
   | Cut n \<Rightarrow> adbuf_cut (\<lambda>_. True) b n
   | Ltrim n \<Rightarrow> adbuf_ltrim (\<lambda>_. True) b n
   | Rtrim n \<Rightarrow> adbuf_rtrim (\<lambda>_. True) b n
   | Reset \<Rightarrow> Some (adbuf_reset (\<lambda>_. True) b))"

fun adbuf_run :: "adbuf_op list \<Rightarrow> adbuf \<Rightarrow> adbuf option" where
  "adbuf_run [] b = Some b"
| "adbuf_run (op # ops) b = (case adbuf_exec op b of
     Some (r, b') \<Rightarrow> (if r = 0 then adbuf_run ops b' else None) | None \<Rightarrow> None)"

definition str_exec :: "adbuf_op \<Rightarrow> string \<Rightarrow> string" where
  "str_exec op s = (case op of
     Add t \<Rightarrow> s @ t
   | Addchar c \<Rightarrow> s @ [char_of c]
   | Printf t \<Rightarrow> s @ t
   | Cut n \<Rightarrow> take n s
   | Ltrim n \<Rightarrow> drop n s
   | Rtrim n \<Rightarrow> (if n \<le> length s then take (length s - n) s else s)
   | Reset \<Rightarrow> [])"

text \<open>A run in which every string and every trim count fits a \<open>size_t\<close>.\<close>

fun str_run :: "adbuf_op list \<Rightarrow> string \<Rightarrow> string option" where
  "str_run [] s = Some s"
| "str_run (op # ops) s =
     (if length s < 2 ^ 64 \<and> (case op of Rtrim n \<Rightarrow> n < 2 ^ 64 | _ \<Rightarrow> True)
      then str_run ops (str_exec op s) else None)"

lemma adbuf_rtrim_wraps:
  assumes "adbuf_ok b" "adbuf_used b < 2 ^ 64" "n < 2 ^ 64" "\<not> n \<le> adbuf_used b"
  shows "adbuf_rtrim al b n = Some (0, b)"
proof -
  have "(int (adbuf_used b) - int n) mod 2 ^ 64 = (int (adbuf_used b) - int n + 2 ^ 64) mod 2 ^ 64"
    by simp
  also have "\<dots> = int (adbuf_used b) - int n + 2 ^ 64"
    using assms by (intro mod_pos_pos_trivial) auto
  finally show ?thesis
    using assms by (auto simp: adbuf_rtrim_def adbuf_cut_def elim!: adbuf_okE)
qed

lemma adbuf_exec_ok:
  assumes "adbuf_ok b" "adbuf_used b < 2 ^ 64" "case op of Rtrim n \<Rightarrow> n < 2 ^ 64 | _ \<Rightarrow> True"
  shows "\<exists>b'. adbuf_exec op b = Some (0, b') \<and> adbuf_ok b' \<and> adbuf_str b' = str_exec op (adbuf_str b)"
proof (cases op)
  case (Rtrim n)
  show ?thesis
  proof (cases "n \<le> adbuf_used b")
    case True
    with Rtrim show ?thesis
      using adbuf_rtrim_ok [OF assms(1), of "\<lambda>_. True" n] assms(2)
      by (auto simp: adbuf_exec_def str_exec_def length_adbuf_str [OF assms(1)])
  next
    case False
    with Rtrim assms show ?thesis
      using adbuf_rtrim_wraps [OF assms(1,2) _ False]
      by (auto simp: adbuf_exec_def str_exec_def length_adbuf_str [OF assms(1)])
  qed
next
  case Reset
  then show ?thesis
    by (auto simp: adbuf_exec_def str_exec_def adbuf_reset_def adbuf_init_def adbuf_ok_def adbuf_str_def adbuf_used_def)
qed (use assms(1) adbuf_add_ok [of b "\<lambda>_. True"] adbuf_addchar_ok [of b "\<lambda>_. True"]
      adbuf_printf_ok [of b "\<lambda>_. True"] adbuf_cut_ok [of b "\<lambda>_. True"] adbuf_ltrim_ok [of b "\<lambda>_. True"]
    in \<open>auto simp: adbuf_exec_def str_exec_def\<close>)

text \<open>C5. Every sequence of buffer operations, trims larger than the contents included, is a
  sequence of operations on a string: no operation fails or leaves its block while memory lasts,
  and the contents are the specification's string.\<close>

theorem adbuf_refines_string:
  assumes "adbuf_ok b" and "str_run ops (adbuf_str b) = Some s"
  shows "\<exists>b'. adbuf_run ops b = Some b' \<and> adbuf_ok b' \<and> adbuf_str b' = s"
  using assms
proof (induction ops arbitrary: b)
  case Nil
  then show ?case by simp
next
  case (Cons op ops)
  then have "adbuf_used b < 2 ^ 64" "case op of Rtrim n \<Rightarrow> n < 2 ^ 64 | _ \<Rightarrow> True"
    and run: "str_run ops (str_exec op (adbuf_str b)) = Some s"
    by (auto simp: length_adbuf_str split: if_splits)
  then obtain b1 where "adbuf_exec op b = Some (0, b1)" "adbuf_ok b1" "adbuf_str b1 = str_exec op (adbuf_str b)"
    using adbuf_exec_ok Cons.prems(1) by blast
  with Cons.IH [of b1] run show ?case by simp
qed

theorem adbuf_refines_string_witness:
  "adbuf_ok (adbuf_from_heapstring ''ab'') \<and>
   str_run [Add ''cdef'', Rtrim 9, Rtrim 1, Ltrim 2] (adbuf_str (adbuf_from_heapstring ''ab'')) = Some ''cde'' \<and>
   (\<exists>b'. adbuf_run [Add ''cdef'', Rtrim 9, Rtrim 1, Ltrim 2] (adbuf_from_heapstring ''ab'') = Some b'
      \<and> adbuf_ok b' \<and> adbuf_str b' = ''cde'')"
proof -
  have run: "str_run [Add ''cdef'', Rtrim 9, Rtrim 1, Ltrim 2] (adbuf_str (adbuf_from_heapstring ''ab'')) = Some ''cde''"
    by (simp add: from_heapstring_ok(2) str_exec_def)
  show ?thesis
    using adbuf_refines_string [OF from_heapstring_ok(1) run] from_heapstring_ok(1) run by simp
qed

end
