(* ===== verification/Ars.thy ===== *)
theory Ars
  imports Prelude
begin

text \<open>
  The packet object of \<open>src/ars.h\<close> and the layer operations of \<open>src/ars.c\<close>.

  A packet holds 256 layers (\<open>p_layer\<close>, a function of the index); \<open>p_layer_nr\<close> are in use.  A
  layer has a type, a size in bytes, flags that say which fields the compiler must not touch, and
  its data block (\<open>None\<close> for \<open>NULL\<close>).  The header structures are kept as the bytes they have in
  memory and their fields are read and written at their offsets through the checked accesses of
  the prelude, so \<open>None\<close> as the result of an operation is an access outside of a block or
  through \<open>NULL\<close>.  \<open>l_packet\<close>, the pointer from a layer back to its packet, is not modelled.

  \<open>pkt_wf\<close> is the invariant: the layers in use come first, each block is at least as large as
  the layer's size and as the header structure of its type, and the unused layers are blank.
\<close>

section \<open>Types and constants\<close>

datatype ars_type =
    ARS_TYPE_NULL | ARS_TYPE_IP | ARS_TYPE_IPOPT | ARS_TYPE_ICMP | ARS_TYPE_UDP | ARS_TYPE_TCP
  | ARS_TYPE_TCPOPT | ARS_TYPE_IGRP | ARS_TYPE_IGRPENTRY | ARS_TYPE_IP6 | ARS_TYPE_ICMP6 | ARS_TYPE_DATA

datatype ars_code = ARS_OK | ARS_ERROR | ARS_NOSPACE | ARS_NOMEM | ARS_INVALID

abbreviation (input) ARS_MAX_LAYER :: nat where "ARS_MAX_LAYER \<equiv> 256"
abbreviation (input) ARS_ERR_BUFSZ :: nat where "ARS_ERR_BUFSZ \<equiv> 1024"

text \<open>\<open>sizeof\<close> of the header structures.\<close>

abbreviation (input) ARS_IPHDR_SIZE :: nat where "ARS_IPHDR_SIZE \<equiv> 20"
abbreviation (input) ARS_IP6HDR_SIZE :: nat where "ARS_IP6HDR_SIZE \<equiv> 40"
abbreviation (input) ARS_ICMPHDR_SIZE :: nat where "ARS_ICMPHDR_SIZE \<equiv> 8"
abbreviation (input) ARS_UDPHDR_SIZE :: nat where "ARS_UDPHDR_SIZE \<equiv> 8"
abbreviation (input) ARS_TCPHDR_SIZE :: nat where "ARS_TCPHDR_SIZE \<equiv> 20"
abbreviation (input) ARS_IGRPHDR_SIZE :: nat where "ARS_IGRPHDR_SIZE \<equiv> 12"
abbreviation (input) ARS_IGRPENTRY_SIZE :: nat where "ARS_IGRPENTRY_SIZE \<equiv> 14"

record ars_layer =
  l_type :: ars_type
  l_size :: nat
  l_flags :: u32
  l_data :: "bytes option"

record ars_packet =
  p_error :: "string option"
  p_layer_nr :: nat
  p_layer :: "nat \<Rightarrow> ars_layer"
  p_default :: "ars_type \<Rightarrow> bytes option"
  p_options :: u32
  aux :: nat
  aux_ipproto :: u8

definition null_layer :: ars_layer where
  "null_layer = \<lparr>l_type = ARS_TYPE_NULL, l_size = 0, l_flags = 0, l_data = None\<rparr>"

definition upd_layer :: "nat \<Rightarrow> (ars_layer \<Rightarrow> ars_layer) \<Rightarrow> ars_packet \<Rightarrow> ars_packet" where
  "upd_layer i f pkt = pkt\<lparr>p_layer := (p_layer pkt)(i := f (p_layer pkt i))\<rparr>"

definition set_data :: "nat \<Rightarrow> bytes \<Rightarrow> ars_packet \<Rightarrow> ars_packet" where
  "set_data i d pkt = upd_layer i (\<lambda>l. l\<lparr>l_data := Some d\<rparr>) pkt"

text \<open>\<open>ARS_TAKE\<close> and \<open>ARS_DONTTAKE\<close>.\<close>

definition ARS_TAKE :: "u32 \<Rightarrow> u32 \<Rightarrow> bool" where
  "ARS_TAKE f x \<longleftrightarrow> f AND x \<noteq> 0"

definition ARS_DONTTAKE :: "u32 \<Rightarrow> u32 \<Rightarrow> bool" where
  "ARS_DONTTAKE f x \<longleftrightarrow> f AND x = 0"

text \<open>Access to the data block of a layer.\<close>

definition rd :: "ars_packet \<Rightarrow> nat \<Rightarrow> nat \<Rightarrow> nat \<Rightarrow> bytes option" where
  "rd pkt i off n = (case l_data (p_layer pkt i) of None \<Rightarrow> None | Some d \<Rightarrow> ld d off n)"

definition rd8 :: "ars_packet \<Rightarrow> nat \<Rightarrow> nat \<Rightarrow> u8 option" where
  "rd8 pkt i off = (case l_data (p_layer pkt i) of None \<Rightarrow> None | Some d \<Rightarrow> ld8 d off)"

definition rd16 :: "ars_packet \<Rightarrow> nat \<Rightarrow> nat \<Rightarrow> u16 option" where
  "rd16 pkt i off = (case l_data (p_layer pkt i) of None \<Rightarrow> None | Some d \<Rightarrow> ld16 d off)"

definition rd32 :: "ars_packet \<Rightarrow> nat \<Rightarrow> nat \<Rightarrow> u32 option" where
  "rd32 pkt i off = (case l_data (p_layer pkt i) of None \<Rightarrow> None | Some d \<Rightarrow> ld32 d off)"

definition wr :: "nat \<Rightarrow> nat \<Rightarrow> bytes \<Rightarrow> ars_packet \<Rightarrow> ars_packet option" where
  "wr i off bs pkt = (case l_data (p_layer pkt i) of None \<Rightarrow> None
     | Some d \<Rightarrow> (case st d off bs of None \<Rightarrow> None
         | Some d' \<Rightarrow> Some (set_data i d' pkt)))"

definition wr8 :: "nat \<Rightarrow> nat \<Rightarrow> u8 \<Rightarrow> ars_packet \<Rightarrow> ars_packet option" where
  "wr8 i off b pkt = wr i off [b] pkt"

definition wr16 :: "nat \<Rightarrow> nat \<Rightarrow> u16 \<Rightarrow> ars_packet \<Rightarrow> ars_packet option" where
  "wr16 i off w pkt = wr i off (bytes16 w) pkt"

definition wr32 :: "nat \<Rightarrow> nat \<Rightarrow> u32 \<Rightarrow> ars_packet \<Rightarrow> ars_packet option" where
  "wr32 i off w pkt = wr i off (bytes32 w) pkt"

text \<open>Four-bit fields: the low and the high half of a byte (little endian bit fields).\<close>

definition set_lo :: "u8 \<Rightarrow> u8 \<Rightarrow> u8" where
  "set_lo b v = (b AND 0xf0) OR (v AND 0x0f)"

definition set_hi :: "u8 \<Rightarrow> u8 \<Rightarrow> u8" where
  "set_hi b v = (b AND 0x0f) OR push_bit 4 (v AND 0x0f)"

definition wr_lo :: "nat \<Rightarrow> nat \<Rightarrow> u8 \<Rightarrow> ars_packet \<Rightarrow> ars_packet option" where
  "wr_lo i off v pkt = do { b \<leftarrow> rd8 pkt i off; wr8 i off (set_lo b v) pkt }"

definition wr_hi :: "nat \<Rightarrow> nat \<Rightarrow> u8 \<Rightarrow> ars_packet \<Rightarrow> ars_packet option" where
  "wr_hi i off v pkt = do { b \<leftarrow> rd8 pkt i off; wr8 i off (set_hi b v) pkt }"

section \<open>Packet contexts\<close>

definition ars_init :: "ars_packet \<Rightarrow> ars_packet" where
  "ars_init pkt = pkt\<lparr>p_error := None, p_layer_nr := 0, p_options := 0,
     p_layer := (\<lambda>_. null_layer), p_default := (\<lambda>_. None)\<rparr>"

definition ars_destroy :: "ars_packet \<Rightarrow> ars_packet" where
  "ars_destroy pkt = ars_init pkt"

definition ars_error_nomem :: string where
  "ars_error_nomem = ''Out of memory''"

text \<open>The message is cut to the buffer; \<open>strdup\<close> may fail.\<close>

definition ars_set_error :: "allocator \<Rightarrow> string \<Rightarrow> ars_packet \<Rightarrow> ars_packet" where
  "ars_set_error al msg pkt =
     (let s = take (ARS_ERR_BUFSZ - 1) msg
      in pkt\<lparr>p_error := Some (if al (length s + 1) then s else ars_error_nomem)\<rparr>)"

definition ars_set_default :: "ars_packet \<Rightarrow> ars_type \<Rightarrow> bytes option \<Rightarrow> ars_packet" where
  "ars_set_default pkt t def = pkt\<lparr>p_default := (p_default pkt)(t := def)\<rparr>"

definition ars_nospace :: "ars_packet \<Rightarrow> bool" where
  "ars_nospace pkt \<longleftrightarrow> p_layer_nr pkt = ARS_MAX_LAYER"

definition ars_valid_layer :: "int \<Rightarrow> ars_code" where
  "ars_valid_layer layer = (if layer < 0 \<or> layer \<ge> int ARS_MAX_LAYER then ARS_INVALID else ARS_OK)"

section \<open>Adding layers\<close>

definition ars_add_generic :: "allocator \<Rightarrow> nat \<Rightarrow> ars_type \<Rightarrow> ars_packet \<Rightarrow> (ars_code \<times> ars_packet) option" where
  "ars_add_generic al sz t pkt =
     (if ars_nospace pkt then Some (ARS_NOSPACE, ars_set_error al ''No space for the next layer'' pkt)
      else let layer = p_layer_nr pkt in
        if sz \<noteq> 0 \<and> \<not> al sz then
          Some (ARS_NOMEM, ars_set_error al ''Out of memory adding a new layer''
                  (upd_layer layer (\<lambda>l. l\<lparr>l_data := None\<rparr>) pkt))
        else do {
          pkt \<leftarrow> (if sz = 0 then Some pkt
                 else do {
                   d \<leftarrow> (case p_default pkt t of None \<Rightarrow> Some (replicate sz 0) | Some def \<Rightarrow> ld def 0 sz);
                   Some (set_data layer d pkt)
                 });
          Some (ARS_OK, upd_layer layer (\<lambda>l. l\<lparr>l_type := t, l_size := sz\<rparr>) pkt)
        })"

text \<open>
  The \<open>ars_add_*\<close> functions return a pointer to the data of the new last layer, or \<open>NULL\<close>:
  here whether it is not \<open>NULL\<close>.  They all have this shape, with an initialisation \<open>f\<close> of
  the block of the given layer.
\<close>

definition add_layer ::
  "allocator \<Rightarrow> nat \<Rightarrow> ars_type \<Rightarrow> (nat \<Rightarrow> ars_packet \<Rightarrow> ars_packet option) \<Rightarrow> ars_packet
     \<Rightarrow> (bool \<times> ars_packet) option" where
  "add_layer al sz t f pkt = do {
     (retval, pkt) \<leftarrow> ars_add_generic al sz t pkt;
     if retval \<noteq> ARS_OK then Some (False, pkt)
     else do {
       pkt \<leftarrow> f (p_layer_nr pkt) pkt;
       Some (True, pkt\<lparr>p_layer_nr := p_layer_nr pkt + 1\<rparr>)
     }
   }"

definition ars_add_iphdr :: "allocator \<Rightarrow> ars_packet \<Rightarrow> (bool \<times> ars_packet) option" where
  "ars_add_iphdr al pkt = add_layer al ARS_IPHDR_SIZE ARS_TYPE_IP (\<lambda>_. Some) pkt"

definition ars_add_udphdr :: "allocator \<Rightarrow> ars_packet \<Rightarrow> (bool \<times> ars_packet) option" where
  "ars_add_udphdr al pkt = add_layer al ARS_UDPHDR_SIZE ARS_TYPE_UDP (\<lambda>_. Some) pkt"

definition ars_add_tcphdr :: "allocator \<Rightarrow> ars_packet \<Rightarrow> (bool \<times> ars_packet) option" where
  "ars_add_tcphdr al pkt = add_layer al ARS_TCPHDR_SIZE ARS_TYPE_TCP (\<lambda>_. Some) pkt"

text \<open>IP options: the kind is the value of the option byte.\<close>

definition ipopt_len :: "nat \<Rightarrow> nat option" where
  "ipopt_len option =
     (if option = 0 \<or> option = 1 then Some 1
      else if option = 0x82 then Some 11
      else if option = 0x88 then Some 4
      else if option = 0x83 \<or> option = 0x89 \<or> option = 7 \<or> option = 0x44 then Some 40
      else None)"

definition ars_add_ipopt :: "allocator \<Rightarrow> nat \<Rightarrow> ars_packet \<Rightarrow> (bool \<times> ars_packet) option" where
  "ars_add_ipopt al option pkt =
     (case ipopt_len option of None \<Rightarrow> Some (False, pkt)
      | Some opt_len \<Rightarrow> add_layer al opt_len ARS_TYPE_IPOPT (\<lambda>i pkt. do {
          pkt \<leftarrow> wr8 i 0 (of_nat option) pkt;
          if option = 0 \<or> option = 1 then Some pkt
          else do {
            pkt \<leftarrow> wr8 i 1 (of_nat opt_len) pkt;
            if option = 0x83 \<or> option = 0x89 \<or> option = 7 then do {
              pkt \<leftarrow> wr8 i 1 (of_nat (opt_len - 2 - 3)) pkt;
              wr8 i 2 4 pkt
            } else if option = 0x44 then do {
              pkt \<leftarrow> wr8 i 1 (of_nat (opt_len - 2 - 4)) pkt;
              pkt \<leftarrow> wr8 i 2 5 pkt;
              wr8 i 3 0 pkt
            } else Some pkt
          } }) pkt)"

definition tcpopt_len :: "nat \<Rightarrow> nat option" where
  "tcpopt_len option =
     (if option = 1 \<or> option = 0 then Some 1
      else if option = 2 then Some 4
      else if option = 3 then Some 3
      else if option = 4 then Some 2
      else if option = 5 then Some (8 * 4 + 2)
      else if option = 6 \<or> option = 7 then Some 6
      else if option = 8 then Some 10
      else None)"

definition ars_add_tcpopt :: "allocator \<Rightarrow> nat \<Rightarrow> ars_packet \<Rightarrow> (bool \<times> ars_packet) option" where
  "ars_add_tcpopt al option pkt =
     (case tcpopt_len option of None \<Rightarrow> Some (False, pkt)
      | Some opt_len \<Rightarrow> add_layer al opt_len ARS_TYPE_TCPOPT (\<lambda>i pkt. do {
          pkt \<leftarrow> wr8 i 0 (of_nat option) pkt;
          pkt \<leftarrow> (if option \<noteq> 0 \<and> option \<noteq> 1 then wr8 i 1 (of_nat opt_len) pkt else Some pkt);
          if option = 6 \<or> option = 7 then wr i 2 [0, 0, 0, 0] pkt
          else if option = 8 then do {
            pkt \<leftarrow> wr i 2 [0, 0, 0, 0] pkt;
            wr i 6 [0, 0, 0, 0] pkt
          } else Some pkt }) pkt)"

definition ars_add_icmphdr :: "allocator \<Rightarrow> ars_packet \<Rightarrow> (bool \<times> ars_packet) option" where
  "ars_add_icmphdr al pkt = add_layer al ARS_ICMPHDR_SIZE ARS_TYPE_ICMP (\<lambda>i pkt. do {
     pkt \<leftarrow> wr8 i 0 8 pkt;
     wr8 i 1 0 pkt }) pkt"

text \<open>\<open>ARS_IP6_SET\<close> and the accessors of the packed first word (host value \<open>w\<close>).\<close>

definition ip6_word :: "u32 \<Rightarrow> u32 \<Rightarrow> u32 \<Rightarrow> u32" where
  "ip6_word v tc fl = push_bit 28 (v AND 0xf) OR push_bit 20 (tc AND 0xff) OR (fl AND 0xfffff)"

definition ARS_IP6_VERSION :: "u32 \<Rightarrow> u32" where
  "ARS_IP6_VERSION w = drop_bit 28 w AND 0xf"

definition ARS_IP6_TCLASS :: "u32 \<Rightarrow> u32" where
  "ARS_IP6_TCLASS w = drop_bit 20 w AND 0xff"

definition ARS_IP6_FLOW :: "u32 \<Rightarrow> u32" where
  "ARS_IP6_FLOW w = w AND 0xfffff"

definition ars_add_ip6hdr :: "allocator \<Rightarrow> ars_packet \<Rightarrow> (bool \<times> ars_packet) option" where
  "ars_add_ip6hdr al pkt = add_layer al ARS_IP6HDR_SIZE ARS_TYPE_IP6 (\<lambda>i pkt. do {
     pkt \<leftarrow> wr32 i 0 (htonl (ip6_word 6 0 0)) pkt;
     wr8 i 7 64 pkt }) pkt"

definition ars_add_icmp6hdr :: "allocator \<Rightarrow> ars_packet \<Rightarrow> (bool \<times> ars_packet) option" where
  "ars_add_icmp6hdr al pkt = add_layer al ARS_ICMPHDR_SIZE ARS_TYPE_ICMP6 (\<lambda>i pkt. do {
     pkt \<leftarrow> wr8 i 0 128 pkt;
     wr8 i 1 0 pkt }) pkt"

definition ars_add_igrphdr :: "allocator \<Rightarrow> ars_packet \<Rightarrow> (bool \<times> ars_packet) option" where
  "ars_add_igrphdr al pkt = add_layer al ARS_IGRPHDR_SIZE ARS_TYPE_IGRP (\<lambda>i pkt. do {
     pkt \<leftarrow> wr_lo i 0 2 pkt;
     pkt \<leftarrow> wr_hi i 0 1 pkt;
     pkt \<leftarrow> wr8 i 1 0 pkt;
     pkt \<leftarrow> wr16 i 2 0 pkt;
     pkt \<leftarrow> wr16 i 4 0 pkt;
     pkt \<leftarrow> wr16 i 6 0 pkt;
     wr16 i 8 0 pkt }) pkt"

definition ars_add_igrpentry :: "allocator \<Rightarrow> ars_packet \<Rightarrow> (bool \<times> ars_packet) option" where
  "ars_add_igrpentry al pkt = add_layer al ARS_IGRPENTRY_SIZE ARS_TYPE_IGRPENTRY (\<lambda>_. Some) pkt"

definition ars_add_data :: "allocator \<Rightarrow> int \<Rightarrow> ars_packet \<Rightarrow> (bool \<times> ars_packet) option" where
  "ars_add_data al sz pkt =
     (if sz < 0 then Some (False, ars_set_error al ''Tryed to add a DATA layer with size < 0'' pkt)
      else add_layer al (nat sz) ARS_TYPE_DATA (\<lambda>_. Some) pkt)"

text \<open>The functions as they are stored in tables (\<open>ki_add\<close> of the description language).\<close>

datatype ars_add_fn = ADD_IPHDR | ADD_IPOPT | ADD_ICMPHDR | ADD_UDPHDR | ADD_TCPHDR | ADD_TCPOPT
  | ADD_IGRPHDR | ADD_IGRPENTRY | ADD_IP6HDR | ADD_ICMP6HDR | ADD_DATA

definition ars_add :: "allocator \<Rightarrow> ars_add_fn \<Rightarrow> nat \<Rightarrow> ars_packet \<Rightarrow> (bool \<times> ars_packet) option" where
  "ars_add al f opt pkt = (case f of
     ADD_IPHDR \<Rightarrow> ars_add_iphdr al pkt
   | ADD_IPOPT \<Rightarrow> ars_add_ipopt al opt pkt
   | ADD_ICMPHDR \<Rightarrow> ars_add_icmphdr al pkt
   | ADD_UDPHDR \<Rightarrow> ars_add_udphdr al pkt
   | ADD_TCPHDR \<Rightarrow> ars_add_tcphdr al pkt
   | ADD_TCPOPT \<Rightarrow> ars_add_tcpopt al opt pkt
   | ADD_IGRPHDR \<Rightarrow> ars_add_igrphdr al pkt
   | ADD_IGRPENTRY \<Rightarrow> ars_add_igrpentry al pkt
   | ADD_IP6HDR \<Rightarrow> ars_add_ip6hdr al pkt
   | ADD_ICMP6HDR \<Rightarrow> ars_add_icmp6hdr al pkt
   | ADD_DATA \<Rightarrow> ars_add_data al (int opt) pkt)"

section \<open>Layers of a packet\<close>

text \<open>\<open>ARS_LAST_LAYER\<close> is -1.\<close>

definition ars_last :: "ars_packet \<Rightarrow> int \<Rightarrow> int" where
  "ars_last pkt layer = (if layer = -1 then int (p_layer_nr pkt) - 1 else layer)"

definition ars_remove_layer :: "ars_packet \<Rightarrow> int \<Rightarrow> ars_code \<times> ars_packet" where
  "ars_remove_layer pkt layer =
     (let layer = ars_last pkt layer in
      if ars_valid_layer layer \<noteq> ARS_OK then (ARS_INVALID, pkt)
      else (ARS_OK, upd_layer (nat layer) (\<lambda>_. null_layer) pkt))"

definition ars_set_flags :: "allocator \<Rightarrow> ars_packet \<Rightarrow> int \<Rightarrow> u32 \<Rightarrow> ars_code \<times> ars_packet" where
  "ars_set_flags al pkt layer flags =
     (let layer = ars_last pkt layer in
      if layer < 0 \<or> layer \<ge> int ARS_MAX_LAYER
      then (ARS_INVALID, ars_set_error al ''Invalid layer setting layer flags'' pkt)
      else (ARS_OK, upd_layer (nat layer) (\<lambda>l. l\<lparr>l_flags := flags\<rparr>) pkt))"

text \<open>The layers from \<open>j\<close> on while the type satisfies \<open>P\<close>: the loop
  \<open>for (j = ...; j < ARS_MAX_LAYER && P(type); j++)\<close> of many functions.\<close>

function span_layers :: "(ars_type \<Rightarrow> bool) \<Rightarrow> ars_packet \<Rightarrow> nat \<Rightarrow> ars_layer list" where
  "span_layers P pkt j =
     (if j < ARS_MAX_LAYER \<and> P (l_type (p_layer pkt j))
      then p_layer pkt j # span_layers P pkt (Suc j) else [])"
  by pat_completeness auto
termination
  by (relation "measure (\<lambda>(P, pkt, j). ARS_MAX_LAYER - j)") auto

declare span_layers.simps [simp del]

definition ars_relative_size :: "ars_packet \<Rightarrow> nat \<Rightarrow> nat" where
  "ars_relative_size pkt layer_nr =
     sum_list (map l_size (span_layers (\<lambda>t. t \<noteq> ARS_TYPE_NULL) pkt layer_nr))"

definition ars_packet_size :: "ars_packet \<Rightarrow> nat" where
  "ars_packet_size pkt = ars_relative_size pkt 0"

text \<open>The \<open>l_size\<close> bytes at \<open>l_data\<close>; with size 0 the pointer is not followed.\<close>

definition layer_bytes :: "ars_layer \<Rightarrow> bytes option" where
  "layer_bytes l = (if l_size l = 0 then Some []
     else case l_data l of None \<Rightarrow> None | Some d \<Rightarrow> ld d 0 (l_size l))"

section \<open>The invariant\<close>

definition hdr_min :: "ars_type \<Rightarrow> nat" where
  "hdr_min t = (case t of
     ARS_TYPE_NULL \<Rightarrow> 0 | ARS_TYPE_IP \<Rightarrow> 20 | ARS_TYPE_IPOPT \<Rightarrow> 1 | ARS_TYPE_ICMP \<Rightarrow> 8
   | ARS_TYPE_UDP \<Rightarrow> 8 | ARS_TYPE_TCP \<Rightarrow> 20 | ARS_TYPE_TCPOPT \<Rightarrow> 1 | ARS_TYPE_IGRP \<Rightarrow> 12
   | ARS_TYPE_IGRPENTRY \<Rightarrow> 14 | ARS_TYPE_IP6 \<Rightarrow> 40 | ARS_TYPE_ICMP6 \<Rightarrow> 8 | ARS_TYPE_DATA \<Rightarrow> 0)"

definition layer_len :: "ars_layer \<Rightarrow> nat" where
  "layer_len l = (case l_data l of None \<Rightarrow> 0 | Some d \<Rightarrow> length d)"

definition layer_wf :: "ars_layer \<Rightarrow> bool" where
  "layer_wf l \<longleftrightarrow> l_type l \<noteq> ARS_TYPE_NULL \<and> l_size l \<le> layer_len l \<and> hdr_min (l_type l) \<le> layer_len l"

definition pkt_wf :: "ars_packet \<Rightarrow> bool" where
  "pkt_wf pkt \<longleftrightarrow> p_layer_nr pkt \<le> ARS_MAX_LAYER \<and> p_default pkt = (\<lambda>_. None)
     \<and> (\<forall>j < p_layer_nr pkt. layer_wf (p_layer pkt j))
     \<and> (\<forall>j \<ge> p_layer_nr pkt. p_layer pkt j = null_layer)"

section \<open>Basic facts\<close>

lemma upd_layer_fields [simp]:
  "p_layer (upd_layer i f pkt) = (p_layer pkt)(i := f (p_layer pkt i))"
  "p_layer_nr (upd_layer i f pkt) = p_layer_nr pkt"
  "p_default (upd_layer i f pkt) = p_default pkt"
  "p_error (upd_layer i f pkt) = p_error pkt"
  "p_options (upd_layer i f pkt) = p_options pkt"
  "aux (upd_layer i f pkt) = aux pkt"
  "aux_ipproto (upd_layer i f pkt) = aux_ipproto pkt"
  by (simp_all add: upd_layer_def)

lemma set_data_fields [simp]:
  "p_layer (set_data i d pkt) = (p_layer pkt)(i := (p_layer pkt i)\<lparr>l_data := Some d\<rparr>)"
  "p_layer_nr (set_data i d pkt) = p_layer_nr pkt"
  "p_default (set_data i d pkt) = p_default pkt"
  "p_error (set_data i d pkt) = p_error pkt"
  "p_options (set_data i d pkt) = p_options pkt"
  "aux (set_data i d pkt) = aux pkt"
  "aux_ipproto (set_data i d pkt) = aux_ipproto pkt"
  by (simp_all add: set_data_def)

lemma set_error_fields [simp]:
  "p_layer (ars_set_error al msg pkt) = p_layer pkt"
  "p_layer_nr (ars_set_error al msg pkt) = p_layer_nr pkt"
  "p_default (ars_set_error al msg pkt) = p_default pkt"
  "p_options (ars_set_error al msg pkt) = p_options pkt"
  "aux (ars_set_error al msg pkt) = aux pkt"
  "aux_ipproto (ars_set_error al msg pkt) = aux_ipproto pkt"
  by (simp_all add: ars_set_error_def Let_def)

lemma set_data_set_data [simp]: "set_data i d (set_data i e pkt) = set_data i d pkt"
  by (simp add: set_data_def upd_layer_def fun_upd_def cong: if_cong)

lemma set_data_same: "l_data (p_layer pkt i) = Some d \<Longrightarrow> set_data i d pkt = pkt"
  by (simp add: set_data_def upd_layer_def fun_upd_idem)

lemma layer_len_set_data [simp]: "layer_len (l\<lparr>l_data := Some d\<rparr>) = length d"
  by (simp add: layer_len_def)

lemma null_layer_type [simp]: "l_type null_layer = ARS_TYPE_NULL" "l_size null_layer = 0"
  "l_data null_layer = None" "l_flags null_layer = 0"
  by (simp_all add: null_layer_def)

text \<open>
  An edit of the block of layer \<open>i\<close>, when it has \<open>n\<close> bytes: the function does not leave the
  block, keeps its length and changes nothing else.
\<close>

definition edits :: "nat \<Rightarrow> nat \<Rightarrow> (ars_packet \<Rightarrow> ars_packet option) \<Rightarrow> bool" where
  "edits i n f \<longleftrightarrow> (\<forall>pkt d. l_data (p_layer pkt i) = Some d \<and> length d = n \<longrightarrow>
     (\<exists>d'. length d' = n \<and> f pkt = Some (set_data i d' pkt)))"

named_theorems edit_intros "composition of edits"

lemma editsI:
  assumes "\<And>pkt d. l_data (p_layer pkt i) = Some d \<Longrightarrow> length d = n \<Longrightarrow>
    length (g pkt d) = n \<and> f pkt = Some (set_data i (g pkt d) pkt)"
  shows "edits i n f"
  using assms by (auto simp: edits_def)

lemma edits_Some [edit_intros]: "edits i n Some"
  by (rule editsI [where g = "\<lambda>pkt d. d"]) (simp add: set_data_same)

lemma edits_wr [edit_intros]: "off + length bs \<le> n \<Longrightarrow> edits i n (wr i off bs)"
  by (rule editsI [where g = "\<lambda>pkt d. take off d @ bs @ drop (off + length bs) d"])
    (simp add: wr_def st_eq_Some)

lemma edits_wr8 [edit_intros]: "off < n \<Longrightarrow> edits i n (wr8 i off b)"
  using edits_wr [of off "[b]" n i] by (simp add: wr8_def edits_def)

lemma edits_wr16 [edit_intros]: "off + 2 \<le> n \<Longrightarrow> edits i n (wr16 i off w)"
  using edits_wr [of off "bytes16 w" n i] by (simp add: wr16_def edits_def)

lemma edits_wr32 [edit_intros]: "off + 4 \<le> n \<Longrightarrow> edits i n (wr32 i off w)"
  using edits_wr [of off "bytes32 w" n i] by (simp add: wr32_def edits_def)

lemma edits_bind [edit_intros]: "edits i n f \<Longrightarrow> edits i n g \<Longrightarrow> edits i n (\<lambda>p. Option.bind (f p) g)"
  unfolding edits_def
proof (intro allI impI)
  fix pkt :: ars_packet and d
  assume f: "\<forall>pkt d. l_data (p_layer pkt i) = Some d \<and> length d = n \<longrightarrow>
      (\<exists>d'. length d' = n \<and> f pkt = Some (set_data i d' pkt))"
    and g: "\<forall>pkt d. l_data (p_layer pkt i) = Some d \<and> length d = n \<longrightarrow>
      (\<exists>d'. length d' = n \<and> g pkt = Some (set_data i d' pkt))"
    and d: "l_data (p_layer pkt i) = Some d \<and> length d = n"
  obtain e where e: "length e = n" "f pkt = Some (set_data i e pkt)" using f d by blast
  then obtain d' where "length d' = n" "g (set_data i e pkt) = Some (set_data i d' (set_data i e pkt))"
    using g [rule_format, of "set_data i e pkt" e] by auto
  with e show "\<exists>d'. length d' = n \<and> Option.bind (f pkt) g = Some (set_data i d' pkt)" by auto
qed

lemma edits_if [edit_intros]: "(b \<Longrightarrow> edits i n f) \<Longrightarrow> (\<not> b \<Longrightarrow> edits i n g) \<Longrightarrow> edits i n (\<lambda>p. if b then f p else g p)"
  by (cases b) simp_all

lemma edits_wr_lo [edit_intros]: "off < n \<Longrightarrow> edits i n (wr_lo i off v)"
  by (rule editsI [where g = "\<lambda>pkt d. take off d @ [set_lo (d ! off) v] @ drop (Suc off) d"])
    (simp add: wr_lo_def rd8_def ld8_def wr8_def wr_def st_eq_Some)

lemma edits_wr_hi [edit_intros]: "off < n \<Longrightarrow> edits i n (wr_hi i off v)"
  by (rule editsI [where g = "\<lambda>pkt d. take off d @ [set_hi (d ! off) v] @ drop (Suc off) d"])
    (simp add: wr_hi_def rd8_def ld8_def wr8_def wr_def st_eq_Some)

lemma edits_wf:
  assumes "edits i n f" "pkt_wf pkt" "i < p_layer_nr pkt" "layer_len (p_layer pkt i) = n" "0 < n"
  shows "\<exists>d. f pkt = Some (set_data i d pkt) \<and> length d = n \<and> pkt_wf (set_data i d pkt)"
proof -
  obtain e where "l_data (p_layer pkt i) = Some e" "length e = n"
    using assms(4,5) by (auto simp: layer_len_def split: option.splits)
  then obtain d where d: "length d = n" "f pkt = Some (set_data i d pkt)"
    using assms(1) by (auto simp: edits_def)
  moreover have "pkt_wf (set_data i d pkt)"
    using assms(2,3,4) d(1) by (auto simp: pkt_wf_def layer_wf_def)
  ultimately show ?thesis by blast
qed

section \<open>Adding layers keeps the invariant\<close>

lemma pkt_wf_init: "pkt_wf (ars_init pkt)"
  by (simp add: pkt_wf_def ars_init_def)

lemma pkt_wf_set_error [simp]: "pkt_wf (ars_set_error al msg pkt) = pkt_wf pkt"
  by (simp add: pkt_wf_def)

lemma pkt_wf_below: "pkt_wf pkt \<Longrightarrow> j < p_layer_nr pkt \<Longrightarrow> layer_wf (p_layer pkt j)"
  by (simp add: pkt_wf_def)

lemma pkt_wf_above: "pkt_wf pkt \<Longrightarrow> p_layer_nr pkt \<le> j \<Longrightarrow> p_layer pkt j = null_layer"
  by (simp add: pkt_wf_def)

text \<open>What one \<open>ars_add_*\<close> call may do: add one layer of the given type and size at the end, or
  report failure and leave the layers alone.\<close>

definition adds_layer :: "ars_type \<Rightarrow> nat \<Rightarrow> ars_packet \<Rightarrow> (bool \<times> ars_packet) option \<Rightarrow> bool" where
  "adds_layer t sz pkt res \<longleftrightarrow> (\<exists>r pkt'. res = Some (r, pkt') \<and> pkt_wf pkt' \<and>
     (if r then \<exists>d. length d = sz \<and> p_layer_nr pkt' = p_layer_nr pkt + 1 \<and> p_layer_nr pkt < ARS_MAX_LAYER \<and>
        p_layer pkt' = (p_layer pkt)(p_layer_nr pkt :=
          \<lparr>l_type = t, l_size = sz, l_flags = 0, l_data = (if sz = 0 then None else Some d)\<rparr>)
      else p_layer_nr pkt' = p_layer_nr pkt \<and> p_layer pkt' = p_layer pkt))"

lemma add_generic_cases:
  assumes "pkt_wf pkt" "t \<noteq> ARS_TYPE_NULL"
  obtains
    (full) "p_layer_nr pkt = ARS_MAX_LAYER"
      "ars_add_generic al sz t pkt = Some (ARS_NOSPACE, ars_set_error al ''No space for the next layer'' pkt)"
  | (nomem) "sz \<noteq> 0" "\<not> al sz" "p_layer_nr pkt < ARS_MAX_LAYER"
      "ars_add_generic al sz t pkt = Some (ARS_NOMEM, ars_set_error al ''Out of memory adding a new layer'' pkt)"
  | (ok) "p_layer_nr pkt < ARS_MAX_LAYER" "sz = 0 \<or> al sz"
      "ars_add_generic al sz t pkt = Some (ARS_OK, pkt\<lparr>p_layer := (p_layer pkt)(p_layer_nr pkt :=
          \<lparr>l_type = t, l_size = sz, l_flags = 0, l_data = (if sz = 0 then None else Some (replicate sz 0))\<rparr>)\<rparr>)"
proof -
  have blank: "p_layer pkt (p_layer_nr pkt) = null_layer" using assms(1) by (simp add: pkt_wf_def)
  have nr: "p_layer_nr pkt \<le> ARS_MAX_LAYER" and def: "p_default pkt t = None"
    using assms(1) by (simp_all add: pkt_wf_def)
  have drop_null: "upd_layer (p_layer_nr pkt) (\<lambda>l. l\<lparr>l_data := None\<rparr>) pkt = pkt"
    using blank by (simp add: upd_layer_def null_layer_def fun_upd_idem)
  consider "p_layer_nr pkt = ARS_MAX_LAYER"
    | "p_layer_nr pkt < ARS_MAX_LAYER" "sz \<noteq> 0" "\<not> al sz"
    | "p_layer_nr pkt < ARS_MAX_LAYER" "sz = 0 \<or> al sz" using nr by linarith
  then show thesis
  proof cases
    case 1
    then show thesis by (intro full) (simp_all add: ars_add_generic_def ars_nospace_def)
  next
    case 2
    then show thesis
      by (intro nomem) (simp_all add: ars_add_generic_def ars_nospace_def Let_def drop_null)
  next
    case 3
    then show thesis
      by (intro ok) (auto simp: ars_add_generic_def ars_nospace_def Let_def def set_data_def
          upd_layer_def blank null_layer_def)
  qed
qed

lemma add_layer_adds:
  assumes "pkt_wf pkt" "t \<noteq> ARS_TYPE_NULL" "hdr_min t \<le> sz" "sz \<noteq> 0 \<and> edits (p_layer_nr pkt) sz (f (p_layer_nr pkt)) \<or> f (p_layer_nr pkt) = Some"
  shows "adds_layer t sz pkt (add_layer al sz t f pkt)"
proof (rule add_generic_cases [OF assms(1,2), where al = al and sz = sz], goal_cases full nomem ok)
  case full
  then show ?case using assms(1) by (auto simp: add_layer_def adds_layer_def intro!: exI [of _ False])
next
  case nomem
  then show ?case using assms(1) by (auto simp: add_layer_def adds_layer_def intro!: exI [of _ False])
next
  case ok
  let ?n = "p_layer_nr pkt"
  let ?l = "\<lambda>d. \<lparr>l_type = t, l_size = sz, l_flags = 0, l_data = (if sz = 0 then None else Some d)\<rparr>"
  let ?p = "\<lambda>d. pkt\<lparr>p_layer := (p_layer pkt)(?n := ?l d)\<rparr>"
  have "\<exists>d. length d = sz \<and> f ?n (?p (replicate sz 0)) = Some (?p d)"
  proof (cases "f ?n = Some")
    case True
    then show ?thesis by (auto intro!: exI [of _ "replicate sz 0"])
  next
    case False
    with assms(4) have e: "edits ?n sz (f ?n)" and nz: "sz \<noteq> 0" by simp_all
    then obtain d where "length d = sz" "f ?n (?p (replicate sz 0)) = Some (set_data ?n d (?p (replicate sz 0)))"
        using e [unfolded edits_def, rule_format, of "?p (replicate sz 0)" "replicate sz 0"] by auto
    with nz show ?thesis by (auto simp: set_data_def upd_layer_def)
  qed
  then obtain d where d: "length d = sz" "f ?n (?p (replicate sz 0)) = Some (?p d)" by blast
  have "pkt_wf (?p d\<lparr>p_layer_nr := ?n + 1\<rparr>)"
    using assms(1,2,3) ok(1) d(1) by (auto simp: pkt_wf_def layer_wf_def layer_len_def less_Suc_eq)
  with ok d show ?case by (auto simp: add_layer_def adds_layer_def)
qed

lemma add_iphdr_adds: "pkt_wf pkt \<Longrightarrow> adds_layer ARS_TYPE_IP 20 pkt (ars_add_iphdr al pkt)"
  unfolding ars_add_iphdr_def by (rule add_layer_adds) (simp_all add: hdr_min_def)

lemma add_udphdr_adds: "pkt_wf pkt \<Longrightarrow> adds_layer ARS_TYPE_UDP 8 pkt (ars_add_udphdr al pkt)"
  unfolding ars_add_udphdr_def by (rule add_layer_adds) (simp_all add: hdr_min_def)

lemma add_tcphdr_adds: "pkt_wf pkt \<Longrightarrow> adds_layer ARS_TYPE_TCP 20 pkt (ars_add_tcphdr al pkt)"
  unfolding ars_add_tcphdr_def by (rule add_layer_adds) (simp_all add: hdr_min_def)

lemma add_icmphdr_adds: "pkt_wf pkt \<Longrightarrow> adds_layer ARS_TYPE_ICMP 8 pkt (ars_add_icmphdr al pkt)"
  unfolding ars_add_icmphdr_def
  by (rule add_layer_adds) (auto simp: hdr_min_def intro!: edit_intros)

lemma add_icmp6hdr_adds: "pkt_wf pkt \<Longrightarrow> adds_layer ARS_TYPE_ICMP6 8 pkt (ars_add_icmp6hdr al pkt)"
  unfolding ars_add_icmp6hdr_def
  by (rule add_layer_adds) (auto simp: hdr_min_def intro!: edit_intros)

lemma add_ip6hdr_adds: "pkt_wf pkt \<Longrightarrow> adds_layer ARS_TYPE_IP6 40 pkt (ars_add_ip6hdr al pkt)"
  unfolding ars_add_ip6hdr_def
  by (rule add_layer_adds) (auto simp: hdr_min_def intro!: edit_intros)

lemma add_igrphdr_adds: "pkt_wf pkt \<Longrightarrow> adds_layer ARS_TYPE_IGRP 12 pkt (ars_add_igrphdr al pkt)"
  unfolding ars_add_igrphdr_def
  by (rule add_layer_adds) (auto simp: hdr_min_def intro!: edit_intros)

lemma add_igrpentry_adds: "pkt_wf pkt \<Longrightarrow> adds_layer ARS_TYPE_IGRPENTRY 14 pkt (ars_add_igrpentry al pkt)"
  unfolding ars_add_igrpentry_def by (rule add_layer_adds) (simp_all add: hdr_min_def)

lemma adds_layer_failed: "pkt_wf pkt \<Longrightarrow> adds_layer t n pkt (Some (False, pkt))"
  by (auto simp: adds_layer_def intro!: exI [of _ False])

lemma add_data_adds: "pkt_wf pkt \<Longrightarrow> adds_layer ARS_TYPE_DATA (nat sz) pkt (ars_add_data al sz pkt)"
  by (auto simp: ars_add_data_def adds_layer_def [of _ _ _ "Some _"] intro!: exI [of _ False] add_layer_adds)
    (auto simp: hdr_min_def)

lemma add_ipopt_adds:
  assumes "pkt_wf pkt"
  shows "\<exists>n. adds_layer ARS_TYPE_IPOPT n pkt (ars_add_ipopt al opt pkt)"
proof (cases "ipopt_len opt")
  case None
  with assms show ?thesis by (auto simp: ars_add_ipopt_def intro!: adds_layer_failed)
next
  case (Some n)
  then have "1 \<le> n" "opt \<noteq> 0 \<and> opt \<noteq> 1 \<Longrightarrow> 4 \<le> n" by (auto simp: ipopt_len_def split: if_splits)
  with Some assms have "adds_layer ARS_TYPE_IPOPT n pkt (ars_add_ipopt al opt pkt)"
    unfolding ars_add_ipopt_def option.case Some
    by (intro add_layer_adds) (auto simp: hdr_min_def intro!: edit_intros)
  then show ?thesis ..
qed

lemma add_tcpopt_adds:
  assumes "pkt_wf pkt"
  shows "\<exists>n. adds_layer ARS_TYPE_TCPOPT n pkt (ars_add_tcpopt al opt pkt)"
proof (cases "tcpopt_len opt")
  case None
  with assms show ?thesis by (auto simp: ars_add_tcpopt_def intro!: adds_layer_failed)
next
  case (Some n)
  then have "1 \<le> n" "opt \<noteq> 0 \<and> opt \<noteq> 1 \<Longrightarrow> 2 \<le> n" "opt = 6 \<or> opt = 7 \<Longrightarrow> 6 \<le> n" "opt = 8 \<Longrightarrow> 10 \<le> n"
    by (auto simp: tcpopt_len_def split: if_splits)
  with Some assms have "adds_layer ARS_TYPE_TCPOPT n pkt (ars_add_tcpopt al opt pkt)"
    unfolding ars_add_tcpopt_def option.case Some
    by (intro add_layer_adds) (auto simp: hdr_min_def intro!: edit_intros)
  then show ?thesis ..
qed

section \<open>Sizes and spans\<close>

lemma span_layers_live:
  assumes "pkt_wf pkt" "j \<le> p_layer_nr pkt"
  shows "span_layers (\<lambda>t. t \<noteq> ARS_TYPE_NULL) pkt j = map (p_layer pkt) [j..<p_layer_nr pkt]"
  using assms(2)
proof (induction "p_layer_nr pkt - j" arbitrary: j)
  case 0
  then have "l_type (p_layer pkt j) = ARS_TYPE_NULL" using assms(1) by (simp add: pkt_wf_def)
  with 0 show ?case by (simp add: span_layers.simps [of _ pkt j])
next
  case (Suc n)
  then have j: "j < p_layer_nr pkt" by simp
  then have "l_type (p_layer pkt j) \<noteq> ARS_TYPE_NULL" "j < ARS_MAX_LAYER"
    using assms(1) by (auto simp: pkt_wf_def layer_wf_def)
  with Suc j show ?case by (simp add: span_layers.simps [of _ pkt j] upt_conv_Cons)
qed

lemma span_layers_cong:
  "(\<And>k. j \<le> k \<Longrightarrow> p_layer q k = p_layer p k) \<Longrightarrow> span_layers P q j = span_layers P p j"
proof (induction P p j rule: span_layers.induct)
  case (1 P p j)
  show ?case
    using 1 by (simp add: span_layers.simps [of P p j] span_layers.simps [of P q j])
qed

lemma span_sizes_cong:
  "(\<And>k. l_type (p_layer q k) = l_type (p_layer p k) \<and> l_size (p_layer q k) = l_size (p_layer p k)) \<Longrightarrow>
     map l_size (span_layers P q j) = map l_size (span_layers P p j)"
proof (induction P p j rule: span_layers.induct)
  case (1 P p j)
  show ?case
    using 1 by (simp add: span_layers.simps [of P p j] span_layers.simps [of P q j])
qed

text \<open>Every span of a well-formed packet consists of layers in use.\<close>

lemma span_layers_wf:
  assumes "pkt_wf pkt" "\<not> P ARS_TYPE_NULL" "l \<in> set (span_layers P pkt j)"
  shows "layer_wf l"
  using assms
proof (induction P pkt j rule: span_layers.induct)
  case (1 P pkt j)
  show ?case
  proof (cases "j < ARS_MAX_LAYER \<and> P (l_type (p_layer pkt j))")
    case True
    have "j < p_layer_nr pkt"
    proof (rule ccontr)
      assume "\<not> j < p_layer_nr pkt"
      then have "p_layer pkt j = null_layer" using "1.prems"(1) by (simp add: pkt_wf_def)
      with True "1.prems"(2) show False by simp
    qed
    then have "layer_wf (p_layer pkt j)" using "1.prems"(1) by (simp add: pkt_wf_def)
    moreover have "l = p_layer pkt j \<or> l \<in> set (span_layers P pkt (Suc j))"
      using "1.prems"(3) True by (simp add: span_layers.simps [of P pkt j])
    ultimately show ?thesis using "1.IH" [OF True "1.prems"(1,2)] by blast
  next
    case False
    with "1.prems"(3) show ?thesis by (simp add: span_layers.simps [of P pkt j])
  qed
qed

lemma layer_bytes_wf:
  "layer_wf l \<Longrightarrow> \<exists>d. l_data l = Some d \<and> layer_bytes l = Some (take (l_size l) d) \<or> l_data l = None \<and> l_size l = 0 \<and> layer_bytes l = Some []"
  by (auto simp: layer_wf_def layer_len_def layer_bytes_def ld_def split: option.splits)

lemma ars_add_adds:
  assumes "pkt_wf pkt"
  shows "\<exists>t n. adds_layer t n pkt (ars_add al f opt pkt)"
proof -
  note adds = add_iphdr_adds [OF assms, of al] add_icmphdr_adds [OF assms, of al] add_udphdr_adds [OF assms, of al] add_tcphdr_adds [OF assms, of al] add_igrphdr_adds [OF assms, of al] add_igrpentry_adds [OF assms, of al] add_ip6hdr_adds [OF assms, of al] add_icmp6hdr_adds [OF assms, of al]
  show ?thesis
    using adds add_ipopt_adds [OF assms, of al opt] add_tcpopt_adds [OF assms, of al opt] add_data_adds [OF assms, of "int opt" al]
    unfolding ars_add_def by (cases f) (simp_all only: ars_add_fn.case, blast+)
qed

fun adds_run :: "allocator \<Rightarrow> (ars_add_fn \<times> nat) list \<Rightarrow> ars_packet \<Rightarrow> (bool list \<times> ars_packet) option" where
  "adds_run al [] pkt = Some ([], pkt)"
| "adds_run al ((f, opt) # ops) pkt = do {
     (r, pkt) \<leftarrow> ars_add al f opt pkt;
     (rs, pkt) \<leftarrow> adds_run al ops pkt;
     Some (r # rs, pkt)
   }"

lemma adds_run_grows:
  "pkt_wf p \<Longrightarrow> \<exists>rs q. adds_run al ops p = Some (rs, q) \<and> pkt_wf q
     \<and> p_layer_nr q = p_layer_nr p + length (filter (\<lambda>r. r) rs) \<and> (\<forall>k < p_layer_nr p. p_layer q k = p_layer p k)"
proof (induction ops arbitrary: p)
  case (Cons op ops)
  obtain f opt where op: "op = (f, opt)" by fastforce
  obtain r a where a: "ars_add al f opt p = Some (r, a)" "pkt_wf a" "p_layer_nr a = p_layer_nr p + (if r then 1 else 0)"
    "\<forall>k < p_layer_nr p. p_layer a k = p_layer p k"
    using ars_add_adds [OF Cons.prems, of al f opt] by (fastforce simp: adds_layer_def split: if_splits)
  obtain rs q where q: "adds_run al ops a = Some (rs, q)" "pkt_wf q" "p_layer_nr q = p_layer_nr a + length (filter (\<lambda>r. r) rs)"
    "\<forall>k < p_layer_nr a. p_layer q k = p_layer a k"
    using Cons.IH [OF a(2)] by blast
  with a show ?case by (cases r) (auto simp: op)
qed simp

section \<open>Properties\<close>

text \<open>C16. Building a packet layer by layer: from any initialised context (and from any well-formed
  packet) every sequence of \<open>ars_add_*\<close> calls, with any options and under any memory behaviour,
  stays inside the blocks it allocates, keeps the packet well formed with at most 256 layers,
  adds exactly one layer per successful call and never touches the layers already there.\<close>

theorem adds_keep_packet:
  assumes "pkt_wf p"
  shows "\<exists>rs q. adds_run al ops p = Some (rs, q) \<and> pkt_wf q \<and> p_layer_nr q \<le> ARS_MAX_LAYER
    \<and> p_layer_nr q = p_layer_nr p + length (filter (\<lambda>r. r) rs) \<and> (\<forall>k < p_layer_nr p. p_layer q k = p_layer p k)"
  using adds_run_grows [OF assms, of al ops] by (auto simp: pkt_wf_def)

theorem adds_keep_packet_witness:
  "\<exists>p rs q. pkt_wf p \<and> p_layer_nr p = 0 \<and> adds_run (\<lambda>n. n < 30) [(ADD_IPHDR, 0), (ADD_IPOPT, 7), (ADD_UDPHDR, 0), (ADD_DATA, 0)] p = Some (rs, q)
    \<and> p_layer_nr q = 3 \<and> pkt_wf q"
proof -
  define p where "p = ars_init \<lparr>p_error = None, p_layer_nr = 9, p_layer = (\<lambda>_. null_layer), p_default = (\<lambda>_. None),
    p_options = 0, aux = 0, aux_ipproto = 0\<rparr>"
  have wf: "pkt_wf p" unfolding p_def by (rule pkt_wf_init)
  let ?ops = "[(ADD_IPHDR, 0), (ADD_IPOPT, 7), (ADD_UDPHDR, 0), (ADD_DATA, 0)]"
  have "(case adds_run (\<lambda>n. n < 30) ?ops p of Some (rs, q) \<Rightarrow> filter (\<lambda>r. r) rs = [True, True, True] | None \<Rightarrow> False)"
    unfolding p_def by code_simp
  then obtain rs q where q: "adds_run (\<lambda>n. n < 30) ?ops p = Some (rs, q)" "filter (\<lambda>r. r) rs = [True, True, True]"
    by (auto split: option.splits prod.splits)
  have "p_layer_nr p = 0" by (simp add: p_def ars_init_def)
  with adds_keep_packet [OF wf, of "\<lambda>n. n < 30" ?ops] q wf show ?thesis by auto
qed

end
