(* ===== verification/Compile.thy ===== *)
theory Compile
  imports Ars Cksum
begin

text \<open>
  Completing a packet and putting it on the wire, the second half of \<open>src/ars.c\<close>: the
  compilers, one per layer type, that fill in lengths, protocol numbers, option padding and
  checksums unless the layer's flags say that the user has set the field; \<open>ars_compile\<close>, which
  runs them from the last layer to the first; \<open>ars_build_packet\<close>, which concatenates the
  layers; and \<open>ars_send\<close>.  Field offsets are those of the structures of \<open>src/ars.h\<close>.
\<close>

section \<open>Protocol numbers (src/in.h) and flags\<close>

abbreviation (input) ARS_IPPROTO_ICMP :: u8 where "ARS_IPPROTO_ICMP \<equiv> 1"
abbreviation (input) ARS_IPPROTO_IPIP :: u8 where "ARS_IPPROTO_IPIP \<equiv> 4"
abbreviation (input) ARS_IPPROTO_TCP :: u8 where "ARS_IPPROTO_TCP \<equiv> 6"
abbreviation (input) ARS_IPPROTO_IGRP :: u8 where "ARS_IPPROTO_IGRP \<equiv> 9"
abbreviation (input) ARS_IPPROTO_UDP :: u8 where "ARS_IPPROTO_UDP \<equiv> 17"
abbreviation (input) ARS_IPPROTO_IPV6 :: u8 where "ARS_IPPROTO_IPV6 \<equiv> 41"
abbreviation (input) ARS_IPPROTO_ICMPV6 :: u8 where "ARS_IPPROTO_ICMPV6 \<equiv> 58"
abbreviation (input) ARS_IPPROTO_NONE :: u8 where "ARS_IPPROTO_NONE \<equiv> 59"
abbreviation (input) ARS_IPPROTO_RAW :: u8 where "ARS_IPPROTO_RAW \<equiv> 255"

abbreviation (input) ARS_TAKE_IP_VERSION :: u32 where "ARS_TAKE_IP_VERSION \<equiv> 1"
abbreviation (input) ARS_TAKE_IP_HDRLEN :: u32 where "ARS_TAKE_IP_HDRLEN \<equiv> 2"
abbreviation (input) ARS_TAKE_IP_TOTLEN :: u32 where "ARS_TAKE_IP_TOTLEN \<equiv> 4"
abbreviation (input) ARS_TAKE_IP_PROTOCOL :: u32 where "ARS_TAKE_IP_PROTOCOL \<equiv> 8"
abbreviation (input) ARS_TAKE_IP_CKSUM :: u32 where "ARS_TAKE_IP_CKSUM \<equiv> 16"
abbreviation (input) ARS_TAKE_IPOPT_PTR :: u32 where "ARS_TAKE_IPOPT_PTR \<equiv> 1"
abbreviation (input) ARS_TAKE_ICMP_CKSUM :: u32 where "ARS_TAKE_ICMP_CKSUM \<equiv> 1"
abbreviation (input) ARS_TAKE_UDP_CKSUM :: u32 where "ARS_TAKE_UDP_CKSUM \<equiv> 1"
abbreviation (input) ARS_TAKE_UDP_LEN :: u32 where "ARS_TAKE_UDP_LEN \<equiv> 2"
abbreviation (input) ARS_TAKE_TCP_HDRLEN :: u32 where "ARS_TAKE_TCP_HDRLEN \<equiv> 1"
abbreviation (input) ARS_TAKE_TCP_CKSUM :: u32 where "ARS_TAKE_TCP_CKSUM \<equiv> 2"
abbreviation (input) ARS_TAKE_IGRP_CKSUM :: u32 where "ARS_TAKE_IGRP_CKSUM \<equiv> 1"
abbreviation (input) ARS_TAKE_IP6_VERSION :: u32 where "ARS_TAKE_IP6_VERSION \<equiv> 1"
abbreviation (input) ARS_TAKE_IP6_PAYLOADLEN :: u32 where "ARS_TAKE_IP6_PAYLOADLEN \<equiv> 2"
abbreviation (input) ARS_TAKE_IP6_NEXTHDR :: u32 where "ARS_TAKE_IP6_NEXTHDR \<equiv> 4"
abbreviation (input) ARS_TAKE_ICMP6_CKSUM :: u32 where "ARS_TAKE_ICMP6_CKSUM \<equiv> 1"

section \<open>Checksums over layers\<close>

text \<open>The uninitialised context on the stack (its value is irrelevant, see the checksum theory).\<close>

definition mc_stack :: mc_context where
  "mc_stack = \<lparr>oddbyte_flag = 0, old = 0, oddbyte = 0, pad = 0\<rparr>"

text \<open>\<open>INIT\<close>, \<open>UPDATE\<close> with some leading buffers and then with each layer, \<open>FINAL\<close>.\<close>

definition cksum_layers :: "bytes list \<Rightarrow> ars_layer list \<Rightarrow> u16 option" where
  "cksum_layers bufs ls = do {
     bs \<leftarrow> those (map layer_bytes ls);
     Some (mc_run mc_stack (bufs @ bs))
   }"

abbreviation live_layers :: "ars_packet \<Rightarrow> nat \<Rightarrow> ars_layer list" where
  "live_layers pkt j \<equiv> span_layers (\<lambda>t. t \<noteq> ARS_TYPE_NULL) pkt j"

text \<open>A function that computes a sum: \<open>Inl\<close> an error, \<open>Inr\<close> the value for \<open>*sum\<close>.\<close>

type_synonym sum_result = "((ars_code + u16) \<times> ars_packet) option"

definition ars_ip6_pseudo_cksum :: "allocator \<Rightarrow> ars_packet \<Rightarrow> nat \<Rightarrow> u8 \<Rightarrow> sum_result" where
  "ars_ip6_pseudo_cksum al pkt layer nexthdr =
     (if layer = 0 \<or> l_type (p_layer pkt (layer - 1)) \<noteq> ARS_TYPE_IP6
      then Some (Inl ARS_INVALID, ars_set_error al
        ''IPv6 checksum requested, but the IPv6 header is not the previous layer'' pkt)
      else do {
        saddr \<leftarrow> rd pkt (layer - 1) 8 16;
        daddr \<leftarrow> rd pkt (layer - 1) 24 16;
        let len = htonl (of_nat (ars_relative_size pkt layer));
        ck \<leftarrow> cksum_layers [saddr @ daddr @ bytes32 len @ [0, 0, 0, nexthdr]] (live_layers pkt layer);
        Some (Inr ck, pkt)
      })"

text \<open>The layer where the search to the left for the IP header stops: \<open>j\<close> is \<open>layer - 1\<close> and
  goes down over IP options while it is positive.\<close>

fun skip_ipopt_left :: "ars_packet \<Rightarrow> nat \<Rightarrow> nat" where
  "skip_ipopt_left pkt 0 = 0"
| "skip_ipopt_left pkt (Suc j) =
     (if l_type (p_layer pkt (Suc j)) = ARS_TYPE_IPOPT then skip_ipopt_left pkt j else Suc j)"

definition ars_udptcp_cksum :: "allocator \<Rightarrow> ars_packet \<Rightarrow> nat \<Rightarrow> sum_result" where
  "ars_udptcp_cksum al pkt layer =
     (let proto = (if l_type (p_layer pkt layer) = ARS_TYPE_TCP then ARS_IPPROTO_TCP else ARS_IPPROTO_UDP);
          j = skip_ipopt_left pkt (layer - 1)
      in if layer \<noteq> 0 \<and> l_type (p_layer pkt j) = ARS_TYPE_IP6
         then ars_ip6_pseudo_cksum al pkt layer proto
         else if layer = 0 \<or> l_type (p_layer pkt j) \<noteq> ARS_TYPE_IP
         then Some (Inl ARS_INVALID, ars_set_error al
           ''TCP/UDP checksum requested, but IP header not found'' pkt)
         else do {
           saddr \<leftarrow> rd pkt j 12 4;
           daddr \<leftarrow> rd pkt j 16 4;
           let len = htons (of_nat (ars_relative_size pkt layer));
           ck \<leftarrow> cksum_layers [saddr @ daddr @ [0, proto] @ bytes16 len] (live_layers pkt layer);
           Some (Inr ck, pkt)
         })"

text \<open>Store the sum of \<open>f\<close> at \<open>off\<close> of the layer after zeroing the field: the pattern
  \<open>h->sum = 0; err = f(pkt, layer, &h->sum); if (err != -ARS_OK) return err;\<close>.\<close>

definition store_cksum ::
  "nat \<Rightarrow> nat \<Rightarrow> (ars_packet \<Rightarrow> sum_result) \<Rightarrow> ars_packet \<Rightarrow> (ars_code \<times> ars_packet) option" where
  "store_cksum layer off f pkt = do {
     pkt \<leftarrow> wr16 layer off 0 pkt;
     (r, pkt) \<leftarrow> f pkt;
     case r of Inl err \<Rightarrow> Some (err, pkt)
     | Inr ck \<Rightarrow> do { pkt \<leftarrow> wr16 layer off ck pkt; Some (ARS_OK, pkt) }
   }"

section \<open>The compilers\<close>

text \<open>Run a statement only when the flag leaves the field to the compiler.\<close>

definition unless_taken :: "u32 \<Rightarrow> u32 \<Rightarrow> (ars_packet \<Rightarrow> ars_packet option) \<Rightarrow> ars_packet \<Rightarrow> ars_packet option" where
  "unless_taken flags x f pkt = (if ARS_DONTTAKE flags x then f pkt else Some pkt)"

definition opts_size :: "ars_type \<Rightarrow> ars_packet \<Rightarrow> nat \<Rightarrow> nat" where
  "opts_size t pkt j = sum_list (map l_size (span_layers (\<lambda>u. u = t) pkt j))"

text \<open>\<open>ihl\<close> is a four-bit field: the sum is stored modulo 16.\<close>

definition ip_hdrlen :: "nat \<Rightarrow> ars_packet \<Rightarrow> ars_packet option" where
  "ip_hdrlen layer pkt = do {
     pkt \<leftarrow> wr_lo layer 0 5 pkt;
     b \<leftarrow> rd8 pkt layer 0;
     wr_lo layer 0 (b + of_nat (opts_size ARS_TYPE_IPOPT pkt (layer + 1) div 4)) pkt
   }"

text \<open>\<open>j\<close> after the header length step: the first layer behind the options, but the IP layer
  itself when the header length was taken from the user.\<close>

definition ip_next_index :: "ars_packet \<Rightarrow> nat \<Rightarrow> nat" where
  "ip_next_index pkt layer =
     (if ARS_DONTTAKE (l_flags (p_layer pkt layer)) ARS_TAKE_IP_HDRLEN
      then layer + 1 + length (span_layers (\<lambda>t. t = ARS_TYPE_IPOPT) pkt (layer + 1))
      else layer)"

definition ip_proto_of :: "ars_type \<Rightarrow> u8" where
  "ip_proto_of t = (case t of
     ARS_TYPE_IP \<Rightarrow> ARS_IPPROTO_IPIP | ARS_TYPE_ICMP \<Rightarrow> ARS_IPPROTO_ICMP
   | ARS_TYPE_UDP \<Rightarrow> ARS_IPPROTO_UDP | ARS_TYPE_TCP \<Rightarrow> ARS_IPPROTO_TCP
   | ARS_TYPE_IGRP \<Rightarrow> ARS_IPPROTO_IGRP | _ \<Rightarrow> ARS_IPPROTO_RAW)"

definition ip_protocol :: "nat \<Rightarrow> nat \<Rightarrow> ars_packet \<Rightarrow> ars_packet option" where
  "ip_protocol layer j pkt =
     (let k = j + length (span_layers (\<lambda>t. t = ARS_TYPE_IPOPT) pkt j)
      in wr8 layer 9 (if k < ARS_MAX_LAYER then ip_proto_of (l_type (p_layer pkt k)) else ARS_IPPROTO_RAW) pkt)"

definition ip_check :: "nat \<Rightarrow> ars_packet \<Rightarrow> ars_packet option" where
  "ip_check layer pkt = do {
     pkt \<leftarrow> wr16 layer 10 0 pkt;
     hdr \<leftarrow> rd pkt layer 0 ARS_IPHDR_SIZE;
     ck \<leftarrow> cksum_layers [hdr] (span_layers (\<lambda>t. t = ARS_TYPE_IPOPT) pkt (layer + 1));
     wr16 layer 10 ck pkt
   }"

definition ars_compiler_ip :: "allocator \<Rightarrow> ars_packet \<Rightarrow> nat \<Rightarrow> (ars_code \<times> ars_packet) option" where
  "ars_compiler_ip al pkt layer =
     (let flags = l_flags (p_layer pkt layer); j = ip_next_index pkt layer in do {
        pkt \<leftarrow> unless_taken flags ARS_TAKE_IP_VERSION (wr_hi layer 0 4) pkt;
        pkt \<leftarrow> unless_taken flags ARS_TAKE_IP_HDRLEN (ip_hdrlen layer) pkt;
        pkt \<leftarrow> unless_taken flags ARS_TAKE_IP_TOTLEN
          (\<lambda>pkt. wr16 layer 2 (htons (of_nat (ars_relative_size pkt layer))) pkt) pkt;
        pkt \<leftarrow> unless_taken flags ARS_TAKE_IP_PROTOCOL (ip_protocol layer j) pkt;
        pkt \<leftarrow> unless_taken flags ARS_TAKE_IP_CKSUM (ip_check layer) pkt;
        Some (ARS_OK, pkt)
      })"

text \<open>The first layer of the run of type \<open>t\<close> that ends right before \<open>j\<close>.\<close>

fun first_of_run :: "ars_type \<Rightarrow> ars_packet \<Rightarrow> nat \<Rightarrow> nat" where
  "first_of_run t pkt 0 = 0"
| "first_of_run t pkt (Suc j) = (if l_type (p_layer pkt j) = t then first_of_run t pkt j else Suc j)"

text \<open>\<open>ars_compiler_ipopt\<close> and \<open>ars_compiler_tcpopt\<close>, which differ in the layer type, the
  padding byte (1 for both) and the message.\<close>

definition compiler_opt :: "ars_type \<Rightarrow> string \<Rightarrow> allocator \<Rightarrow> ars_packet \<Rightarrow> nat \<Rightarrow> (ars_code \<times> ars_packet) option" where
  "compiler_opt t msg al pkt layer =
     (if layer \<noteq> ARS_MAX_LAYER - 1 \<and> l_type (p_layer pkt (layer + 1)) = t then Some (ARS_OK, pkt)
      else let j = first_of_run t pkt layer;
               opt_size = ars_relative_size pkt j - ars_relative_size pkt (layer + 1)
        in if opt_size mod 4 = 0 then Some (ARS_OK, pkt)
        else let padding = 4 - opt_size mod 4; cur_size = l_size (p_layer pkt layer)
          in if \<not> al (cur_size + padding) then Some (ARS_NOMEM, ars_set_error al msg pkt)
          else do {
            t \<leftarrow> st (brealloc (cur_size + padding) (case l_data (p_layer pkt layer) of None \<Rightarrow> [] | Some d \<Rightarrow> d))
                   cur_size (replicate padding 1);
            Some (ARS_OK, upd_layer layer (\<lambda>l. l\<lparr>l_data := Some t, l_size := cur_size + padding\<rparr>) pkt)
          })"

definition ars_compiler_ipopt :: "allocator \<Rightarrow> ars_packet \<Rightarrow> nat \<Rightarrow> (ars_code \<times> ars_packet) option" where
  "ars_compiler_ipopt = compiler_opt ARS_TYPE_IPOPT ''Out of memory padding IP options''"

definition ars_compiler_tcpopt :: "allocator \<Rightarrow> ars_packet \<Rightarrow> nat \<Rightarrow> (ars_code \<times> ars_packet) option" where
  "ars_compiler_tcpopt = compiler_opt ARS_TYPE_TCPOPT ''Out of memory padding TCP options''"

definition ip6_version :: "nat \<Rightarrow> ars_packet \<Rightarrow> ars_packet option" where
  "ip6_version layer pkt = do {
     w \<leftarrow> rd32 pkt layer 0;
     wr32 layer 0 (htonl (ip6_word 6 (ARS_IP6_TCLASS (htonl w)) (ARS_IP6_FLOW (htonl w)))) pkt
   }"

definition ip6_proto_of :: "ars_type \<Rightarrow> u8" where
  "ip6_proto_of t = (case t of
     ARS_TYPE_IP6 \<Rightarrow> ARS_IPPROTO_IPV6 | ARS_TYPE_IP \<Rightarrow> ARS_IPPROTO_IPIP
   | ARS_TYPE_ICMP6 \<Rightarrow> ARS_IPPROTO_ICMPV6 | ARS_TYPE_ICMP \<Rightarrow> ARS_IPPROTO_ICMP
   | ARS_TYPE_UDP \<Rightarrow> ARS_IPPROTO_UDP | ARS_TYPE_TCP \<Rightarrow> ARS_IPPROTO_TCP | _ \<Rightarrow> ARS_IPPROTO_NONE)"

definition ars_compiler_ip6 :: "allocator \<Rightarrow> ars_packet \<Rightarrow> nat \<Rightarrow> (ars_code \<times> ars_packet) option" where
  "ars_compiler_ip6 al pkt layer =
     (let flags = l_flags (p_layer pkt layer) in do {
        pkt \<leftarrow> unless_taken flags ARS_TAKE_IP6_VERSION (ip6_version layer) pkt;
        pkt \<leftarrow> unless_taken flags ARS_TAKE_IP6_PAYLOADLEN
          (\<lambda>pkt. wr16 layer 4 (htons (of_nat (ars_relative_size pkt (layer + 1)))) pkt) pkt;
        pkt \<leftarrow> unless_taken flags ARS_TAKE_IP6_NEXTHDR
          (\<lambda>pkt. wr8 layer 6 (if layer + 1 < ARS_MAX_LAYER
              then ip6_proto_of (l_type (p_layer pkt (layer + 1))) else ARS_IPPROTO_NONE) pkt) pkt;
        Some (ARS_OK, pkt)
      })"

definition ars_compiler_icmp6 :: "allocator \<Rightarrow> ars_packet \<Rightarrow> nat \<Rightarrow> (ars_code \<times> ars_packet) option" where
  "ars_compiler_icmp6 al pkt layer =
     (if ARS_DONTTAKE (l_flags (p_layer pkt layer)) ARS_TAKE_ICMP6_CKSUM
      then store_cksum layer 2 (\<lambda>pkt. ars_ip6_pseudo_cksum al pkt layer ARS_IPPROTO_ICMPV6) pkt
      else Some (ARS_OK, pkt))"

text \<open>\<open>th_off\<close> is the high half of byte 12.\<close>

definition tcp_hdrlen :: "nat \<Rightarrow> ars_packet \<Rightarrow> ars_packet option" where
  "tcp_hdrlen layer pkt = do {
     pkt \<leftarrow> wr_hi layer 12 5 pkt;
     b \<leftarrow> rd8 pkt layer 12;
     wr_hi layer 12 (drop_bit 4 b + of_nat (opts_size ARS_TYPE_TCPOPT pkt (layer + 1) div 4)) pkt
   }"

definition ars_compiler_tcp :: "allocator \<Rightarrow> ars_packet \<Rightarrow> nat \<Rightarrow> (ars_code \<times> ars_packet) option" where
  "ars_compiler_tcp al pkt layer =
     (let flags = l_flags (p_layer pkt layer) in do {
        pkt \<leftarrow> unless_taken flags ARS_TAKE_TCP_HDRLEN (tcp_hdrlen layer) pkt;
        if ARS_DONTTAKE flags ARS_TAKE_TCP_CKSUM
        then store_cksum layer 16 (\<lambda>pkt. ars_udptcp_cksum al pkt layer) pkt
        else Some (ARS_OK, pkt)
      })"

definition ars_compiler_udp :: "allocator \<Rightarrow> ars_packet \<Rightarrow> nat \<Rightarrow> (ars_code \<times> ars_packet) option" where
  "ars_compiler_udp al pkt layer =
     (let flags = l_flags (p_layer pkt layer) in do {
        pkt \<leftarrow> unless_taken flags ARS_TAKE_UDP_LEN
          (\<lambda>pkt. wr16 layer 4 (htons (of_nat (ars_relative_size pkt layer))) pkt) pkt;
        if ARS_DONTTAKE flags ARS_TAKE_UDP_CKSUM
        then store_cksum layer 6 (\<lambda>pkt. ars_udptcp_cksum al pkt layer) pkt
        else Some (ARS_OK, pkt)
      })"

text \<open>The plain checksum over the layer and all that follow, without a pseudo header.\<close>

definition plain_cksum :: "nat \<Rightarrow> ars_packet \<Rightarrow> sum_result" where
  "plain_cksum layer pkt = do { ck \<leftarrow> cksum_layers [] (live_layers pkt layer); Some (Inr ck, pkt) }"

definition ars_compiler_icmp :: "allocator \<Rightarrow> ars_packet \<Rightarrow> nat \<Rightarrow> (ars_code \<times> ars_packet) option" where
  "ars_compiler_icmp al pkt layer =
     (if ARS_DONTTAKE (l_flags (p_layer pkt layer)) ARS_TAKE_ICMP_CKSUM
      then store_cksum layer 2 (plain_cksum layer) pkt else Some (ARS_OK, pkt))"

definition ars_compiler_igrp :: "allocator \<Rightarrow> ars_packet \<Rightarrow> nat \<Rightarrow> (ars_code \<times> ars_packet) option" where
  "ars_compiler_igrp al pkt layer =
     (if ARS_DONTTAKE (l_flags (p_layer pkt layer)) ARS_TAKE_IGRP_CKSUM
      then store_cksum layer 10 (plain_cksum layer) pkt else Some (ARS_OK, pkt))"

text \<open>The \<open>li_compiler\<close> column of \<open>ars_linfo\<close>: \<open>None\<close> is \<open>NULL\<close>, a layer to skip.\<close>

definition li_compiler ::
  "ars_type \<Rightarrow> (allocator \<Rightarrow> ars_packet \<Rightarrow> nat \<Rightarrow> (ars_code \<times> ars_packet) option) option" where
  "li_compiler t = (case t of
     ARS_TYPE_NULL \<Rightarrow> Some (\<lambda>al pkt layer. Some (ARS_OK, pkt))
   | ARS_TYPE_IP \<Rightarrow> Some ars_compiler_ip
   | ARS_TYPE_IPOPT \<Rightarrow> Some ars_compiler_ipopt
   | ARS_TYPE_ICMP \<Rightarrow> Some ars_compiler_icmp
   | ARS_TYPE_UDP \<Rightarrow> Some ars_compiler_udp
   | ARS_TYPE_TCP \<Rightarrow> Some ars_compiler_tcp
   | ARS_TYPE_TCPOPT \<Rightarrow> Some ars_compiler_tcpopt
   | ARS_TYPE_IGRP \<Rightarrow> Some ars_compiler_igrp
   | ARS_TYPE_IGRPENTRY \<Rightarrow> None
   | ARS_TYPE_IP6 \<Rightarrow> Some ars_compiler_ip6
   | ARS_TYPE_ICMP6 \<Rightarrow> Some ars_compiler_icmp6
   | ARS_TYPE_DATA \<Rightarrow> None)"

definition compile_layer :: "allocator \<Rightarrow> ars_packet \<Rightarrow> nat \<Rightarrow> (ars_code \<times> ars_packet) option" where
  "compile_layer al pkt j = (case li_compiler (l_type (p_layer pkt j)) of
     None \<Rightarrow> Some (ARS_OK, pkt) | Some f \<Rightarrow> f al pkt j)"

text \<open>The loop of \<open>ars_compile\<close> over the layers below \<open>j\<close>, from the last to the first.\<close>

fun compile_loop :: "allocator \<Rightarrow> ars_packet \<Rightarrow> nat \<Rightarrow> (ars_code \<times> ars_packet) option" where
  "compile_loop al pkt 0 = Some (ARS_OK, pkt)"
| "compile_loop al pkt (Suc j) = do {
     (err, pkt) \<leftarrow> compile_layer al pkt j;
     if err \<noteq> ARS_OK then Some (err, pkt) else compile_loop al pkt j
   }"

definition ars_compile :: "allocator \<Rightarrow> ars_packet \<Rightarrow> (ars_code \<times> ars_packet) option" where
  "ars_compile al pkt = compile_loop al pkt (p_layer_nr pkt)"

section \<open>Building and sending\<close>

fun build_loop :: "ars_layer list \<Rightarrow> nat \<Rightarrow> bytes \<Rightarrow> bytes option" where
  "build_loop [] off packet = Some packet"
| "build_loop (l # ls) off packet = do {
     bs \<leftarrow> layer_bytes l;
     packet \<leftarrow> st packet off bs;
     build_loop ls (off + l_size l) packet
   }"

text \<open>\<open>Inr\<close> is the allocated packet (its length is \<open>*size\<close>).\<close>

definition ars_build_packet :: "allocator \<Rightarrow> ars_packet \<Rightarrow> ((ars_code + bytes) \<times> ars_packet) option" where
  "ars_build_packet al pkt =
     (let tot_size = ars_packet_size pkt in
      if tot_size = 0 then Some (Inl ARS_INVALID, ars_set_error al ''Total size 0 building the packet'' pkt)
      else if \<not> al tot_size then Some (Inl ARS_NOMEM, ars_set_error al ''Out of memory building the packet'' pkt)
      else do {
        packet \<leftarrow> build_loop (live_layers pkt 0) 0 (replicate tot_size 0);
        Some (Inr packet, pkt)
      })"

text \<open>On systems other than the BSDs only the checks are compiled in.\<close>

definition ars_bsd_fix :: "allocator \<Rightarrow> ars_packet \<Rightarrow> bytes \<Rightarrow> ars_code \<times> ars_packet" where
  "ars_bsd_fix al pkt packet =
     (if l_type (p_layer pkt 0) = ARS_TYPE_IP6 then (ARS_OK, pkt)
      else if l_type (p_layer pkt 0) \<noteq> ARS_TYPE_IP \<or> length packet < ARS_IPHDR_SIZE
      then (ARS_INVALID, ars_set_error al ''BSD fix requested, but layer 0 not IP'' pkt)
      else (ARS_OK, pkt))"

text \<open>\<open>sendto\<close> is the system call on the raw socket: it gets the datagram and the destination
  address and answers whether it did not fail.  \<open>sa\<close> is the caller's address, or \<open>None\<close> for
  \<open>NULL\<close>, to be completed from the IP header.\<close>

definition ars_send ::
  "allocator \<Rightarrow> (bytes \<Rightarrow> bytes \<Rightarrow> bool) \<Rightarrow> bytes option \<Rightarrow> ars_packet \<Rightarrow> (ars_code \<times> ars_packet) option" where
  "ars_send al sendto sa pkt =
     (if l_type (p_layer pkt 0) = ARS_TYPE_IP6
      then Some (ARS_INVALID, ars_set_error al
        ''sending IPv6 packets is not supported yet: build/describe them offline instead'' pkt)
      else if sa = None \<and> l_type (p_layer pkt 0) \<noteq> ARS_TYPE_IP
      then Some (ARS_ERROR, ars_set_error al
        ''socket address completionrequested, but layer 0 isn't IP'' pkt)
      else do {
        dst \<leftarrow> (case sa of None \<Rightarrow> rd pkt 0 16 4 | Some a \<Rightarrow> Some a);
        (r, pkt) \<leftarrow> ars_build_packet al pkt;
        case r of Inl err \<Rightarrow> Some (err, pkt)
        | Inr packet \<Rightarrow>
          (case ars_bsd_fix al pkt packet of (err, pkt) \<Rightarrow>
             if err \<noteq> ARS_OK then Some (err, pkt)
             else Some (if sendto packet dst then ARS_OK else ARS_ERROR, pkt))
      })"

section \<open>Steps of a compiler stay in the layer\<close>

text \<open>What a layer puts on the wire.\<close>

definition layer_out :: "ars_layer \<Rightarrow> bytes" where
  "layer_out l = take (l_size l) (case l_data l of None \<Rightarrow> [] | Some d \<Rightarrow> d)"

definition pkt_out :: "ars_packet \<Rightarrow> nat \<Rightarrow> bytes" where
  "pkt_out pkt j = concat (map layer_out (map (p_layer pkt) [j..<p_layer_nr pkt]))"

lemma layer_bytes_out: "layer_wf l \<Longrightarrow> layer_bytes l = Some (layer_out l)"
  by (auto simp: layer_wf_def layer_len_def layer_bytes_def layer_out_def ld_def split: option.splits)

lemma length_layer_out: "layer_wf l \<Longrightarrow> length (layer_out l) = l_size l"
  by (auto simp: layer_wf_def layer_len_def layer_out_def split: option.splits)

lemma those_map_Some: "(\<And>x. x \<in> set xs \<Longrightarrow> f x = Some (g x)) \<Longrightarrow> those (map f xs) = Some (map g xs)"
  by (induction xs) auto

lemma cksum_layers_eq:
  "(\<And>l. l \<in> set ls \<Longrightarrow> layer_wf l) \<Longrightarrow>
     cksum_layers bufs ls = Some (ars_cksum (concat bufs @ concat (map layer_out ls)))"
  using those_map_Some [of ls layer_bytes layer_out] by (simp add: cksum_layers_def layer_bytes_out mc_run_eq)

lemma live_layers_eq: "pkt_wf pkt \<Longrightarrow> j \<le> p_layer_nr pkt \<Longrightarrow> live_layers pkt j = map (p_layer pkt) [j..<p_layer_nr pkt]"
  by (rule span_layers_live)

lemma cksum_live:
  assumes "pkt_wf pkt" "j \<le> p_layer_nr pkt"
  shows "cksum_layers bufs (live_layers pkt j) = Some (ars_cksum (concat bufs @ pkt_out pkt j))"
proof -
  have "l \<in> set (live_layers pkt j) \<Longrightarrow> layer_wf l" for l
    by (rule span_layers_wf [OF assms(1)]) simp_all
  from cksum_layers_eq [OF this] show ?thesis
    unfolding pkt_out_def live_layers_eq [OF assms] .
qed

lemma relative_size_eq:
  assumes "pkt_wf pkt" "j \<le> p_layer_nr pkt"
  shows "ars_relative_size pkt j = length (pkt_out pkt j)"
proof -
  have "map l_size (map (p_layer pkt) [j..<p_layer_nr pkt])
      = map length (map layer_out (map (p_layer pkt) [j..<p_layer_nr pkt]))"
    using pkt_wf_below [OF assms(1)] by (simp add: length_layer_out)
  then show ?thesis
    by (simp only: ars_relative_size_def live_layers_eq [OF assms] pkt_out_def length_concat)
qed

text \<open>A step that may read the whole packet but edits the block of layer \<open>i\<close> only.\<close>

definition wf_edits :: "nat \<Rightarrow> nat \<Rightarrow> (ars_packet \<Rightarrow> ars_packet option) \<Rightarrow> bool" where
  "wf_edits i n f \<longleftrightarrow> (\<forall>pkt. pkt_wf pkt \<and> i < p_layer_nr pkt \<and> layer_len (p_layer pkt i) = n \<longrightarrow>
     (\<exists>d. length d = n \<and> f pkt = Some (set_data i d pkt)))"

lemma set_data_wf:
  "pkt_wf pkt \<Longrightarrow> i < p_layer_nr pkt \<Longrightarrow> layer_len (p_layer pkt i) = length d \<Longrightarrow> pkt_wf (set_data i d pkt)"
  by (auto simp: pkt_wf_def layer_wf_def)

lemma wf_editsD:
  assumes "wf_edits i n f" "pkt_wf pkt" "i < p_layer_nr pkt" "layer_len (p_layer pkt i) = n"
  obtains d where "length d = n" "f pkt = Some (set_data i d pkt)" "pkt_wf (set_data i d pkt)"
  using assms set_data_wf [OF assms(2,3)] unfolding wf_edits_def by metis

lemma edits_wf_edits: "edits i n f \<Longrightarrow> 0 < n \<Longrightarrow> wf_edits i n f"
  using edits_wf unfolding wf_edits_def by blast

lemma wf_edits_bind [edit_intros]:
  assumes "wf_edits i n f" "wf_edits i n g"
  shows "wf_edits i n (\<lambda>p. Option.bind (f p) g)"
  unfolding wf_edits_def
proof (intro allI impI)
  fix pkt assume pkt: "pkt_wf pkt \<and> i < p_layer_nr pkt \<and> layer_len (p_layer pkt i) = n"
  then obtain d where d: "length d = n" "f pkt = Some (set_data i d pkt)" "pkt_wf (set_data i d pkt)"
    using assms(1) by (auto elim: wf_editsD)
  then have "pkt_wf (set_data i d pkt) \<and> i < p_layer_nr (set_data i d pkt)
      \<and> layer_len (p_layer (set_data i d pkt) i) = n" using pkt by simp
  then obtain e where "length e = n" "g (set_data i d pkt) = Some (set_data i e (set_data i d pkt))"
    using assms(2) unfolding wf_edits_def by blast
  with d show "\<exists>d. length d = n \<and> Option.bind (f pkt) g = Some (set_data i d pkt)" by auto
qed

lemma wf_edits_unless [edit_intros]: "wf_edits i n f \<Longrightarrow> 0 < n \<Longrightarrow> wf_edits i n (unless_taken flags x f)"
  using edits_wf_edits [OF edits_Some, of n i] by (auto simp: wf_edits_def unless_taken_def)

lemma wf_edits_fun [edit_intros]:
  "(\<And>p. edits i n (\<lambda>q. f p q)) \<Longrightarrow> 0 < n \<Longrightarrow> wf_edits i n (\<lambda>p. f p p)"
  unfolding wf_edits_def using edits_wf by blast

lemma edits_rd8 [edit_intros]:
  "off < n \<Longrightarrow> (\<And>b. edits i n (f b)) \<Longrightarrow> edits i n (\<lambda>p. Option.bind (rd8 p i off) (\<lambda>b. f b p))"
  unfolding edits_def by (simp add: rd8_def ld8_def)

lemma edits_rd32 [edit_intros]:
  "off + 3 < n \<Longrightarrow> (\<And>w. edits i n (f w)) \<Longrightarrow> edits i n (\<lambda>p. Option.bind (rd32 p i off) (\<lambda>w. f w p))"
  unfolding edits_def by (simp add: rd32_def ld32_def)

lemma wf_edits_rd8:
  "off < n \<Longrightarrow> (\<And>b. wf_edits i n (f b)) \<Longrightarrow> wf_edits i n (\<lambda>p. Option.bind (rd8 p i off) (\<lambda>b. f b p))"
  unfolding wf_edits_def by (auto simp: rd8_def ld8_def layer_len_def split: option.splits)

lemma wf_edits_rd:
  "off + k \<le> n \<Longrightarrow> 0 < n \<Longrightarrow> (\<And>bs. wf_edits i n (f bs)) \<Longrightarrow> wf_edits i n (\<lambda>p. Option.bind (rd p i off k) (\<lambda>bs. f bs p))"
  unfolding wf_edits_def by (auto simp: rd_def ld_def layer_len_def split: option.splits)

lemma wf_edits_cksum:
  assumes "\<And>c. wf_edits i n (f c)" "\<not> P ARS_TYPE_NULL"
  shows "wf_edits i n (\<lambda>p. Option.bind (cksum_layers bufs (span_layers P p j)) (\<lambda>c. f c p))"
  unfolding wf_edits_def
proof (intro allI impI)
  fix pkt assume pkt: "pkt_wf pkt \<and> i < p_layer_nr pkt \<and> layer_len (p_layer pkt i) = n"
  then have "cksum_layers bufs (span_layers P pkt j)
      = Some (ars_cksum (concat bufs @ concat (map layer_out (span_layers P pkt j))))"
    using span_layers_wf [of pkt P _ j] assms(2) by (intro cksum_layers_eq) blast
  with assms(1) pkt show "\<exists>d. length d = n \<and>
      Option.bind (cksum_layers bufs (span_layers P pkt j)) (\<lambda>c. f c pkt) = Some (set_data i d pkt)"
    by (auto simp: wf_edits_def)
qed

lemma wf_edits_ip_hdrlen: "0 < n \<Longrightarrow> wf_edits i n (ip_hdrlen i)"
  unfolding ip_hdrlen_def [abs_def]
  by (intro wf_edits_bind wf_edits_rd8 wf_edits_fun edits_wf_edits edits_wr_lo) auto

lemma wf_edits_ip_check: "20 \<le> n \<Longrightarrow> wf_edits i n (ip_check i)"
  unfolding ip_check_def [abs_def]
  by (intro wf_edits_bind wf_edits_rd wf_edits_cksum wf_edits_fun edits_wf_edits edits_wr16) auto

lemma wf_edits_ip_protocol: "10 \<le> n \<Longrightarrow> wf_edits i n (ip_protocol i j)"
  unfolding ip_protocol_def [abs_def] Let_def
  by (intro wf_edits_fun edits_wr8) auto

lemma wf_edits_ip6_version: "4 \<le> n \<Longrightarrow> wf_edits i n (ip6_version i)"
  unfolding ip6_version_def [abs_def]
  by (intro edits_wf_edits edits_rd32 edits_wr32) auto

lemma wf_edits_tcp_hdrlen: "20 \<le> n \<Longrightarrow> wf_edits i n (tcp_hdrlen i)"
  unfolding tcp_hdrlen_def [abs_def]
  by (intro wf_edits_bind wf_edits_rd8 wf_edits_fun edits_wf_edits edits_wr_hi) auto

text \<open>A compiler of layer \<open>j\<close>: no access outside of a block, the invariant is kept, and only
  that layer's data and size change.\<close>

definition compiles :: "nat \<Rightarrow> ars_packet \<Rightarrow> (ars_code \<times> ars_packet) option \<Rightarrow> bool" where
  "compiles j pkt res \<longleftrightarrow> (\<exists>r pkt'. res = Some (r, pkt') \<and> pkt_wf pkt' \<and> p_layer_nr pkt' = p_layer_nr pkt
     \<and> (\<forall>k. k \<noteq> j \<longrightarrow> p_layer pkt' k = p_layer pkt k)
     \<and> l_type (p_layer pkt' j) = l_type (p_layer pkt j) \<and> l_flags (p_layer pkt' j) = l_flags (p_layer pkt j)
     \<and> (l_type (p_layer pkt j) \<notin> {ARS_TYPE_IPOPT, ARS_TYPE_TCPOPT} \<longrightarrow> l_size (p_layer pkt' j) = l_size (p_layer pkt j)))"

lemma compiles_refl: "pkt_wf pkt \<Longrightarrow> compiles j pkt (Some (r, pkt))"
  by (simp add: compiles_def)

lemma compiles_error: "pkt_wf pkt \<Longrightarrow> compiles j pkt (Some (r, ars_set_error al msg pkt))"
  by (simp add: compiles_def)

lemma compiles_edit:
  assumes "wf_edits j n f" "pkt_wf pkt" "j < p_layer_nr pkt" "layer_len (p_layer pkt j) = n"
    "\<And>d. length d = n \<Longrightarrow> pkt_wf (set_data j d pkt) \<Longrightarrow> compiles j (set_data j d pkt) (g (set_data j d pkt))"
  shows "compiles j pkt (Option.bind (f pkt) g)"
proof -
  obtain d where d: "length d = n" "f pkt = Some (set_data j d pkt)" "pkt_wf (set_data j d pkt)"
    using assms(1-4) by (rule wf_editsD)
  with assms(5) [OF d(1,3)] show ?thesis by (auto simp: compiles_def)
qed

lemma compiles_edit_last:
  assumes "wf_edits j n f" "pkt_wf pkt" "j < p_layer_nr pkt" "layer_len (p_layer pkt j) = n"
  shows "compiles j pkt (do { pkt \<leftarrow> f pkt; Some (ARS_OK, pkt) })"
  by (rule compiles_edit [OF assms]) (simp add: compiles_refl)

text \<open>A checksum function on a well-formed packet: a value, or an error that changes no layer.\<close>

definition sums :: "nat \<Rightarrow> (ars_packet \<Rightarrow> sum_result) \<Rightarrow> bool" where
  "sums j f \<longleftrightarrow> (\<forall>pkt. pkt_wf pkt \<and> j < p_layer_nr pkt \<longrightarrow>
     (\<exists>c. f pkt = Some (Inr c, pkt)) \<or> (\<exists>e al msg. e \<noteq> ARS_OK \<and> f pkt = Some (Inl e, ars_set_error al msg pkt)))"

lemma store_cksum_compiles:
  assumes "sums j f" "pkt_wf pkt" "j < p_layer_nr pkt" "off + 2 \<le> layer_len (p_layer pkt j)"
  shows "compiles j pkt (store_cksum j off f pkt)"
  unfolding store_cksum_def
proof (rule compiles_edit [OF edits_wf_edits [OF edits_wr16] assms(2,3) refl])
  fix d assume d: "length d = layer_len (p_layer pkt j)" "pkt_wf (set_data j d pkt)"
  let ?q = "set_data j d pkt"
  have q: "j < p_layer_nr ?q" "layer_len (p_layer ?q j) = length d" using assms(3) d by simp_all
  consider c where "f ?q = Some (Inr c, ?q)" | e al msg where "f ?q = Some (Inl e, ars_set_error al msg ?q)"
    using assms(1) d(2) q(1) unfolding sums_def by blast
  then show "compiles j ?q (do { (r, pkt) \<leftarrow> f ?q;
      case r of Inl err \<Rightarrow> Some (err, pkt)
      | Inr ck \<Rightarrow> do { pkt \<leftarrow> wr16 j off ck pkt; Some (ARS_OK, pkt) } })"
  proof cases
    case (1 c)
    then show ?thesis
      using compiles_edit_last [OF edits_wf_edits [OF edits_wr16 [of off "length d" j c]] d(2) q] assms(4) d(1)
      by simp
  next
    case (2 e al msg)
    then show ?thesis using compiles_error [OF d(2)] by simp
  qed
qed (use assms(4) in auto)

lemma rd_defined: "layer_wf (p_layer pkt i) \<Longrightarrow> off + n \<le> hdr_min (l_type (p_layer pkt i)) \<Longrightarrow> 0 < n \<Longrightarrow>
    \<exists>bs. rd pkt i off n = Some bs \<and> length bs = n"
  by (auto simp: rd_def ld_def layer_wf_def layer_len_def split: option.splits)

lemma skip_ipopt_left_le: "skip_ipopt_left pkt j \<le> j"
  by (induction j) auto

lemma sums_ip6_pseudo: "sums j (\<lambda>pkt. ars_ip6_pseudo_cksum al pkt j nh)"
  unfolding sums_def
proof (intro allI impI)
  fix pkt assume pkt: "pkt_wf pkt \<and> j < p_layer_nr pkt"
  show "(\<exists>c. ars_ip6_pseudo_cksum al pkt j nh = Some (Inr c, pkt)) \<or>
    (\<exists>e al' msg. e \<noteq> ARS_OK \<and> ars_ip6_pseudo_cksum al pkt j nh = Some (Inl e, ars_set_error al' msg pkt))"
  proof (cases "j = 0 \<or> l_type (p_layer pkt (j - 1)) \<noteq> ARS_TYPE_IP6")
    case True
    then show ?thesis unfolding ars_ip6_pseudo_cksum_def by auto
  next
    case False
    then have "j - 1 < p_layer_nr pkt" using pkt by linarith
    then have "layer_wf (p_layer pkt (j - 1))" using pkt pkt_wf_below by blast
    with False obtain s d where "rd pkt (j - 1) 8 16 = Some s" "rd pkt (j - 1) 24 16 = Some d"
      using rd_defined [of pkt "j - 1" 8 16] rd_defined [of pkt "j - 1" 24 16] by (auto simp: hdr_min_def)
    with False pkt show ?thesis by (simp add: ars_ip6_pseudo_cksum_def Let_def cksum_live)
  qed
qed

lemma sums_udptcp: "sums j (\<lambda>pkt. ars_udptcp_cksum al pkt j)"
  unfolding sums_def
proof (intro allI impI)
  fix pkt assume pkt: "pkt_wf pkt \<and> j < p_layer_nr pkt"
  let ?k = "skip_ipopt_left pkt (j - 1)"
  let ?goal = "(\<exists>c. ars_udptcp_cksum al pkt j = Some (Inr c, pkt)) \<or>
    (\<exists>e al' msg. e \<noteq> ARS_OK \<and> ars_udptcp_cksum al pkt j = Some (Inl e, ars_set_error al' msg pkt))"
  consider "j \<noteq> 0 \<and> l_type (p_layer pkt ?k) = ARS_TYPE_IP6"
    | "j = 0 \<or> (l_type (p_layer pkt ?k) \<noteq> ARS_TYPE_IP6 \<and> l_type (p_layer pkt ?k) \<noteq> ARS_TYPE_IP)"
    | "j \<noteq> 0" "l_type (p_layer pkt ?k) = ARS_TYPE_IP" by argo
  then show ?goal
  proof cases
    case 1
    then show ?thesis using sums_ip6_pseudo [of j al] pkt
      unfolding sums_def ars_udptcp_cksum_def Let_def by auto
  next
    case 2
    then show ?thesis unfolding ars_udptcp_cksum_def Let_def by auto
  next
    case 3
    have "?k < p_layer_nr pkt" using skip_ipopt_left_le [of pkt "j - 1"] pkt 3 by linarith
    then have "layer_wf (p_layer pkt ?k)" using pkt by (simp add: pkt_wf_def)
    with 3 obtain s d where "rd pkt ?k 12 4 = Some s" "rd pkt ?k 16 4 = Some d"
      using rd_defined [of pkt ?k 12 4] rd_defined [of pkt ?k 16 4] by (auto simp: hdr_min_def)
    with 3 pkt show ?thesis by (simp add: ars_udptcp_cksum_def Let_def cksum_live)
  qed
qed

lemma sums_plain: "sums j (plain_cksum j)"
  unfolding sums_def plain_cksum_def by (simp add: cksum_live)

section \<open>Every compiler is safe\<close>

lemma wf_edits_wr8: "off < n \<Longrightarrow> wf_edits i n (\<lambda>p. wr8 i off (f p) p)"
  by (rule wf_edits_fun) (auto intro: edits_wr8)

lemma wf_edits_wr16: "off + 2 \<le> n \<Longrightarrow> wf_edits i n (\<lambda>p. wr16 i off (f p) p)"
  by (rule wf_edits_fun) (auto intro: edits_wr16)

lemma wf_edits_wr_hi: "off < n \<Longrightarrow> wf_edits i n (wr_hi i off v)"
  by (rule edits_wf_edits) (auto intro: edits_wr_hi)

lemmas compiler_steps = wf_edits_unless wf_edits_ip_hdrlen wf_edits_ip_check wf_edits_ip_protocol
  wf_edits_ip6_version wf_edits_tcp_hdrlen wf_edits_wr8 wf_edits_wr16 wf_edits_wr_hi

lemma ip_compiles:
  assumes "pkt_wf pkt" "j < p_layer_nr pkt" "20 \<le> layer_len (p_layer pkt j)"
  shows "compiles j pkt (ars_compiler_ip al pkt j)"
  unfolding ars_compiler_ip_def Let_def
  by (intro compiles_edit [where n = "layer_len (p_layer pkt j)"] compiles_edit_last [where n = "layer_len (p_layer pkt j)"] compiler_steps)
    (use assms in \<open>simp_all\<close>)

lemma ip6_compiles:
  assumes "pkt_wf pkt" "j < p_layer_nr pkt" "40 \<le> layer_len (p_layer pkt j)"
  shows "compiles j pkt (ars_compiler_ip6 al pkt j)"
  unfolding ars_compiler_ip6_def Let_def
  by (intro compiles_edit [where n = "layer_len (p_layer pkt j)"] compiles_edit_last [where n = "layer_len (p_layer pkt j)"] compiler_steps)
    (use assms in \<open>simp_all\<close>)

lemma tcp_compiles:
  assumes "pkt_wf pkt" "j < p_layer_nr pkt" "20 \<le> layer_len (p_layer pkt j)"
  shows "compiles j pkt (ars_compiler_tcp al pkt j)"
proof (cases "ARS_DONTTAKE (l_flags (p_layer pkt j)) ARS_TAKE_TCP_CKSUM")
  case True
  show ?thesis
    unfolding ars_compiler_tcp_def Let_def if_P [OF True]
    by (intro compiles_edit [where n = "layer_len (p_layer pkt j)"] store_cksum_compiles sums_udptcp compiler_steps)
      (use assms in \<open>simp_all\<close>)
next
  case False
  show ?thesis
    unfolding ars_compiler_tcp_def Let_def if_not_P [OF False]
    by (intro compiles_edit_last [where n = "layer_len (p_layer pkt j)"] compiler_steps)
      (use assms in \<open>simp_all\<close>)
qed

lemma udp_compiles:
  assumes "pkt_wf pkt" "j < p_layer_nr pkt" "8 \<le> layer_len (p_layer pkt j)"
  shows "compiles j pkt (ars_compiler_udp al pkt j)"
proof (cases "ARS_DONTTAKE (l_flags (p_layer pkt j)) ARS_TAKE_UDP_CKSUM")
  case True
  show ?thesis
    unfolding ars_compiler_udp_def Let_def if_P [OF True]
    by (intro compiles_edit [where n = "layer_len (p_layer pkt j)"] store_cksum_compiles sums_udptcp compiler_steps)
      (use assms in \<open>simp_all\<close>)
next
  case False
  show ?thesis
    unfolding ars_compiler_udp_def Let_def if_not_P [OF False]
    by (intro compiles_edit_last [where n = "layer_len (p_layer pkt j)"] compiler_steps)
      (use assms in \<open>simp_all\<close>)
qed

lemma icmp_compiles:
  assumes "pkt_wf pkt" "j < p_layer_nr pkt" "8 \<le> layer_len (p_layer pkt j)"
  shows "compiles j pkt (ars_compiler_icmp al pkt j)"
  using assms by (simp add: ars_compiler_icmp_def store_cksum_compiles sums_plain compiles_refl)

lemma icmp6_compiles:
  assumes "pkt_wf pkt" "j < p_layer_nr pkt" "8 \<le> layer_len (p_layer pkt j)"
  shows "compiles j pkt (ars_compiler_icmp6 al pkt j)"
  using assms by (simp add: ars_compiler_icmp6_def store_cksum_compiles sums_ip6_pseudo compiles_refl)

lemma igrp_compiles:
  assumes "pkt_wf pkt" "j < p_layer_nr pkt" "12 \<le> layer_len (p_layer pkt j)"
  shows "compiles j pkt (ars_compiler_igrp al pkt j)"
  using assms by (simp add: ars_compiler_igrp_def store_cksum_compiles sums_plain compiles_refl)

text \<open>Padding of options: the layer grows in place, by \<open>NOP\<close>s.\<close>

definition opt_padding :: "ars_type \<Rightarrow> ars_packet \<Rightarrow> nat \<Rightarrow> nat" where
  "opt_padding t pkt layer =
     (if layer \<noteq> ARS_MAX_LAYER - 1 \<and> l_type (p_layer pkt (layer + 1)) = t then 0
      else (4 - (ars_relative_size pkt (first_of_run t pkt layer) - ars_relative_size pkt (layer + 1)) mod 4) mod 4)"

lemma compiler_opt_eq:
  assumes "layer_wf (p_layer pkt layer)"
  shows "\<exists>d. length d = l_size (p_layer pkt layer) + opt_padding t pkt layer \<and>
    d = layer_out (p_layer pkt layer) @ replicate (opt_padding t pkt layer) 1 \<and>
    compiler_opt t msg al pkt layer =
      (if opt_padding t pkt layer = 0 then Some (ARS_OK, pkt)
       else if \<not> al (length d) then Some (ARS_NOMEM, ars_set_error al msg pkt)
       else Some (ARS_OK, upd_layer layer (\<lambda>l. l\<lparr>l_data := Some d, l_size := length d\<rparr>) pkt))"
proof -
  define sz where "sz = ars_relative_size pkt (first_of_run t pkt layer) - ars_relative_size pkt (layer + 1)"
  define old where "old = (case l_data (p_layer pkt layer) of None \<Rightarrow> [] | Some d \<Rightarrow> d)"
  have old: "l_size (p_layer pkt layer) \<le> length old" "layer_out (p_layer pkt layer) = take (l_size (p_layer pkt layer)) old"
    using assms by (auto simp: layer_wf_def layer_len_def layer_out_def old_def split: option.splits)
  have pad: "(4 - sz mod 4) mod 4 = (if sz mod 4 = 0 then 0 else 4 - sz mod 4)" by auto
  have st: "st (brealloc (l_size (p_layer pkt layer) + n) old) (l_size (p_layer pkt layer)) (replicate n 1)
      = Some (layer_out (p_layer pkt layer) @ replicate n 1)" for n
    using old by (simp add: st_def brealloc_def)
  have pdd: "opt_padding t pkt layer = (if layer \<noteq> ARS_MAX_LAYER - 1 \<and> l_type (p_layer pkt (layer + 1)) = t then 0
      else if sz mod 4 = 0 then 0 else 4 - sz mod 4)"
    unfolding opt_padding_def sz_def [symmetric] pad ..
  have eq: "compiler_opt t msg al pkt layer =
     (if layer \<noteq> ARS_MAX_LAYER - 1 \<and> l_type (p_layer pkt (layer + 1)) = t then Some (ARS_OK, pkt)
      else if sz mod 4 = 0 then Some (ARS_OK, pkt)
      else if \<not> al (l_size (p_layer pkt layer) + (4 - sz mod 4)) then Some (ARS_NOMEM, ars_set_error al msg pkt)
      else Some (ARS_OK, upd_layer layer (\<lambda>l. l\<lparr>l_data := Some (layer_out (p_layer pkt layer) @ replicate (4 - sz mod 4) 1),
             l_size := l_size (p_layer pkt layer) + (4 - sz mod 4)\<rparr>) pkt))"
    unfolding compiler_opt_def Let_def sz_def [symmetric] old_def [symmetric] st Option.bind.bind_lunit ..
  show ?thesis
  proof (cases "opt_padding t pkt layer = 0")
    case True
    then show ?thesis unfolding eq using pdd length_layer_out [OF assms]
      by (intro exI [of _ "layer_out (p_layer pkt layer)"]) (auto split: if_splits)
  next
    case False
    then have ne: "\<not> (layer \<noteq> ARS_MAX_LAYER - 1 \<and> l_type (p_layer pkt (layer + 1)) = t)" "sz mod 4 \<noteq> 0"
      "opt_padding t pkt layer = 4 - sz mod 4" using pdd by (auto split: if_splits)
    define n where "n = 4 - sz mod 4"
    have "n \<noteq> 0" using mod_less_divisor [of 4 sz] by (simp add: n_def)
    then show ?thesis unfolding eq if_not_P [OF ne(1)] if_not_P [OF ne(2)] ne(3) n_def [symmetric]
      by (intro exI [of _ "layer_out (p_layer pkt layer) @ replicate n 1"]) (simp add: length_layer_out [OF assms])
  qed
qed

lemma opt_compiles:
  assumes "pkt_wf pkt" "j < p_layer_nr pkt" "l_type (p_layer pkt j) \<in> {ARS_TYPE_IPOPT, ARS_TYPE_TCPOPT}"
  shows "compiles j pkt (compiler_opt t msg al pkt j)"
proof -
  have wf: "layer_wf (p_layer pkt j)" using assms(1,2) by (rule pkt_wf_below)
  obtain d where d: "length d = l_size (p_layer pkt j) + opt_padding t pkt j"
      "d = layer_out (p_layer pkt j) @ replicate (opt_padding t pkt j) 1"
      "compiler_opt t msg al pkt j =
      (if opt_padding t pkt j = 0 then Some (ARS_OK, pkt)
       else if \<not> al (length d) then Some (ARS_NOMEM, ars_set_error al msg pkt)
       else Some (ARS_OK, upd_layer j (\<lambda>l. l\<lparr>l_data := Some d, l_size := length d\<rparr>) pkt))"
    using compiler_opt_eq [OF wf] by blast
  show ?thesis
  proof (cases "opt_padding t pkt j = 0 \<or> \<not> al (length d)")
    case True
    then show ?thesis using assms(1) by (auto simp: d(3) compiles_refl compiles_error)
  next
    case False
    let ?p = "upd_layer j (\<lambda>l. l\<lparr>l_data := Some d, l_size := length d\<rparr>) pkt"
    have "layer_wf (p_layer ?p j)"
      using wf False assms(3) by (auto simp: layer_wf_def layer_len_def d(1) hdr_min_def)
    then have "pkt_wf ?p" using assms(1,2) by (auto simp: pkt_wf_def)
    then show ?thesis using False assms(3) by (auto simp: d(3) compiles_def)
  qed
qed

lemma layer_compiles:
  assumes "pkt_wf pkt" "j < p_layer_nr pkt"
  shows "compiles j pkt (compile_layer al pkt j)"
proof -
  have len: "hdr_min (l_type (p_layer pkt j)) \<le> layer_len (p_layer pkt j)"
    using pkt_wf_below [OF assms] by (simp add: layer_wf_def)
  show ?thesis
    using len assms unfolding compile_layer_def li_compiler_def
    by (cases "l_type (p_layer pkt j)")
      (simp_all add: hdr_min_def compiles_refl ip_compiles ip6_compiles tcp_compiles udp_compiles icmp_compiles
        icmp6_compiles igrp_compiles ars_compiler_ipopt_def ars_compiler_tcpopt_def opt_compiles)
qed

text \<open>The whole packet.\<close>

definition same_shape :: "ars_packet \<Rightarrow> ars_packet \<Rightarrow> bool" where
  "same_shape pkt pkt' \<longleftrightarrow> p_layer_nr pkt' = p_layer_nr pkt \<and>
     (\<forall>k. l_type (p_layer pkt' k) = l_type (p_layer pkt k) \<and> l_flags (p_layer pkt' k) = l_flags (p_layer pkt k))"

lemma compile_loop_safe:
  assumes "pkt_wf pkt" "j \<le> p_layer_nr pkt"
  shows "\<exists>r pkt'. compile_loop al pkt j = Some (r, pkt') \<and> pkt_wf pkt' \<and> same_shape pkt pkt'
    \<and> (\<forall>k \<ge> j. p_layer pkt' k = p_layer pkt k)"
  using assms
proof (induction j arbitrary: pkt)
  case 0
  then show ?case by (simp add: same_shape_def)
next
  case (Suc j)
  then obtain r p where p: "compile_layer al pkt j = Some (r, p)" "pkt_wf p" "p_layer_nr p = p_layer_nr pkt"
    "\<forall>k. k \<noteq> j \<longrightarrow> p_layer p k = p_layer pkt k" "l_type (p_layer p j) = l_type (p_layer pkt j)"
    "l_flags (p_layer p j) = l_flags (p_layer pkt j)"
    using layer_compiles [of pkt j al] by (auto simp: compiles_def Suc_le_eq)
  have shape: "same_shape pkt p"
    unfolding same_shape_def using p(3-6) by metis
  show ?case
  proof (cases "r = ARS_OK")
    case True
    obtain r' q where "compile_loop al p j = Some (r', q)" "pkt_wf q" "same_shape p q"
      "\<forall>k \<ge> j. p_layer q k = p_layer p k"
      using Suc.IH [OF p(2)] Suc.prems(2) p(3) by auto
    with shape p True show ?thesis by (simp add: same_shape_def)
  next
    case False
    with shape p show ?thesis by auto
  qed
qed

lemma compile_safe:
  "pkt_wf pkt \<Longrightarrow> \<exists>r pkt'. ars_compile al pkt = Some (r, pkt') \<and> pkt_wf pkt' \<and> same_shape pkt pkt'"
  using compile_loop_safe [of pkt "p_layer_nr pkt" al] by (auto simp: ars_compile_def)

end
