(* ===== verification/Wire.thy ===== *)
theory Wire
  imports Compile
begin

text \<open>
  What a receiver sees: the fields and checksums of a compiled packet and the datagram that
  \<open>ars_build_packet\<close> makes of it (\<open>src/ars.c\<close>).  The lemmas follow one field through the
  statements of a compiler: every statement writes a known set of offsets of one block.
\<close>

section \<open>Which bytes a statement writes\<close>

definition data_of :: "ars_packet \<Rightarrow> nat \<Rightarrow> bytes" where
  "data_of pkt i = (case l_data (p_layer pkt i) of None \<Rightarrow> [] | Some d \<Rightarrow> d)"

definition writes :: "nat \<Rightarrow> nat set \<Rightarrow> ars_packet \<Rightarrow> ars_packet \<Rightarrow> bool" where
  "writes i S pkt pkt' \<longleftrightarrow> (\<exists>d. pkt' = (if l_data (p_layer pkt i) = None then pkt else set_data i d pkt) \<and>
     length d = length (data_of pkt i) \<and> (\<forall>k < length d. k \<notin> S \<longrightarrow> d ! k = data_of pkt i ! k))"

lemma data_of_set_data [simp]: "data_of (set_data i d pkt) k = (if k = i then d else data_of pkt k)"
  by (simp add: data_of_def)

lemma data_of_Some: "l_data (p_layer pkt i) = Some d \<Longrightarrow> data_of pkt i = d"
  by (simp add: data_of_def)

lemma layer_len_data_of: "layer_len (p_layer pkt i) = length (data_of pkt i)"
  by (simp add: layer_len_def data_of_def split: option.splits)

lemma writes_refl: "writes i S pkt pkt"
  unfolding writes_def
  by (rule exI [of _ "data_of pkt i"]) (auto simp: data_of_def set_data_same)

lemma writes_length: "writes i S p q \<Longrightarrow> length (data_of q i) = length (data_of p i)"
  by (auto simp: writes_def split: if_splits)

lemma writes_nth: "writes i S p q \<Longrightarrow> k \<notin> S \<Longrightarrow> k < length (data_of p i) \<Longrightarrow> data_of q i ! k = data_of p i ! k"
  by (auto simp: writes_def split: if_splits)

lemma writes_other: "writes i S p q \<Longrightarrow> k \<noteq> i \<Longrightarrow> p_layer q k = p_layer p k"
  by (auto simp: writes_def split: if_splits)

lemma writes_fields:
  "writes i S p q \<Longrightarrow> p_layer_nr q = p_layer_nr p"
  "writes i S p q \<Longrightarrow> l_type (p_layer q k) = l_type (p_layer p k)"
  "writes i S p q \<Longrightarrow> l_size (p_layer q k) = l_size (p_layer p k)"
  "writes i S p q \<Longrightarrow> l_flags (p_layer q k) = l_flags (p_layer p k)"
  "writes i S p q \<Longrightarrow> l_data (p_layer q k) = None \<longleftrightarrow> l_data (p_layer p k) = None"
  by (auto simp: writes_def split: if_splits)

lemma writes_trans:
  assumes "writes i S p q" "writes i T q r"
  shows "writes i (S \<union> T) p r"
proof (cases "l_data (p_layer p i) = None")
  case True
  then show ?thesis using assms by (auto simp: writes_def split: if_splits)
next
  case False
  then obtain d e where d: "q = set_data i d p" "length d = length (data_of p i)"
      "\<forall>k < length d. k \<notin> S \<longrightarrow> d ! k = data_of p i ! k"
    and e: "r = set_data i e q" "length e = length d" "\<forall>k < length e. k \<notin> T \<longrightarrow> e ! k = d ! k"
    using assms by (auto simp: writes_def)
  then show ?thesis using False unfolding writes_def
    by (intro exI [of _ e]) auto
qed

lemma writes_mono: "writes i S p q \<Longrightarrow> S \<subseteq> T \<Longrightarrow> writes i T p q"
  unfolding writes_def by blast

lemma wr_writes:
  assumes "wr i off bs p = Some q"
  shows "writes i {off..<off + length bs} p q \<and> take (length bs) (drop off (data_of q i)) = bs
    \<and> off + length bs \<le> length (data_of p i)"
proof -
  obtain d d' where d: "l_data (p_layer p i) = Some d" "st d off bs = Some d'" "q = set_data i d' p"
    using assms by (auto simp: wr_def split: option.splits)
  have "k \<notin> {off..<off + length bs} \<Longrightarrow> k < length d \<Longrightarrow> d' ! k = d ! k" for k
    using st_nth_other [OF d(2), of k] by auto
  moreover have "take (length bs) (drop off d') = bs" "off + length bs \<le> length d"
    using st_SomeD [OF d(2)] by auto
  ultimately show ?thesis using d length_st [OF d(2)]
    by (auto simp: writes_def data_of_def intro!: exI [of _ d'])
qed

lemma wr8_writes:
  "wr8 i off b p = Some q \<Longrightarrow> writes i {off} p q \<and> data_of q i ! off = b \<and> off < length (data_of p i)"
proof -
  assume "wr8 i off b p = Some q"
  then have w: "writes i {off..<off + 1} p q" "take 1 (drop off (data_of q i)) = [b]" "off + 1 \<le> length (data_of p i)"
    using wr_writes [of i off "[b]" p q] by (simp_all add: wr8_def)
  moreover have "{off..<off + 1} = {off}" by auto
  moreover have "data_of q i ! off = b"
    using w writes_length [OF w(1)] by (cases "drop off (data_of q i)") (auto simp: nth_via_drop)
  ultimately show ?thesis by simp
qed

lemma wr16_writes:
  "wr16 i off w p = Some q \<Longrightarrow> writes i {off, Suc off} p q \<and> take 2 (drop off (data_of q i)) = bytes16 w
    \<and> off + 2 \<le> length (data_of p i)"
proof -
  assume "wr16 i off w p = Some q"
  then have "writes i {off..<off + 2} p q" "take 2 (drop off (data_of q i)) = bytes16 w" "off + 2 \<le> length (data_of p i)"
    using wr_writes [of i off "bytes16 w" p q] by (simp_all add: wr16_def)
  moreover have "{off..<off + 2} = {off, Suc off}" by auto
  ultimately show ?thesis by simp
qed

lemma wr_lo_writes:
  "wr_lo i off v p = Some q \<Longrightarrow> writes i {off} p q \<and> data_of q i ! off = set_lo (data_of p i ! off) v"
  by (auto simp: wr_lo_def rd8_def ld8_def data_of_Some split: bind_splits option.splits if_splits dest!: wr8_writes)

lemma wr_hi_writes:
  "wr_hi i off v p = Some q \<Longrightarrow> writes i {off} p q \<and> data_of q i ! off = set_hi (data_of p i ! off) v"
  by (auto simp: wr_hi_def rd8_def ld8_def data_of_Some split: bind_splits option.splits if_splits dest!: wr8_writes)

lemma wr32_writes: "wr32 i off w p = Some q \<Longrightarrow> writes i {off..<off + 4} p q"
  using wr_writes [of i off "bytes32 w" p q] by (simp add: wr32_def)

lemma unless_writes:
  assumes "unless_taken flags x f p = Some q" "\<And>q. f p = Some q \<Longrightarrow> writes i S p q"
  shows "writes i S p q"
  using assms by (auto simp: unless_taken_def writes_refl split: if_splits)

section \<open>The IP compiler\<close>

lemma bit_nibble_masks: "bit (0xf :: u8) n \<longleftrightarrow> n < 4" "bit (0xf0 :: u8) n \<longleftrightarrow> 4 \<le> n \<and> n < 8"
proof -
  have eq: "(0xf :: u8) = mask 4" "(0xf0 :: u8) = push_bit 4 (mask 4)"
    by (simp_all add: mask_eq_exp_minus_1 push_bit_eq_mult)
  show "bit (0xf :: u8) n \<longleftrightarrow> n < 4" "bit (0xf0 :: u8) n \<longleftrightarrow> 4 \<le> n \<and> n < 8"
    unfolding eq by (auto simp only: bit_push_bit_iff bit_mask_iff possible_bit_word) auto
qed

lemma set_lo_nibbles:
  "set_lo b v AND 0xf = v AND 0xf" "drop_bit 4 (set_lo b v) = drop_bit 4 b"
proof -
  show "set_lo b v AND 0xf = v AND 0xf"
    by (rule bit_word_eqI) (auto simp: set_lo_def bit_simps bit_nibble_masks simp del: bit_numeral_word_iff dest: bit_imp_le_length)
  show "drop_bit 4 (set_lo b v) = drop_bit 4 b"
    by (rule bit_word_eqI) (auto simp: set_lo_def bit_simps bit_nibble_masks simp del: bit_numeral_word_iff dest: bit_imp_le_length)
qed

lemma set_hi_nibbles:
  "set_hi b v AND 0xf = b AND 0xf" "drop_bit 4 (set_hi b v) = v AND 0xf"
proof -
  show "set_hi b v AND 0xf = b AND 0xf"
    by (rule bit_word_eqI) (auto simp: set_hi_def bit_simps bit_nibble_masks simp del: bit_numeral_word_iff dest: bit_imp_le_length)
  show "drop_bit 4 (set_hi b v) = v AND 0xf"
    by (rule bit_word_eqI) (auto simp: set_hi_def bit_simps bit_nibble_masks simp del: bit_numeral_word_iff dest: bit_imp_le_length)
qed

lemma add_and_0xf: "((a :: u8) + b) AND 0xf = ((a AND 0xf) + b) AND 0xf"
proof (rule word_unat_eqI)
  have "k mod 256 mod 16 = k mod 16" for k :: nat by (rule mod_mod_cancel) simp
  then have "(unat a + unat b) mod 256 mod 16 = (unat a mod 16 + unat b) mod 256 mod 16"
    by (simp only: mod_add_left_eq)
  then show "unat ((a + b) AND 0xf) = unat (((a AND 0xf) + b) AND 0xf)"
    by (simp add: and_0xf_unat unat_word_ariths)
qed

text \<open>The header length in words of an IP or TCP header with \<open>n\<close> bytes of options, as stored.\<close>

definition hdr_words :: "nat \<Rightarrow> u8" where
  "hdr_words n = (5 + of_nat (n div 4)) AND 0xf"

lemma ip_hdrlen_writes:
  assumes "ip_hdrlen i p = Some q"
  shows "writes i {0} p q" "data_of q i ! 0 AND 0xf = hdr_words (opts_size ARS_TYPE_IPOPT p (i + 1))"
    "drop_bit 4 (data_of q i ! 0) = drop_bit 4 (data_of p i ! 0)"
proof -
  obtain r where r: "wr_lo i 0 5 p = Some r"
      "wr_lo i 0 (data_of r i ! 0 + of_nat (opts_size ARS_TYPE_IPOPT r (i + 1) div 4)) r = Some q"
    using assms by (auto simp: ip_hdrlen_def rd8_def ld8_def data_of_Some split: bind_splits option.splits if_splits)
  note w = wr_lo_writes [OF r(1)] wr_lo_writes [OF r(2)]
  show "writes i {0} p q" using w writes_trans [of i "{0}" p r "{0}" q] by simp
  have same: "opts_size ARS_TYPE_IPOPT r (i + 1) = opts_size ARS_TYPE_IPOPT p (i + 1)"
    unfolding opts_size_def using writes_fields [of i "{0}" p r] w by (subst span_sizes_cong [of r p]) auto
  show "data_of q i ! 0 AND 0xf = hdr_words (opts_size ARS_TYPE_IPOPT p (i + 1))"
    using w by (simp add: set_lo_nibbles same [simplified] add_and_0xf [of "set_lo _ _"] hdr_words_def)
  show "drop_bit 4 (data_of q i ! 0) = drop_bit 4 (data_of p i ! 0)"
    using w by (simp add: set_lo_nibbles)
qed

lemma ip_protocol_writes:
  assumes "ip_protocol i j p = Some q"
  shows "writes i {9} p q"
    "data_of q i ! 9 = (let k = j + length (span_layers (\<lambda>t. t = ARS_TYPE_IPOPT) p j)
       in if k < ARS_MAX_LAYER then ip_proto_of (l_type (p_layer p k)) else ARS_IPPROTO_RAW)"
  using assms wr8_writes unfolding ip_protocol_def Let_def by blast+

text \<open>\<open>off\<close> is where the checksum is kept in the bytes that are summed, \<open>pre\<close> and \<open>post\<close> stand
  for what is around it.\<close>

lemma split_at_field:
  assumes "off + 2 \<le> length d"
  shows "d = take off d @ take 2 (drop off d) @ drop (off + 2) d"
  by (metis add.commute append_take_drop_id drop_drop)

lemma nth_eq_takeI:
  "length d = length e \<Longrightarrow> (\<And>k. k < length e \<Longrightarrow> k < off \<Longrightarrow> d ! k = e ! k) \<Longrightarrow> take off d = take off e"
  by (rule nth_equalityI) auto

lemma nth_eq_dropI:
  "length d = length e \<Longrightarrow> (\<And>k. k < length e \<Longrightarrow> off \<le> k \<Longrightarrow> d ! k = e ! k) \<Longrightarrow> drop off d = drop off e"
  by (rule nth_equalityI) auto

lemma writes_field_take:
  assumes "writes i {off, Suc off} p q"
  shows "take off (data_of q i) = take off (data_of p i)" "drop (off + 2) (data_of q i) = drop (off + 2) (data_of p i)"
  using writes_length [OF assms] writes_nth [OF assms]
  by (auto intro!: nth_eq_takeI nth_eq_dropI)

text \<open>The bytes that the IP header checksum covers: the fixed header and the options.\<close>

definition ip_header_bytes :: "ars_packet \<Rightarrow> nat \<Rightarrow> bytes" where
  "ip_header_bytes pkt i = take ARS_IPHDR_SIZE (data_of pkt i)
     @ concat (map layer_out (span_layers (\<lambda>t. t = ARS_TYPE_IPOPT) pkt (i + 1)))"

lemma ip_check_writes:
  assumes "ip_check i p = Some q" "pkt_wf p" "i < p_layer_nr p"
    "length (ip_header_bytes p i) \<le> 131074"
  shows "writes i {10, 11} p q" "ars_cksum (ip_header_bytes q i) = 0"
proof -
  let ?opts = "concat (map layer_out (span_layers (\<lambda>t. t = ARS_TYPE_IPOPT) p (i + 1)))"
  obtain r hdr ck where r: "wr16 i 10 0 p = Some r" "rd r i 0 20 = Some hdr"
      "cksum_layers [hdr] (span_layers (\<lambda>t. t = ARS_TYPE_IPOPT) r (i + 1)) = Some ck" "wr16 i 10 ck r = Some q"
    using assms(1) by (auto simp: ip_check_def split: bind_splits)
  note w = wr16_writes [OF r(1)] and v = wr16_writes [OF r(4)]
  show "writes i {10, 11} p q" using w v writes_trans [of i "{10, 11}" p r "{10, 11}" q] by simp
  have opts: "span_layers P r (i + 1) = span_layers P p (i + 1)" "span_layers P q (i + 1) = span_layers P p (i + 1)" for P
    using w v writes_other by (intro span_layers_cong; force)+
  have wf: "l \<in> set (span_layers (\<lambda>t. t = ARS_TYPE_IPOPT) p (i + 1)) \<Longrightarrow> layer_wf l" for l
    by (rule span_layers_wf [OF assms(2)]) simp_all
  have hdr: "hdr = take 20 (data_of r i)" "20 \<le> length (data_of r i)"
    using r(2) by (auto simp: rd_def data_of_def dest!: ld_SomeD split: option.splits)
  have ck: "ck = ars_cksum (hdr @ ?opts)"
    using r(3) cksum_layers_eq [OF wf, of _ "[hdr]"] unfolding opts by simp
  define d where "d = data_of p i"
  have len: "length (data_of r i) = length d" "length (data_of q i) = length d"
    using w v writes_length by (auto simp: d_def)
  have tk: "take 10 (data_of r i) = take 10 d" "take 10 (data_of q i) = take 10 d"
    "drop 12 (data_of r i) = drop 12 d" "drop 12 (data_of q i) = drop 12 d"
    using writes_field_take [of i 10 p r] writes_field_take [of i 10 r q] w v by (simp_all add: d_def)
  have split: "take 20 x = take 10 x @ take 2 (drop 10 x) @ take 8 (drop 12 x)" for x :: bytes
    using take_add [of 10 10 x] take_add [of 2 8 "drop 10 x"] by simp
  have "ip_header_bytes q i = take 10 d @ bytes16 ck @ (take 8 (drop 12 d) @ ?opts)"
    using v tk by (simp add: ip_header_bytes_def opts [simplified] split [of "data_of q i"])
  moreover have "hdr @ ?opts = take 10 d @ [0, 0] @ (take 8 (drop 12 d) @ ?opts)"
    using w tk by (simp add: hdr split [of "data_of r i"] bytes16_def)
  moreover have "length (take 10 d) = 10" "length (take 10 d) + 2 + length (take 8 (drop 12 d) @ ?opts) \<le> 131074"
    using hdr(2) len assms(4) by (simp_all add: ip_header_bytes_def d_def)
  ultimately show "ars_cksum (ip_header_bytes q i) = 0"
    using cksum_receiver [of "take 10 d" "take 8 (drop 12 d) @ ?opts"] ck by simp
qed

text \<open>The next protocol, from the layer behind the IP header and its options.\<close>

definition ip_proto_byte :: "ars_packet \<Rightarrow> nat \<Rightarrow> u8" where
  "ip_proto_byte p i =
     (let j = ip_next_index p i; k = j + length (span_layers (\<lambda>t. t = ARS_TYPE_IPOPT) p j)
      in if k < ARS_MAX_LAYER then ip_proto_of (l_type (p_layer p k)) else ARS_IPPROTO_RAW)"

lemma unless_taken_cases:
  assumes "unless_taken flags x f p = Some q"
  obtains "ARS_DONTTAKE flags x" "f p = Some q" | "\<not> ARS_DONTTAKE flags x" "q = p"
  using assms by (auto simp: unless_taken_def split: if_splits)

lemma span_length_cong:
  "(\<And>k. l_type (p_layer q k) = l_type (p_layer p k) \<and> l_size (p_layer q k) = l_size (p_layer p k)) \<Longrightarrow>
     length (span_layers P q j) = length (span_layers P p j)"
  using span_sizes_cong [of q p P j] by (metis length_map)

lemma relative_size_cong:
  "(\<And>k. l_type (p_layer q k) = l_type (p_layer p k) \<and> l_size (p_layer q k) = l_size (p_layer p k)) \<Longrightarrow>
     ars_relative_size q j = ars_relative_size p j"
  by (simp add: ars_relative_size_def span_sizes_cong [of q p])

text \<open>The statements of the IP compiler one after the other.\<close>

lemma ip_compiler_steps:
  assumes "ars_compiler_ip al p i = Some (r, q)"
  obtains p1 p2 p3 p4 where
    "unless_taken (l_flags (p_layer p i)) ARS_TAKE_IP_VERSION (wr_hi i 0 4) p = Some p1" "writes i {0} p p1"
    "unless_taken (l_flags (p_layer p i)) ARS_TAKE_IP_HDRLEN (ip_hdrlen i) p1 = Some p2" "writes i {0} p1 p2"
    "unless_taken (l_flags (p_layer p i)) ARS_TAKE_IP_TOTLEN
       (\<lambda>p. wr16 i 2 (htons (of_nat (ars_relative_size p i))) p) p2 = Some p3" "writes i {2, 3} p2 p3"
    "unless_taken (l_flags (p_layer p i)) ARS_TAKE_IP_PROTOCOL (ip_protocol i (ip_next_index p i)) p3 = Some p4" "writes i {9} p3 p4"
    "unless_taken (l_flags (p_layer p i)) ARS_TAKE_IP_CKSUM (ip_check i) p4 = Some q" "r = ARS_OK"
proof -
  let ?u = "unless_taken (l_flags (p_layer p i))"
  obtain p1 p2 p3 p4 where s: "?u ARS_TAKE_IP_VERSION (wr_hi i 0 4) p = Some p1"
    "?u ARS_TAKE_IP_HDRLEN (ip_hdrlen i) p1 = Some p2"
    "?u ARS_TAKE_IP_TOTLEN (\<lambda>p. wr16 i 2 (htons (of_nat (ars_relative_size p i))) p) p2 = Some p3"
    "?u ARS_TAKE_IP_PROTOCOL (ip_protocol i (ip_next_index p i)) p3 = Some p4"
    "?u ARS_TAKE_IP_CKSUM (ip_check i) p4 = Some q" "r = ARS_OK"
    using assms by (auto simp: ars_compiler_ip_def Let_def split: bind_splits)
  have "writes i {0} p p1" by (rule unless_writes [OF s(1)]) (simp add: wr_hi_writes)
  moreover have "writes i {0} p1 p2" by (rule unless_writes [OF s(2)]) (rule ip_hdrlen_writes)
  moreover have "writes i {2, 3} p2 p3"
    by (rule unless_writes [OF s(3)]) (use wr16_writes in \<open>fastforce simp: numeral_3_eq_3 numeral_2_eq_2\<close>)
  moreover have "writes i {9} p3 p4" by (rule unless_writes [OF s(4)]) (rule ip_protocol_writes)
  ultimately show thesis using s that by blast
qed

lemma ip_check_outside:
  assumes "ip_check i p = Some q" shows "writes i {10, 11} p q"
proof -
  obtain r ck where "wr16 i 10 0 p = Some r" "wr16 i 10 ck r = Some q"
    using assms by (auto simp: ip_check_def split: bind_splits)
  then show ?thesis
    using wr16_writes [of i 10 0 p r] wr16_writes [of i 10 ck r q] writes_trans [of i "{10, 11}" p r "{10, 11}" q] by simp
qed

lemma ip_writes:
  assumes "ars_compiler_ip al p i = Some (r, q)"
  shows "writes i {0, 2, 3, 9, 10, 11} p q"
proof (rule ip_compiler_steps [OF assms])
  fix p1 p2 p3 p4
  assume w: "writes i {0} p p1" "writes i {0} p1 p2" "writes i {2, 3} p2 p3" "writes i {9} p3 p4"
    and c: "unless_taken (l_flags (p_layer p i)) ARS_TAKE_IP_CKSUM (ip_check i) p4 = Some q"
  have "writes i {10, 11} p4 q" by (rule unless_writes [OF c ip_check_outside])
  from writes_trans [OF writes_trans [OF writes_trans [OF writes_trans [OF w(1,2)] w(3)] w(4)] this]
  show ?thesis by (rule writes_mono) auto
qed

lemma writes_wf: "writes i S p q \<Longrightarrow> pkt_wf p \<Longrightarrow> i < p_layer_nr p \<Longrightarrow> pkt_wf q"
  by (auto simp: writes_def layer_len_data_of split: if_splits intro!: set_data_wf)

lemma writes_shape:
  "writes i S p q \<Longrightarrow> l_type (p_layer q k) = l_type (p_layer p k) \<and> l_size (p_layer q k) = l_size (p_layer p k)"
  by (simp add: writes_fields)

lemma take2_nth: "off + 2 \<le> length d \<Longrightarrow> take 2 (drop off d) = [d ! off, d ! Suc off]"
  by (simp add: take_drop flip: Cons_nth_drop_Suc)

lemma writes_field:
  assumes "writes i S p q" "off \<notin> S" "Suc off \<notin> S" "off + 2 \<le> length (data_of p i)"
  shows "take 2 (drop off (data_of q i)) = take 2 (drop off (data_of p i))"
  using assms writes_length [OF assms(1)] writes_nth [OF assms(1)] by (simp add: take2_nth)

lemma first_of_proto:
  assumes "writes i S p q"
  shows "ip_proto_byte q i = ip_proto_byte p i" "ip_next_index q i = ip_next_index p i"
    "(let k = j + length (span_layers P q j) in if k < ARS_MAX_LAYER then ip_proto_of (l_type (p_layer q k)) else ARS_IPPROTO_RAW)
      = (let k = j + length (span_layers P p j) in if k < ARS_MAX_LAYER then ip_proto_of (l_type (p_layer p k)) else ARS_IPPROTO_RAW)"
  using writes_shape [OF assms] span_length_cong [of q p] writes_fields(4) [OF assms]
  by (simp_all add: ip_proto_byte_def ip_next_index_def Let_def)

lemma ip_fields:
  assumes "ars_compiler_ip al p i = Some (r, q)" "pkt_wf p" "i < p_layer_nr p" "20 \<le> layer_len (p_layer p i)"
    "length (ip_header_bytes p i) \<le> 131074"
  defines "d \<equiv> data_of q i" and "fl \<equiv> l_flags (p_layer p i)"
  shows "ARS_DONTTAKE fl ARS_TAKE_IP_VERSION \<Longrightarrow> drop_bit 4 (d ! 0) = 4"
    and "ARS_DONTTAKE fl ARS_TAKE_IP_HDRLEN \<Longrightarrow> d ! 0 AND 0xf = hdr_words (opts_size ARS_TYPE_IPOPT p (i + 1))"
    and "ARS_DONTTAKE fl ARS_TAKE_IP_TOTLEN \<Longrightarrow> take 2 (drop 2 d) = bytes16 (htons (of_nat (ars_relative_size p i)))"
    and "ARS_DONTTAKE fl ARS_TAKE_IP_PROTOCOL \<Longrightarrow> d ! 9 = ip_proto_byte p i"
    and "ARS_DONTTAKE fl ARS_TAKE_IP_CKSUM \<Longrightarrow> ars_cksum (ip_header_bytes q i) = 0"
proof -
  obtain p1 p2 p3 p4 where
    s: "unless_taken fl ARS_TAKE_IP_VERSION (wr_hi i 0 4) p = Some p1"
       "unless_taken fl ARS_TAKE_IP_HDRLEN (ip_hdrlen i) p1 = Some p2"
       "unless_taken fl ARS_TAKE_IP_TOTLEN (\<lambda>p. wr16 i 2 (htons (of_nat (ars_relative_size p i))) p) p2 = Some p3"
       "unless_taken fl ARS_TAKE_IP_PROTOCOL (ip_protocol i (ip_next_index p i)) p3 = Some p4"
       "unless_taken fl ARS_TAKE_IP_CKSUM (ip_check i) p4 = Some q"
    and w: "writes i {0} p p1" "writes i {0} p1 p2" "writes i {2, 3} p2 p3" "writes i {9} p3 p4"
    by (rule ip_compiler_steps [OF assms(1), folded fl_def]) (rule that; assumption)
  have w5: "writes i {10, 11} p4 q" by (rule unless_writes [OF s(5) ip_check_outside])
  have w02: "writes i {0} p p2" using writes_trans [OF w(1,2)] by simp
  have w03: "writes i {0, 2, 3} p p3" using writes_trans [OF w02 w(3)] by (rule writes_mono) auto
  have w04: "writes i {0, 2, 3, 9} p p4" using writes_trans [OF w03 w(4)] by (rule writes_mono) auto
  have w35: "writes i {9, 10, 11} p3 q" using writes_trans [OF w(4) w5] by (rule writes_mono) auto
  have w25: "writes i {2, 3, 9, 10, 11} p2 q" using writes_trans [OF w(3) w35] by (rule writes_mono) auto
  have len: "20 \<le> length (data_of p i)" using assms(4) by (simp add: layer_len_data_of)
  note lens = writes_length [OF w(1)] writes_length [OF w02] writes_length [OF w03] writes_length [OF w04] writes_length [OF w35]
  have b0: "data_of q i ! 0 = data_of p2 i ! 0"
    by (rule writes_nth [OF w25]) (use len lens in auto)
  show "drop_bit 4 (d ! 0) = 4" if "ARS_DONTTAKE fl ARS_TAKE_IP_VERSION"
  proof -
    have "drop_bit 4 (data_of p1 i ! 0) = 4"
      using s(1) that by (auto simp: unless_taken_def set_hi_nibbles dest!: wr_hi_writes)
    moreover have "drop_bit 4 (data_of p2 i ! 0) = drop_bit 4 (data_of p1 i ! 0)"
      using s(2) by (rule unless_taken_cases) (simp_all add: ip_hdrlen_writes)
    ultimately show ?thesis using b0 by (simp add: d_def)
  qed
  show "d ! 0 AND 0xf = hdr_words (opts_size ARS_TYPE_IPOPT p (i + 1))" if "ARS_DONTTAKE fl ARS_TAKE_IP_HDRLEN"
  proof -
    have "data_of p2 i ! 0 AND 0xf = hdr_words (opts_size ARS_TYPE_IPOPT p1 (i + 1))"
      using s(2) that by (intro ip_hdrlen_writes) (simp add: unless_taken_def)
    moreover have "opts_size ARS_TYPE_IPOPT p1 (i + 1) = opts_size ARS_TYPE_IPOPT p (i + 1)"
      unfolding opts_size_def using writes_shape [OF w(1)] by (subst span_sizes_cong [of p1 p]) auto
    ultimately show ?thesis using b0 by (simp add: d_def)
  qed
  show "take 2 (drop 2 d) = bytes16 (htons (of_nat (ars_relative_size p i)))" if "ARS_DONTTAKE fl ARS_TAKE_IP_TOTLEN"
  proof -
    have "take 2 (drop 2 (data_of p3 i)) = bytes16 (htons (of_nat (ars_relative_size p2 i)))"
      using s(3) that wr16_writes unfolding unless_taken_def by auto
    moreover have "ars_relative_size p2 i = ars_relative_size p i"
      using writes_shape [OF w02] by (rule relative_size_cong)
    ultimately show ?thesis using writes_field [OF w35, of 2] len lens by (simp add: d_def)
  qed
  show "d ! 9 = ip_proto_byte p i" if "ARS_DONTTAKE fl ARS_TAKE_IP_PROTOCOL"
  proof -
    have "data_of p4 i ! 9 = ip_proto_byte p i"
      using s(4) that ip_protocol_writes(2) [of i "ip_next_index p i" p3 p4] first_of_proto(3) [OF w03]
      by (simp add: unless_taken_def ip_proto_byte_def Let_def)
    then show ?thesis using writes_nth [OF w5, of 9] len lens by (simp add: d_def)
  qed
  show "ars_cksum (ip_header_bytes q i) = 0" if "ARS_DONTTAKE fl ARS_TAKE_IP_CKSUM"
  proof (rule ip_check_writes)
    show "ip_check i p4 = Some q" using s(5) that by (simp add: unless_taken_def)
    show "pkt_wf p4" "i < p_layer_nr p4" using writes_wf [OF w04] writes_fields(1) [OF w04] assms(2,3) by simp_all
    have "span_layers P p4 (i + 1) = span_layers P p (i + 1)" for P
      using writes_other [OF w04] by (intro span_layers_cong) auto
    then show "length (ip_header_bytes p4 i) \<le> 131074"
      using assms(5) lens by (simp add: ip_header_bytes_def)
  qed
qed

section \<open>Transport checksums\<close>

lemma layer_out_data_of: "layer_out (p_layer p i) = take (l_size (p_layer p i)) (data_of p i)"
  by (simp add: layer_out_def data_of_def)

lemma pkt_out_Cons: "j < p_layer_nr p \<Longrightarrow> pkt_out p j = layer_out (p_layer p j) @ pkt_out p (Suc j)"
  by (simp add: pkt_out_def upt_conv_Cons)

lemma pkt_out_cong:
  assumes "p_layer_nr q = p_layer_nr p" "\<And>k. j \<le> k \<Longrightarrow> p_layer q k = p_layer p k"
  shows "pkt_out q j = pkt_out p j"
proof -
  have "map (p_layer q) [j..<p_layer_nr p] = map (p_layer p) [j..<p_layer_nr p]"
    using assms(2) by simp
  then show ?thesis by (simp only: pkt_out_def assms(1))
qed

lemma length_pkt_out_writes:
  assumes "writes i S p q" "pkt_wf p" "i < p_layer_nr p" "j \<le> p_layer_nr p"
  shows "length (pkt_out q j) = length (pkt_out p j)"
  using relative_size_eq [OF assms(2,4)] relative_size_eq [of q j] relative_size_cong [of q p j] writes_shape [OF assms(1)]
    writes_wf [OF assms(1-3)] writes_fields(1) [OF assms(1)] assms(4) by simp

text \<open>A checksum function that sums a prefix, which does not depend on layer \<open>j\<close>, and the layers from \<open>j\<close> on.\<close>

definition sums_over :: "nat \<Rightarrow> ars_type \<Rightarrow> (ars_packet \<Rightarrow> bytes) \<Rightarrow> (ars_packet \<Rightarrow> sum_result) \<Rightarrow> bool" where
  "sums_over j t ph f \<longleftrightarrow> (\<forall>p r q. pkt_wf p \<and> j < p_layer_nr p \<and> l_type (p_layer p j) = t \<and> f p = Some (r, q) \<longrightarrow>
     (case r of Inl e \<Rightarrow> e \<noteq> ARS_OK
      | Inr c \<Rightarrow> q = p \<and> even (length (ph p)) \<and> length (ph p) \<le> 40 \<and> c = ars_cksum (ph p @ pkt_out p j)
          \<and> (\<forall>S q. writes j S p q \<longrightarrow> ph q = ph p)))"

lemma sums_overD:
  assumes "sums_over j t ph f" "pkt_wf p" "j < p_layer_nr p" "l_type (p_layer p j) = t" "f p = Some (r, q)"
  shows "case r of Inl e \<Rightarrow> e \<noteq> ARS_OK
      | Inr c \<Rightarrow> q = p \<and> even (length (ph p)) \<and> length (ph p) \<le> 40 \<and> c = ars_cksum (ph p @ pkt_out p j)
          \<and> (\<forall>S q. writes j S p q \<longrightarrow> ph q = ph p)"
  using assms unfolding sums_over_def by blast

lemma pkt_out_field:
  assumes "writes j {off, Suc off} p q" "j < p_layer_nr p" "off + 2 \<le> l_size (p_layer p j)"
    "l_size (p_layer p j) \<le> length (data_of p j)"
  shows "pkt_out q j = take off (data_of p j) @ take 2 (drop off (data_of q j))
    @ (take (l_size (p_layer p j) - (off + 2)) (drop (off + 2) (data_of p j)) @ pkt_out p (Suc j))"
proof -
  have nr: "j < p_layer_nr q" "p_layer_nr q = p_layer_nr p" "l_size (p_layer q j) = l_size (p_layer p j)"
    using writes_fields [OF assms(1)] assms(2) by simp_all
  have rest: "pkt_out q (Suc j) = pkt_out p (Suc j)"
    using nr(2) writes_other [OF assms(1)] by (intro pkt_out_cong) auto
  have len: "length (data_of q j) = length (data_of p j)" using assms(1) by (rule writes_length)
  have "take (l_size (p_layer p j)) (data_of q j)
      = take off (data_of q j) @ take 2 (drop off (data_of q j)) @ take (l_size (p_layer p j) - (off + 2)) (drop (off + 2) (data_of q j))"
    using take_add [of "off + 2" "l_size (p_layer p j) - (off + 2)" "data_of q j"] le_add_diff_inverse [OF assms(3)]
      take_add [of off 2 "data_of q j"] by (simp only: append_assoc)
  then show ?thesis
    using writes_field_take [OF assms(1)] by (simp only: pkt_out_Cons [OF nr(1)] layer_out_data_of nr(3) rest append_assoc)
qed

lemma store_cksum_accepts:
  assumes "store_cksum j off f p = Some (ARS_OK, q)" "sums_over j t ph f" "pkt_wf p" "j < p_layer_nr p"
    "l_type (p_layer p j) = t" "even off" "off + 2 \<le> l_size (p_layer p j)" "length (pkt_out p j) \<le> 131034"
  shows "writes j {off, Suc off} p q" "ars_cksum (ph q @ pkt_out q j) = 0"
proof -
  obtain p1 r p2 where s: "wr16 j off 0 p = Some p1" "f p1 = Some (r, p2)"
    "(case r of Inl e \<Rightarrow> Some (e, p2) | Inr ck \<Rightarrow> do { p \<leftarrow> wr16 j off ck p2; Some (ARS_OK, p) }) = Some (ARS_OK, q)"
    using assms(1) by (auto simp: store_cksum_def split: bind_splits)
  have w: "writes j {off, Suc off} p p1" "take 2 (drop off (data_of p1 j)) = bytes16 0"
    using wr16_writes [OF s(1)] by simp_all
  have p1: "pkt_wf p1" "j < p_layer_nr p1" "l_type (p_layer p1 j) = t"
    using writes_wf [OF w(1) assms(3,4)] writes_fields [OF w(1)] assms(4,5) by simp_all
  obtain c where r: "r = Inr c"
    using s(3) sums_overD [OF assms(2) p1 s(2)] by (cases r) auto
  have c: "p2 = p1" "even (length (ph p1))" "length (ph p1) \<le> 40" "c = ars_cksum (ph p1 @ pkt_out p1 j)"
    "writes j S p1 p' \<Longrightarrow> ph p' = ph p1" for S p'
    using sums_overD [OF assms(2) p1 s(2)] unfolding r by auto
  have q: "wr16 j off c p1 = Some q" using s(3) unfolding r c(1) by (auto split: bind_splits)
  have v: "writes j {off, Suc off} p1 q" "take 2 (drop off (data_of q j)) = bytes16 c"
    using wr16_writes [OF q] by simp_all
  show pq: "writes j {off, Suc off} p q" using writes_trans [OF w(1) v(1)] by simp
  have ph: "ph q = ph p1" by (rule c(5) [OF v(1)])
  have sz: "l_size (p_layer p j) \<le> length (data_of p j)"
    using pkt_wf_below [OF assms(3,4)] by (simp add: layer_wf_def layer_len_data_of)
  define pre where "pre = ph p1 @ take off (data_of p j)"
  define post where "post = take (l_size (p_layer p j) - (off + 2)) (drop (off + 2) (data_of p j)) @ pkt_out p (Suc j)"
  have b0: "bytes16 0 = [0, 0]" by (simp add: bytes16_def)
  have one: "ph p1 @ pkt_out p1 j = pre @ [0, 0] @ post"
    using pkt_out_field [OF w(1) assms(4,7) sz] by (simp add: w(2) b0 pre_def post_def)
  have two: "ph q @ pkt_out q j = pre @ bytes16 c @ post"
    using pkt_out_field [OF pq assms(4,7) sz] by (simp add: v(2) ph pre_def post_def)
  have "even (length pre)" using c(2) assms(6,7) sz by (simp add: pre_def)
  moreover have "length pre + 2 + length post \<le> 131074"
  proof -
    have "length (pkt_out p1 j) = length (pkt_out p j)"
      using assms(4) by (intro length_pkt_out_writes [OF w(1) assms(3,4)]) simp
    then have "length (pre @ [0, 0] @ post) \<le> 131074"
      using assms(8) c(3) unfolding one [symmetric] by simp
    then show ?thesis by simp
  qed
  ultimately show "ars_cksum (ph q @ pkt_out q j) = 0"
    using cksum_receiver [of pre post] unfolding two by (simp only: c(4) one)
qed

text \<open>The pseudo header as the receiver builds it: RFC 768 and RFC 793 over IPv4, RFC 8200 over IPv6.\<close>

definition transport_proto :: "ars_type \<Rightarrow> u8" where
  "transport_proto t = (if t = ARS_TYPE_TCP then 6 else if t = ARS_TYPE_ICMP6 then 58 else 17)"

definition addr_bytes :: "ars_packet \<Rightarrow> nat \<Rightarrow> bytes" where
  "addr_bytes pkt k = (case l_type (p_layer pkt k) of
     ARS_TYPE_IP \<Rightarrow> take 8 (drop 12 (data_of pkt k))
   | ARS_TYPE_IP6 \<Rightarrow> take 32 (drop 8 (data_of pkt k)) | _ \<Rightarrow> [])"

lemma addr_bytes_cong: "p_layer q k = p_layer p k \<Longrightarrow> addr_bytes q k = addr_bytes p k"
  by (simp add: addr_bytes_def data_of_def split: ars_type.split)

definition pseudo_header :: "ars_packet \<Rightarrow> nat \<Rightarrow> bytes" where
  "pseudo_header pkt j =
     (let k = skip_ipopt_left pkt (j - 1); proto = transport_proto (l_type (p_layer pkt j)); n = length (pkt_out pkt j)
      in addr_bytes pkt k @ (if l_type (p_layer pkt k) = ARS_TYPE_IP6
           then bytes32 (htonl (of_nat n)) @ [0, 0, 0, proto] else [0, proto] @ bytes16 (htons (of_nat n))))"

lemma skip_ipopt_left_cong:
  "(\<And>k. l_type (p_layer q k) = l_type (p_layer p k)) \<Longrightarrow> skip_ipopt_left q j = skip_ipopt_left p j"
  by (induction j) auto

lemma rd_data_of: "rd p i off n = Some bs \<Longrightarrow> bs = take n (drop off (data_of p i)) \<and> off + n \<le> length (data_of p i)"
  by (auto simp: rd_def data_of_def dest!: ld_SomeD split: option.splits)

lemma take_drop_append: "take a (drop off d) @ take b (drop (off + a) d) = take (a + b) (drop off d)"
  by (simp add: take_add add.commute)

lemma pseudo_header_writes:
  assumes "pkt_wf p" "j < p_layer_nr p" "writes j S p q" "j \<noteq> 0"
  shows "pseudo_header q j = pseudo_header p j"
proof -
  let ?k = "skip_ipopt_left p (j - 1)"
  have k: "skip_ipopt_left q (j - 1) = ?k" by (rule skip_ipopt_left_cong) (simp add: writes_fields [OF assms(3)])
  have "?k \<noteq> j" using skip_ipopt_left_le [of p "j - 1"] assms(4) by linarith
  then have "p_layer q ?k = p_layer p ?k" by (rule writes_other [OF assms(3)])
  moreover from this have "addr_bytes q ?k = addr_bytes p ?k" by (rule addr_bytes_cong)
  moreover have "length (pkt_out q j) = length (pkt_out p j)"
    using assms(2) by (intro length_pkt_out_writes [OF assms(3,1,2)]) simp
  ultimately show ?thesis
    by (simp add: pseudo_header_def k writes_fields [OF assms(3)] Let_def del: One_nat_def)
qed

lemma ip6_pseudo_value:
  assumes "ars_ip6_pseudo_cksum al p j (transport_proto (l_type (p_layer p j))) = Some (r, q)" "pkt_wf p" "j < p_layer_nr p"
  shows "case r of Inl e \<Rightarrow> e \<noteq> ARS_OK
    | Inr c \<Rightarrow> q = p \<and> even (length (pseudo_header p j)) \<and> length (pseudo_header p j) \<le> 40
      \<and> c = ars_cksum (pseudo_header p j @ pkt_out p j) \<and> j \<noteq> 0"
proof (cases "j = 0 \<or> l_type (p_layer p (j - 1)) \<noteq> ARS_TYPE_IP6")
  case True
  then show ?thesis using assms(1) by (auto simp: ars_ip6_pseudo_cksum_def)
next
  case False
  then have k: "skip_ipopt_left p (j - 1) = j - 1" by (cases "j - 1") auto
  obtain s d c where rs: "rd p (j - 1) 8 16 = Some s" "rd p (j - 1) 24 16 = Some d" "r = Inr c" "q = p"
    "cksum_layers [s @ d @ bytes32 (htonl (of_nat (ars_relative_size p j))) @ [0, 0, 0, transport_proto (l_type (p_layer p j))]]
       (live_layers p j) = Some c"
    using assms(1) False by (auto simp: ars_ip6_pseudo_cksum_def Let_def split: bind_splits)
  have sd: "s @ d = take 32 (drop 8 (data_of p (j - 1)))" "40 \<le> length (data_of p (j - 1))"
    using rd_data_of [OF rs(1)] rd_data_of [OF rs(2)] take_drop_append [of 16 8 "data_of p (j - 1)" 16] by simp_all
  have "pseudo_header p j = s @ d @ bytes32 (htonl (of_nat (ars_relative_size p j))) @ [0, 0, 0, transport_proto (l_type (p_layer p j))]"
    using False assms(3) by (simp add: pseudo_header_def addr_bytes_def k Let_def sd(1) [symmetric] relative_size_eq [OF assms(2)] del: One_nat_def)
  moreover have "length (s @ d) = 32" using sd(2) unfolding sd(1) by simp
  moreover from this have "even (length s) = even (length d)" by (simp only: length_append; presburger)
  ultimately show ?thesis
    using rs(3-5) assms(3) False by (simp add: cksum_live [OF assms(2)])
qed

lemma udptcp_value:
  assumes "ars_udptcp_cksum al p j = Some (r, q)" "pkt_wf p" "j < p_layer_nr p" "l_type (p_layer p j) = ARS_TYPE_TCP \<or> l_type (p_layer p j) = ARS_TYPE_UDP"
  shows "case r of Inl e \<Rightarrow> e \<noteq> ARS_OK
    | Inr c \<Rightarrow> q = p \<and> even (length (pseudo_header p j)) \<and> length (pseudo_header p j) \<le> 40
      \<and> c = ars_cksum (pseudo_header p j @ pkt_out p j) \<and> j \<noteq> 0"
proof -
  let ?k = "skip_ipopt_left p (j - 1)"
  have pr: "(if l_type (p_layer p j) = ARS_TYPE_TCP then ARS_IPPROTO_TCP else ARS_IPPROTO_UDP) = transport_proto (l_type (p_layer p j))"
    using assms(4) by (auto simp: transport_proto_def)
  consider (v6) "j \<noteq> 0 \<and> l_type (p_layer p ?k) = ARS_TYPE_IP6"
    | (none) "\<not> (j \<noteq> 0 \<and> l_type (p_layer p ?k) = ARS_TYPE_IP6)" "j = 0 \<or> l_type (p_layer p ?k) \<noteq> ARS_TYPE_IP"
    | (v4) "\<not> (j \<noteq> 0 \<and> l_type (p_layer p ?k) = ARS_TYPE_IP6)" "\<not> (j = 0 \<or> l_type (p_layer p ?k) \<noteq> ARS_TYPE_IP)" by argo
  then show ?thesis
  proof cases
    case v6
    then show ?thesis
      using assms(1) unfolding ars_udptcp_cksum_def Let_def pr if_P [OF v6] by (intro ip6_pseudo_value [OF _ assms(2,3)])
  next
    case none
    show ?thesis
      using assms(1) unfolding ars_udptcp_cksum_def Let_def pr if_not_P [OF none(1)] if_P [OF none(2)] by auto
  next
    case v4
    obtain s d c where rs: "rd p ?k 12 4 = Some s" "rd p ?k 16 4 = Some d" "r = Inr c" "q = p"
      "cksum_layers [s @ d @ [0, transport_proto (l_type (p_layer p j))] @ bytes16 (htons (of_nat (ars_relative_size p j)))]
         (live_layers p j) = Some c"
      using assms(1) unfolding ars_udptcp_cksum_def Let_def pr if_not_P [OF v4(1)] if_not_P [OF v4(2)]
      by (auto split: bind_splits)
    have sd: "s @ d = take 8 (drop 12 (data_of p ?k))" "20 \<le> length (data_of p ?k)"
      using rd_data_of [OF rs(1)] rd_data_of [OF rs(2)] take_drop_append [of 4 12 "data_of p ?k" 4] by simp_all
    have "pseudo_header p j = s @ d @ [0, transport_proto (l_type (p_layer p j))] @ bytes16 (htons (of_nat (ars_relative_size p j)))"
      using v4 assms(3) by (simp add: pseudo_header_def addr_bytes_def Let_def sd(1) [symmetric] relative_size_eq [OF assms(2)] del: One_nat_def)
    moreover have "length (s @ d) = 8" using sd(2) unfolding sd(1) by simp
    moreover from this have "even (length s) = even (length d)" by (simp only: length_append; presburger)
  moreover from this have "even (length s) = even (length d)" by (simp only: length_append; presburger)
    ultimately show ?thesis
      using rs(3-5) assms(3) v4 by (simp add: cksum_live [OF assms(2)])
  qed
qed

lemma sums_over_udptcp:
  assumes "t = ARS_TYPE_TCP \<or> t = ARS_TYPE_UDP"
  shows "sums_over j t (\<lambda>p. pseudo_header p j) (\<lambda>p. ars_udptcp_cksum al p j)"
  unfolding sums_over_def
  using udptcp_value [of al _ j] pseudo_header_writes [of _ j] assms by (fastforce split: sum.splits)

lemma sums_over_icmp6:
  "sums_over j ARS_TYPE_ICMP6 (\<lambda>p. pseudo_header p j) (\<lambda>p. ars_ip6_pseudo_cksum al p j ARS_IPPROTO_ICMPV6)"
proof -
  have "transport_proto ARS_TYPE_ICMP6 = ARS_IPPROTO_ICMPV6" by (simp add: transport_proto_def)
  then show ?thesis
    unfolding sums_over_def
    using ip6_pseudo_value [of al _ j] pseudo_header_writes [of _ j] by (fastforce split: sum.splits)
qed

lemma sums_over_plain: "sums_over j t (\<lambda>p. []) (plain_cksum j)"
  by (auto simp: sums_over_def plain_cksum_def cksum_live)

section \<open>The rest of the compilation keeps what is done\<close>

lemma ip6_writes:
  assumes "ars_compiler_ip6 al p i = Some (r, q)"
  shows "writes i {0..<7} p q"
proof -
  let ?u = "unless_taken (l_flags (p_layer p i))"
  obtain p1 p2 where s: "?u ARS_TAKE_IP6_VERSION (ip6_version i) p = Some p1"
    "?u ARS_TAKE_IP6_PAYLOADLEN (\<lambda>p. wr16 i 4 (htons (of_nat (ars_relative_size p (i + 1)))) p) p1 = Some p2"
    "?u ARS_TAKE_IP6_NEXTHDR (\<lambda>p. wr8 i 6 (if i + 1 < ARS_MAX_LAYER
              then ip6_proto_of (l_type (p_layer p (i + 1))) else ARS_IPPROTO_NONE) p) p2 = Some q"
    using assms by (auto simp: ars_compiler_ip6_def Let_def split: bind_splits)
  have "writes i {0..<0 + 4} p p1"
    by (rule unless_writes [OF s(1)]) (auto simp: ip6_version_def split: bind_splits dest: wr32_writes)
  moreover have "writes i {4, Suc 4} p1 p2"
    by (rule unless_writes [OF s(2)]) (use wr16_writes in blast)
  moreover have "writes i {6} p2 q"
    by (rule unless_writes [OF s(3)]) (use wr8_writes in blast)
  ultimately have "writes i ({0..<0 + 4} \<union> {4, Suc 4} \<union> {6}) p q"
    using writes_trans by blast
  then show ?thesis by (rule writes_mono) auto
qed

lemma compile_layer_addr:
  assumes "compile_layer al p i = Some (r, q)" "pkt_wf p" "i < p_layer_nr p"
  shows "addr_bytes q k = addr_bytes p k"
proof (cases "k = i")
  case False
  then have "p_layer q k = p_layer p k"
    using layer_compiles [OF assms(2,3), of al] assms(1) by (simp add: compiles_def)
  then show ?thesis by (rule addr_bytes_cong)
next
  case True
  have t: "l_type (p_layer q k) = l_type (p_layer p k)"
    using layer_compiles [OF assms(2,3), of al] assms(1) True by (simp add: compiles_def)
  consider "l_type (p_layer p i) = ARS_TYPE_IP" | "l_type (p_layer p i) = ARS_TYPE_IP6"
    | "l_type (p_layer p i) \<noteq> ARS_TYPE_IP" "l_type (p_layer p i) \<noteq> ARS_TYPE_IP6" by blast
  then show ?thesis
  proof cases
    case 1
    then have w: "writes i {0, 2, 3, 9, 10, 11} p q"
      using assms(1) ip_writes by (simp add: compile_layer_def li_compiler_def)
    have "drop 12 (data_of q i) = drop 12 (data_of p i)"
      using writes_length [OF w] writes_nth [OF w] by (intro nth_eq_dropI) auto
    then show ?thesis using 1 t True by (simp add: addr_bytes_def)
  next
    case 2
    then have w: "writes i {0..<7} p q"
      using assms(1) ip6_writes by (simp add: compile_layer_def li_compiler_def)
    have "drop 8 (data_of q i) = drop 8 (data_of p i)"
      using writes_length [OF w] writes_nth [OF w] by (intro nth_eq_dropI) auto
    then show ?thesis using 2 t True by (simp add: addr_bytes_def)
  next
    case 3
    then show ?thesis using t True by (cases "l_type (p_layer p i)") (auto simp: addr_bytes_def)
  qed
qed

lemma compile_loop_addr:
  assumes "compile_loop al p j = Some (r, q)" "pkt_wf p" "j \<le> p_layer_nr p"
  shows "addr_bytes q k = addr_bytes p k"
  using assms
proof (induction j arbitrary: p)
  case (Suc j)
  obtain r1 p1 where p1: "compile_layer al p j = Some (r1, p1)"
    "(if r1 \<noteq> ARS_OK then Some (r1, p1) else compile_loop al p1 j) = Some (r, q)"
    using Suc.prems(1) by (auto split: bind_splits)
  have wf: "pkt_wf p1" "p_layer_nr p1 = p_layer_nr p"
    using layer_compiles [of p j al] p1(1) Suc.prems(2,3) by (auto simp: compiles_def)
  have "addr_bytes p1 k = addr_bytes p k"
    using p1(1) Suc.prems(2,3) by (intro compile_layer_addr [of al p j]) auto
  with Suc.IH [of p1] p1(2) wf Suc.prems(3) show ?case by (auto split: if_splits)
qed simp

lemma pseudo_header_cong:
  assumes "same_shape p q" "\<And>k. j \<le> k \<Longrightarrow> p_layer q k = p_layer p k" "\<And>k. addr_bytes q k = addr_bytes p k"
  shows "pseudo_header q j = pseudo_header p j" "pkt_out q j = pkt_out p j"
proof -
  have "pkt_out q j = pkt_out p j" "skip_ipopt_left q (j - 1) = skip_ipopt_left p (j - 1)"
    using assms(1,2) by (intro pkt_out_cong skip_ipopt_left_cong; simp add: same_shape_def)+
  then show "pseudo_header q j = pseudo_header p j" "pkt_out q j = pkt_out p j"
    using assms(1,3) by (simp_all add: pseudo_header_def Let_def same_shape_def del: One_nat_def)
qed

text \<open>What a successful run did to layer \<open>j\<close>: a packet before and one after the compiler
  of layer \<open>j\<close>, and the final packet agrees with the latter from \<open>j\<close> on.\<close>

lemma compile_at:
  assumes "compile_loop al p n = Some (ARS_OK, q)" "pkt_wf p" "n \<le> p_layer_nr p" "j < n"
  obtains a b where "compile_layer al a j = Some (ARS_OK, b)" "pkt_wf a" "pkt_wf b" "same_shape p a" "same_shape a b" "same_shape b q"
    "\<And>k. j \<le> k \<Longrightarrow> p_layer q k = p_layer b k" "\<And>k. addr_bytes q k = addr_bytes b k"
    "\<And>k. k \<le> j \<Longrightarrow> p_layer a k = p_layer p k"
    "\<And>k. k \<noteq> j \<Longrightarrow> p_layer b k = p_layer a k"
  using assms
proof (induction n arbitrary: p thesis)
  case (Suc n)
  obtain r1 p1 where p1: "compile_layer al p n = Some (r1, p1)"
    "(if r1 \<noteq> ARS_OK then Some (r1, p1) else compile_loop al p1 n) = Some (ARS_OK, q)"
    using Suc.prems(2) by (auto split: bind_splits)
  have r1: "r1 = ARS_OK" and q: "compile_loop al p1 n = Some (ARS_OK, q)" using p1(2) by (auto split: if_splits)
  have wf: "pkt_wf p1" "p_layer_nr p1 = p_layer_nr p" "\<And>k. k \<noteq> n \<Longrightarrow> p_layer p1 k = p_layer p k" "same_shape p p1"
  proof -
    have c: "pkt_wf p1 \<and> p_layer_nr p1 = p_layer_nr p \<and> (\<forall>k. k \<noteq> n \<longrightarrow> p_layer p1 k = p_layer p k)
      \<and> l_type (p_layer p1 n) = l_type (p_layer p n) \<and> l_flags (p_layer p1 n) = l_flags (p_layer p n)"
      using layer_compiles [of p n al] p1(1) Suc.prems(3,4) by (simp add: compiles_def)
    then show "pkt_wf p1" "p_layer_nr p1 = p_layer_nr p" "\<And>k. k \<noteq> n \<Longrightarrow> p_layer p1 k = p_layer p k" by simp_all
    show "same_shape p p1" unfolding same_shape_def using c by metis
  qed
  have n: "n \<le> p_layer_nr p1" using Suc.prems(4) wf(2) by simp
  show ?case
  proof (cases "j = n")
    case True
    obtain q' r' where q': "compile_loop al p1 n = Some (r', q')" "same_shape p1 q'" "\<forall>k \<ge> n. p_layer q' k = p_layer p1 k"
      using compile_loop_safe [OF wf(1) n] by blast
    show ?thesis
      by (rule Suc.prems(1) [of p p1])
        (use True p1(1) r1 Suc.prems(3) wf q q' compile_loop_addr [OF q wf(1) n] in \<open>auto simp: same_shape_def\<close>)
  next
    case False
    then have "j < n" using Suc.prems(5) by simp
    obtain a b where ab: "compile_layer al a j = Some (ARS_OK, b)" "pkt_wf a" "pkt_wf b" "same_shape p1 a" "same_shape a b" "same_shape b q"
      "\<And>k. j \<le> k \<Longrightarrow> p_layer q k = p_layer b k" "\<And>k. addr_bytes q k = addr_bytes b k"
      "\<And>k. k \<le> j \<Longrightarrow> p_layer a k = p_layer p1 k" "\<And>k. k \<noteq> j \<Longrightarrow> p_layer b k = p_layer a k"
      by (rule Suc.IH [OF _ q wf(1) n \<open>j < n\<close>]) blast
    have "same_shape p a" using wf(4) ab(4) by (simp add: same_shape_def)
    moreover have "p_layer a k = p_layer p k" if "k \<le> j" for k using ab(9) [OF that] wf(3) [of k] that \<open>j < n\<close> by simp
    ultimately show ?thesis
      using Suc.prems(1) [OF ab(1-3) _ ab(5-8) _ ab(10)] by blast
  qed
qed simp

end
