(* ===== verification/Receiver.thy ===== *)
theory Receiver
  imports Wire
begin

text \<open>
  Properties of the packet compiler and builder of \<open>src/ars.c\<close>: they stay inside the blocks of
  the packet, pad the options, and make datagrams whose lengths, protocol numbers and checksums
  an independent receiver (RFC 791, 768, 793, 792, 8200) accepts.
\<close>

section \<open>Compiled layers\<close>

lemma ars_compile_at:
  assumes "ars_compile al p = Some (ARS_OK, q)" "pkt_wf p" "j < p_layer_nr p"
  obtains a b where "compile_layer al a j = Some (ARS_OK, b)" "pkt_wf a" "pkt_wf b" "same_shape p a" "same_shape a b" "same_shape b q"
    "\<And>k. j \<le> k \<Longrightarrow> p_layer q k = p_layer b k" "\<And>k. addr_bytes q k = addr_bytes b k"
    "\<And>k. k \<le> j \<Longrightarrow> p_layer a k = p_layer p k" "\<And>k. k \<noteq> j \<Longrightarrow> p_layer b k = p_layer a k"
  using compile_at [OF assms(1) [unfolded ars_compile_def] assms(2) order.refl assms(3)] by blast

lemma ars_compile_wf:
  assumes "ars_compile al p = Some (r, q)" "pkt_wf p"
  shows "pkt_wf q" "same_shape p q"
  using compile_safe [OF assms(2), of al] assms(1) by auto

definition cksum_off :: "ars_type \<Rightarrow> nat" where
  "cksum_off t = (case t of ARS_TYPE_TCP \<Rightarrow> 16 | ARS_TYPE_UDP \<Rightarrow> 6 | ARS_TYPE_IGRP \<Rightarrow> 10 | _ \<Rightarrow> 2)"

text \<open>The flag that leaves the checksum of a layer to the user.\<close>

definition take_cksum :: "ars_type \<Rightarrow> u32" where
  "take_cksum t = (case t of ARS_TYPE_TCP \<Rightarrow> ARS_TAKE_TCP_CKSUM | _ \<Rightarrow> 1)"

lemma compiled_cksum:
  assumes "compile_layer al a j = Some (ARS_OK, b)" "pkt_wf a" "j < p_layer_nr a" "l_type (p_layer a j) = t"
    "ARS_DONTTAKE (l_flags (p_layer a j)) (take_cksum t)" "hdr_min t \<le> l_size (p_layer a j)" "length (pkt_out a j) \<le> 131034"
  shows "t \<in> {ARS_TYPE_TCP, ARS_TYPE_UDP, ARS_TYPE_ICMP6} \<Longrightarrow> ars_cksum (pseudo_header b j @ pkt_out b j) = 0"
    "t \<in> {ARS_TYPE_ICMP, ARS_TYPE_IGRP} \<Longrightarrow> ars_cksum (pkt_out b j) = 0"
proof -
  have main: "ars_cksum (ph b @ pkt_out b j) = 0 "
    if "store_cksum j (cksum_off t) f a' = Some (ARS_OK, b)" "sums_over j t ph f" "writes j S a a'"
      "t \<in> {ARS_TYPE_TCP, ARS_TYPE_UDP, ARS_TYPE_ICMP6, ARS_TYPE_ICMP, ARS_TYPE_IGRP}" for f ph a' S
  proof -
    have a': "pkt_wf a'" "j < p_layer_nr a'" "l_type (p_layer a' j) = t" "l_size (p_layer a' j) = l_size (p_layer a j)"
      using writes_wf [OF that(3) assms(2,3)] writes_fields [OF that(3)] assms(3,4) by simp_all
    have len: "length (pkt_out a' j) = length (pkt_out a j)"
      using assms(3) by (intro length_pkt_out_writes [OF that(3) assms(2,3)]) simp
    have off: "even (cksum_off t)" "cksum_off t + 2 \<le> l_size (p_layer a' j)"
      using that(4) assms(6) a'(4) by (auto simp: cksum_off_def hdr_min_def)
    note acc = store_cksum_accepts [OF that(1,2) a'(1-3) off]
    then show ?thesis using acc len assms(7) by simp
  qed
  show "ars_cksum (pseudo_header b j @ pkt_out b j) = 0 "
    if t: "t \<in> {ARS_TYPE_TCP, ARS_TYPE_UDP, ARS_TYPE_ICMP6}"
  proof -
    consider (tcp) "t = ARS_TYPE_TCP" | (udp) "t = ARS_TYPE_UDP" | (icmp6) "t = ARS_TYPE_ICMP6" using t by blast
    then show ?thesis
    proof cases
      case tcp
      then obtain a' where s: "unless_taken (l_flags (p_layer a j)) ARS_TAKE_TCP_HDRLEN (tcp_hdrlen j) a = Some a'"
        "store_cksum j 16 (\<lambda>p. ars_udptcp_cksum al p j) a' = Some (ARS_OK, b)"
        using assms(1,4,5) by (auto simp: compile_layer_def li_compiler_def ars_compiler_tcp_def Let_def take_cksum_def split: bind_splits)
      have "writes j {12} a a'"
      proof (rule unless_writes [OF s(1)])
        fix q assume "tcp_hdrlen j a = Some q"
        then obtain r v where "wr_hi j 12 5 a = Some r" "wr_hi j 12 v r = Some q"
          by (auto simp: tcp_hdrlen_def split: bind_splits)
        then show "writes j {12} a q" using wr_hi_writes writes_trans [of j "{12}" a r "{12}" q] by simp
      qed
      from main [OF _ sums_over_udptcp this] s(2) tcp show ?thesis by (simp add: cksum_off_def)
    next
      case udp
      then obtain a' where s: "unless_taken (l_flags (p_layer a j)) ARS_TAKE_UDP_LEN
          (\<lambda>p. wr16 j 4 (htons (of_nat (ars_relative_size p j))) p) a = Some a'"
        "store_cksum j 6 (\<lambda>p. ars_udptcp_cksum al p j) a' = Some (ARS_OK, b)"
        using assms(1,4,5) by (auto simp: compile_layer_def li_compiler_def ars_compiler_udp_def Let_def take_cksum_def split: bind_splits)
      have "writes j {4, Suc 4} a a'" by (rule unless_writes [OF s(1)]) (use wr16_writes in blast)
      from main [OF _ sums_over_udptcp this] s(2) udp show ?thesis by (simp add: cksum_off_def)
    next
      case icmp6
      then have "store_cksum j 2 (\<lambda>p. ars_ip6_pseudo_cksum al p j ARS_IPPROTO_ICMPV6) a = Some (ARS_OK, b)"
        using assms(1,4,5) by (simp add: compile_layer_def li_compiler_def ars_compiler_icmp6_def take_cksum_def)
      with main [OF _ sums_over_icmp6 [of j al, folded icmp6] writes_refl [of j "{}" a]] icmp6 show ?thesis by (simp add: cksum_off_def)
    qed
  qed
  show "ars_cksum (pkt_out b j) = 0" if t: "t \<in> {ARS_TYPE_ICMP, ARS_TYPE_IGRP}"
  proof -
    have "store_cksum j (cksum_off t) (plain_cksum j) a = Some (ARS_OK, b)"
      using t assms(1,4,5) by (auto simp: compile_layer_def li_compiler_def ars_compiler_icmp_def ars_compiler_igrp_def take_cksum_def cksum_off_def)
    from main [OF this sums_over_plain writes_refl [of j "{}" a]] t show ?thesis by auto
  qed
qed

text \<open>Only options grow.\<close>

lemma compile_layer_sizes:
  assumes "compile_layer al a j = Some (r, b)" "pkt_wf a" "j < p_layer_nr a"
    "l_type (p_layer a j) \<notin> {ARS_TYPE_IPOPT, ARS_TYPE_TCPOPT}"
  shows "l_size (p_layer b j) = l_size (p_layer a j)" "length (pkt_out b j) = length (pkt_out a j)"
proof -
  have c: "pkt_wf b" "p_layer_nr b = p_layer_nr a" "\<And>k. k \<noteq> j \<Longrightarrow> p_layer b k = p_layer a k"
      "l_type (p_layer b j) = l_type (p_layer a j)" "l_size (p_layer b j) = l_size (p_layer a j)"
    using layer_compiles [OF assms(2,3), of al] assms(1,4) by (simp_all add: compiles_def)
  then show "l_size (p_layer b j) = l_size (p_layer a j)" by simp
  have "l_type (p_layer b k) = l_type (p_layer a k) \<and> l_size (p_layer b k) = l_size (p_layer a k)" for k
    using c(3) [of k] c(4,5) by (cases "k = j") simp_all
  then have "ars_relative_size b j = ars_relative_size a j" by (rule relative_size_cong)
  then show "length (pkt_out b j) = length (pkt_out a j)"
    using relative_size_eq [OF assms(2), of j] relative_size_eq [OF c(1), of j] c(2) assms(3) by simp
qed

lemma ars_compile_cksum:
  assumes "ars_compile al p = Some (ARS_OK, q)" "pkt_wf p" "j < p_layer_nr p" "l_type (p_layer p j) = t"
    "ARS_DONTTAKE (l_flags (p_layer p j)) (take_cksum t)" "hdr_min t \<le> l_size (p_layer p j)" "length (pkt_out q j) \<le> 131034"
  shows "t \<in> {ARS_TYPE_TCP, ARS_TYPE_UDP, ARS_TYPE_ICMP6} \<Longrightarrow> ars_cksum (pseudo_header q j @ pkt_out q j) = 0"
    "t \<in> {ARS_TYPE_ICMP, ARS_TYPE_IGRP} \<Longrightarrow> ars_cksum (pkt_out q j) = 0"
proof -
  obtain a b where ab: "compile_layer al a j = Some (ARS_OK, b)" "pkt_wf a" "pkt_wf b" "same_shape p a" "same_shape a b" "same_shape b q"
    "\<And>k. j \<le> k \<Longrightarrow> p_layer q k = p_layer b k" "\<And>k. addr_bytes q k = addr_bytes b k" "p_layer a j = p_layer p j"
    by (rule ars_compile_at [OF assms(1-3)]) blast
  have q: "pseudo_header q j = pseudo_header b j" "pkt_out q j = pkt_out b j"
    using pseudo_header_cong [OF ab(6-8)] by blast+
  have a: "j < p_layer_nr a" using ab(4) assms(3) by (simp add: same_shape_def)
  have len: "length (pkt_out a j) \<le> 131034" if "t \<notin> {ARS_TYPE_IPOPT, ARS_TYPE_TCPOPT}"
    using compile_layer_sizes(2) [OF ab(1,2) a] that assms(4,7) ab(9) q(2) by simp
  note c = compiled_cksum [OF ab(1,2) a, unfolded ab(9), OF assms(4-6) len]
  show "ars_cksum (pseudo_header q j @ pkt_out q j) = 0" if "t \<in> {ARS_TYPE_TCP, ARS_TYPE_UDP, ARS_TYPE_ICMP6}"
    using c(1) that unfolding q by auto
  show "ars_cksum (pkt_out q j) = 0" if "t \<in> {ARS_TYPE_ICMP, ARS_TYPE_IGRP}"
    using c(2) that unfolding q by auto
qed

lemma span_length_types:
  "(\<And>k. l_type (p_layer q k) = l_type (p_layer p k)) \<Longrightarrow> length (span_layers P q j) = length (span_layers P p j)"
proof (induction P p j rule: span_layers.induct)
  case (1 P p j)
  then show ?case by (simp add: span_layers.simps [of P p j] span_layers.simps [of P q j])
qed

lemma ip_header_bytes_cong:
  "(\<And>k. j \<le> k \<Longrightarrow> p_layer q k = p_layer b k) \<Longrightarrow> ip_header_bytes q j = ip_header_bytes b j"
  using span_layers_cong [of "j + 1" q b] by (simp add: ip_header_bytes_def data_of_def)

lemma ars_compile_ip:
  assumes "ars_compile al p = Some (ARS_OK, q)" "pkt_wf p" "j < p_layer_nr p" "l_type (p_layer p j) = ARS_TYPE_IP"
    "length (ip_header_bytes q j) \<le> 131074"
  defines "d \<equiv> data_of q j" and "fl \<equiv> l_flags (p_layer p j)"
  shows "ARS_DONTTAKE fl ARS_TAKE_IP_VERSION \<Longrightarrow> drop_bit 4 (d ! 0) = 4"
    and "ARS_DONTTAKE fl ARS_TAKE_IP_HDRLEN \<Longrightarrow> d ! 0 AND 0xf = hdr_words (opts_size ARS_TYPE_IPOPT q (j + 1))"
    and "ARS_DONTTAKE fl ARS_TAKE_IP_TOTLEN \<Longrightarrow> take 2 (drop 2 d) = bytes16 (htons (of_nat (length (pkt_out q j))))"
    and "ARS_DONTTAKE fl ARS_TAKE_IP_PROTOCOL \<Longrightarrow> d ! 9 = ip_proto_byte q j"
    and "ARS_DONTTAKE fl ARS_TAKE_IP_CKSUM \<Longrightarrow> ars_cksum (ip_header_bytes q j) = 0"
proof -
  obtain a b where ab: "compile_layer al a j = Some (ARS_OK, b)" "pkt_wf a" "pkt_wf b" "same_shape p a" "same_shape a b" "same_shape b q"
    "\<And>k. j \<le> k \<Longrightarrow> p_layer q k = p_layer b k" "p_layer a j = p_layer p j"
    by (rule ars_compile_at [OF assms(1-3)]) blast
  have a: "j < p_layer_nr a" "l_type (p_layer a j) = ARS_TYPE_IP" "20 \<le> layer_len (p_layer a j)"
    using ab(4,8) assms(3,4) pkt_wf_below [OF assms(2,3)] by (auto simp: same_shape_def layer_wf_def hdr_min_def)
  have c: "ars_compiler_ip al a j = Some (ARS_OK, b)" using ab(1) a(2) by (simp add: compile_layer_def li_compiler_def)
  note w = ip_writes [OF c]
  have dq: "data_of q j = data_of b j" using ab(7) by (simp add: data_of_def)
  have hq: "ip_header_bytes q j = ip_header_bytes b j" using ab(7) by (rule ip_header_bytes_cong)
  have "span_layers P a (j + 1) = span_layers P b (j + 1)" for P
    by (rule span_layers_cong) (use writes_other [OF w] in auto)
  then have "length (ip_header_bytes a j) = length (ip_header_bytes b j)"
    using writes_length [OF w] by (simp add: ip_header_bytes_def)
  then have len: "length (ip_header_bytes a j) \<le> 131074" using assms(5) hq by simp
  note f = ip_fields [OF c ab(2) a(1,3) len, unfolded ab(8), folded fl_def]
  have sp: "span_layers P q (j + 1) = span_layers P a (j + 1)" for P
    by (rule span_layers_cong) (use writes_other [OF w] ab(7) in auto)
  have ty: "l_type (p_layer q k) = l_type (p_layer a k)" "l_flags (p_layer q k) = l_flags (p_layer a k)" for k
    using ab(5,6) by (simp_all add: same_shape_def)
  show "ARS_DONTTAKE fl ARS_TAKE_IP_VERSION \<Longrightarrow> drop_bit 4 (d ! 0) = 4" using f(1) by (simp add: d_def dq)
  show "ARS_DONTTAKE fl ARS_TAKE_IP_HDRLEN \<Longrightarrow> d ! 0 AND 0xf = hdr_words (opts_size ARS_TYPE_IPOPT q (j + 1))"
    using f(2) by (simp only: d_def dq opts_size_def sp)
  show "ARS_DONTTAKE fl ARS_TAKE_IP_CKSUM \<Longrightarrow> ars_cksum (ip_header_bytes q j) = 0" using f(5) by (simp add: hq)
  show "take 2 (drop 2 d) = bytes16 (htons (of_nat (length (pkt_out q j))))" if "ARS_DONTTAKE fl ARS_TAKE_IP_TOTLEN"
  proof -
    have "pkt_out q j = pkt_out b j" using ab(6,7) by (intro pkt_out_cong) (simp_all add: same_shape_def)
    moreover have "length (pkt_out b j) = length (pkt_out a j)"
      using a by (intro compile_layer_sizes [OF ab(1,2)]) simp_all
    ultimately show ?thesis using f(3) [OF that] a(1) by (simp add: d_def dq relative_size_eq [OF ab(2)])
  qed
  show "d ! 9 = ip_proto_byte q j" if "ARS_DONTTAKE fl ARS_TAKE_IP_PROTOCOL"
  proof -
    have len: "length (span_layers P q i) = length (span_layers P a i)" for P i
      using ty(1) by (rule span_length_types)
    then have "ip_proto_byte q j = ip_proto_byte a j"
      by (simp add: ip_proto_byte_def ip_next_index_def ty len Let_def)
    then show ?thesis using f(4) [OF that] by (simp add: d_def dq)
  qed
qed

section \<open>Padding of options\<close>

text \<open>A maximal run of layers of type \<open>t\<close>.\<close>

definition run_of :: "ars_type \<Rightarrow> ars_packet \<Rightarrow> nat \<Rightarrow> nat \<Rightarrow> bool" where
  "run_of t p j e \<longleftrightarrow> j < e \<and> e \<le> p_layer_nr p \<and> (\<forall>k. j \<le> k \<and> k < e \<longrightarrow> l_type (p_layer p k) = t)
     \<and> (j = 0 \<or> l_type (p_layer p (j - 1)) \<noteq> t) \<and> (e < ARS_MAX_LAYER \<longrightarrow> l_type (p_layer p e) \<noteq> t)"

lemma first_of_run_eq:
  "j \<le> k \<Longrightarrow> (\<And>i. j \<le> i \<Longrightarrow> i < k \<Longrightarrow> l_type (p_layer p i) = t) \<Longrightarrow> j = 0 \<or> l_type (p_layer p (j - 1)) \<noteq> t \<Longrightarrow>
     first_of_run t p k = j"
proof (induction k)
  case (Suc k)
  then show ?case
    by (cases "j = Suc k") auto
qed simp

lemma sum_sizes_split:
  "j \<le> e \<Longrightarrow> e \<le> n \<Longrightarrow> sum_list (map f [j..<n]) = sum_list (map f [j..<e]) + sum_list (map f [e..<n])" for f :: "nat \<Rightarrow> nat"
  using upt_add_eq_append [of j e "n - e"] by simp

lemma relative_size_split:
  assumes "pkt_wf p" "j \<le> e" "e \<le> p_layer_nr p"
  shows "ars_relative_size p j = sum_list (map (\<lambda>k. l_size (p_layer p k)) [j..<e]) + ars_relative_size p e"
proof -
  have "ars_relative_size p i = sum_list (map (\<lambda>k. l_size (p_layer p k)) [i..<p_layer_nr p])" if "i \<le> p_layer_nr p" for i
    by (simp only: ars_relative_size_def live_layers_eq [OF assms(1) that] map_map comp_def)
  then show ?thesis using assms(2,3) sum_sizes_split [OF assms(2,3)] by simp
qed

lemma opt_size_mod: "(s + (4 - s mod 4) mod 4) mod 4 = 0" for s :: nat
proof -
  have *: "(4 * q + r + (4 - r) mod 4) mod 4 = 0" if "r < 4" for q r :: nat
    using that by (cases "r = 0") simp_all
  show ?thesis using * [of "s mod 4" "s div 4"] by simp
qed

lemma ars_compile_size:
  assumes "ars_compile al p = Some (ARS_OK, q)" "pkt_wf p" "j < p_layer_nr p" "l_type (p_layer p j) \<notin> {ARS_TYPE_IPOPT, ARS_TYPE_TCPOPT}"
  shows "l_size (p_layer q j) = l_size (p_layer p j)"
proof -
  obtain a b where ab: "compile_layer al a j = Some (ARS_OK, b)" "pkt_wf a" "same_shape p a"
    "\<And>k. j \<le> k \<Longrightarrow> p_layer q k = p_layer b k" "p_layer a j = p_layer p j"
    by (rule ars_compile_at [OF assms(1-3)]) blast
  then show ?thesis
    using compile_layer_sizes(1) [OF ab(1,2)] assms(3,4) by (simp add: same_shape_def)
qed

lemma compile_opt_layer:
  assumes "compile_layer al a k = Some (ARS_OK, b)" "pkt_wf a" "k < p_layer_nr a" "l_type (p_layer a k) = t"
    "t = ARS_TYPE_IPOPT \<or> t = ARS_TYPE_TCPOPT"
  shows "l_size (p_layer b k) = l_size (p_layer a k) + opt_padding t a k"
    and "layer_out (p_layer b k) = layer_out (p_layer a k) @ replicate (opt_padding t a k) 1"
proof -
  have wf: "layer_wf (p_layer a k)" using assms(2,3) by (rule pkt_wf_below)
  obtain msg where c: "compiler_opt t msg al a k = Some (ARS_OK, b)"
    using assms(1,4,5) by (auto simp: compile_layer_def li_compiler_def ars_compiler_ipopt_def ars_compiler_tcpopt_def)
  obtain d where d: "length d = l_size (p_layer a k) + opt_padding t a k"
      "d = layer_out (p_layer a k) @ replicate (opt_padding t a k) 1"
      "compiler_opt t msg al a k =
      (if opt_padding t a k = 0 then Some (ARS_OK, a)
       else if \<not> al (length d) then Some (ARS_NOMEM, ars_set_error al msg a)
       else Some (ARS_OK, upd_layer k (\<lambda>l. l\<lparr>l_data := Some d, l_size := length d\<rparr>) a))"
    using compiler_opt_eq [OF wf] by blast
  let ?b = "upd_layer k (\<lambda>l. l\<lparr>l_data := Some d, l_size := length d\<rparr>) a"
  have res: "opt_padding t a k = 0 \<and> b = a \<or> b = ?b"
    using c unfolding d(3) by (auto split: if_splits)
  have "layer_out (p_layer ?b k) = d" "l_size (p_layer ?b k) = length d" by (simp_all add: layer_out_def)
  then have eq: "layer_out (p_layer ?b k) = layer_out (p_layer a k) @ replicate (opt_padding t a k) 1"
    "l_size (p_layer ?b k) = l_size (p_layer a k) + opt_padding t a k" using d(1,2) by argo+
  show "l_size (p_layer b k) = l_size (p_layer a k) + opt_padding t a k"
    using res eq(2) by auto
  show "layer_out (p_layer b k) = layer_out (p_layer a k) @ replicate (opt_padding t a k) 1"
    using res eq(1) by auto
qed

text \<open>The last layer of a run gets the padding of the whole run, the others none.\<close>

lemma compiled_run_sizes:
  assumes "ars_compile al p = Some (ARS_OK, q)" "pkt_wf p" "run_of t p j e" "t = ARS_TYPE_IPOPT \<or> t = ARS_TYPE_TCPOPT" "j \<le> k" "k < e"
  shows "\<exists>n < 4. layer_out (p_layer q k) = layer_out (p_layer p k) @ replicate n 1 \<and> l_size (p_layer q k) = l_size (p_layer p k) + n
    \<and> n = (if k = e - 1 then (4 - sum_list (map (\<lambda>k. l_size (p_layer p k)) [j..<e]) mod 4) mod 4 else 0)"
proof -
  have k: "k < p_layer_nr p" "l_type (p_layer p k) = t" "e \<le> p_layer_nr p" "p_layer_nr p \<le> ARS_MAX_LAYER"
    using assms(2,3,5,6) by (auto simp: run_of_def pkt_wf_def)
  obtain a b where ab: "compile_layer al a k = Some (ARS_OK, b)" "pkt_wf a" "same_shape p a"
    "\<And>i. k \<le> i \<Longrightarrow> p_layer q i = p_layer b i" "\<And>i. i \<le> k \<Longrightarrow> p_layer a i = p_layer p i"
    by (rule ars_compile_at [OF assms(1,2) k(1)]) blast
  have ty: "l_type (p_layer a i) = l_type (p_layer p i)" "p_layer_nr a = p_layer_nr p" for i using ab(3) by (simp_all add: same_shape_def)
  have pad: "opt_padding t a k = (if k = e - 1 then (4 - sum_list (map (\<lambda>k. l_size (p_layer p k)) [j..<e]) mod 4) mod 4 else 0)"
  proof (cases "k = e - 1")
    case False
    then have "k + 1 < e" using assms(6) by simp
    then have "l_type (p_layer a (k + 1)) = t" "k \<noteq> ARS_MAX_LAYER - 1"
      using assms(3,5) k(3,4) ty by (auto simp: run_of_def)
    then show ?thesis using False by (simp add: opt_padding_def)
  next
    case True
    then have e: "e = k + 1" using assms(6) by simp
    have first: "first_of_run t a k = j"
    proof (rule first_of_run_eq [OF assms(5)])
      show "l_type (p_layer a i) = t" if "j \<le> i" "i < k" for i
        using assms(3) that e unfolding run_of_def ty by simp
      show "j = 0 \<or> l_type (p_layer a (j - 1)) \<noteq> t" using assms(3) unfolding run_of_def ty by blast
    qed
    have nt: "\<not> (k \<noteq> ARS_MAX_LAYER - 1 \<and> l_type (p_layer a (k + 1)) = t)"
    proof
      assume "k \<noteq> ARS_MAX_LAYER - 1 \<and> l_type (p_layer a (k + 1)) = t"
      then have "e < ARS_MAX_LAYER" "l_type (p_layer p e) = t" using k(1,4) e ty(1) by simp_all
      then show False using assms(3) by (simp add: run_of_def)
    qed
    have "map (\<lambda>k. l_size (p_layer a k)) [j..<e] = map (\<lambda>k. l_size (p_layer p k)) [j..<e]"
      using ab(5) e by (intro map_upt_cong) simp
    then have "sum_list (map (\<lambda>k. l_size (p_layer a k)) [j..<e]) = sum_list (map (\<lambda>k. l_size (p_layer p k)) [j..<e])"
      by (rule arg_cong)
    then have "ars_relative_size a j - ars_relative_size a (k + 1) = sum_list (map (\<lambda>k. l_size (p_layer p k)) [j..<e])"
      using relative_size_split [OF ab(2), of j e] assms(5) k(3) ty(2) unfolding e [symmetric]
      by (simp only: order.trans [OF assms(5) less_imp_le [OF assms(6)]] add_diff_cancel_right')
    then show ?thesis unfolding opt_padding_def if_not_P [OF nt] first if_P [OF True] by (rule arg_cong)
  qed
  have "opt_padding t a k < 4" by (simp add: opt_padding_def)
  then show ?thesis
    using compile_opt_layer [OF ab(1,2) _ _ assms(4)] k(1,2) ty ab(4,5) pad
    by (intro exI [of _ "opt_padding t a k"]) simp
qed

lemma compiled_run_total:
  assumes "ars_compile al p = Some (ARS_OK, q)" "pkt_wf p" "run_of t p j e" "t = ARS_TYPE_IPOPT \<or> t = ARS_TYPE_TCPOPT"
  shows "sum_list (map (\<lambda>k. l_size (p_layer q k)) [j..<e]) =
    (let s = sum_list (map (\<lambda>k. l_size (p_layer p k)) [j..<e]) in s + (4 - s mod 4) mod 4)"
proof -
  let ?s = "sum_list (map (\<lambda>k. l_size (p_layer p k)) [j..<e])"
  obtain m where e: "e = Suc m" "j \<le> m" using assms(3) by (cases e) (auto simp: run_of_def)
  have "map (\<lambda>k. l_size (p_layer q k)) [j..<m] = map (\<lambda>k. l_size (p_layer p k)) [j..<m]"
    using compiled_run_sizes [OF assms] e by fastforce
  then have "sum_list (map (\<lambda>k. l_size (p_layer q k)) [j..<m]) = sum_list (map (\<lambda>k. l_size (p_layer p k)) [j..<m])"
    by (rule arg_cong)
  moreover have "l_size (p_layer q m) = l_size (p_layer p m) + (4 - ?s mod 4) mod 4"
    using compiled_run_sizes [OF assms e(2)] e(1) by auto
  ultimately show ?thesis using e by (simp add: Let_def)
qed

section \<open>The datagram\<close>

lemma build_loop_eq:
  "(\<And>l. l \<in> set ls \<Longrightarrow> layer_wf l) \<Longrightarrow> off + length (concat (map layer_out ls)) \<le> length packet \<Longrightarrow>
     build_loop ls off packet = Some (take off packet @ concat (map layer_out ls) @ drop (off + length (concat (map layer_out ls))) packet)"
proof (induction ls arbitrary: off packet)
  case (Cons l ls)
  let ?bs = "layer_out l" and ?rest = "concat (map layer_out ls)"
  have l: "layer_bytes l = Some ?bs" "length ?bs = l_size l"
    using Cons.prems(1) [of l] by (simp_all add: layer_bytes_out length_layer_out)
  have s: "st packet off ?bs = Some (take off packet @ ?bs @ drop (off + length ?bs) packet)"
    using Cons.prems(2) by (simp add: st_def)
  let ?p = "take off packet @ ?bs @ drop (off + length ?bs) packet"
  have "build_loop ls (off + l_size l) ?p
      = Some (take (off + l_size l) ?p @ ?rest @ drop (off + l_size l + length ?rest) ?p)"
    using Cons.prems l(2) by (intro Cons.IH) auto
  moreover have "take (off + l_size l) ?p = take off packet @ ?bs"
    using Cons.prems(2) l(2) by simp
  moreover have "drop (off + l_size l + length ?rest) ?p = drop (off + length (concat (map layer_out (l # ls)))) packet"
    using Cons.prems(2) l(2) by (simp add: add.assoc add.commute [of "length _"])
  ultimately show ?case by (simp add: l(1) s)
qed simp

lemma build_packet_eq:
  assumes "pkt_wf p"
  shows "ars_build_packet al p =
    (if pkt_out p 0 = [] then Some (Inl ARS_INVALID, ars_set_error al ''Total size 0 building the packet'' p)
     else if \<not> al (length (pkt_out p 0)) then Some (Inl ARS_NOMEM, ars_set_error al ''Out of memory building the packet'' p)
     else Some (Inr (pkt_out p 0), p))"
proof -
  have "build_loop (live_layers p 0) 0 (replicate (length (pkt_out p 0)) 0) = Some (pkt_out p 0)"
  proof -
    have "l \<in> set (live_layers p 0) \<Longrightarrow> layer_wf l" for l
      by (rule span_layers_wf [OF assms]) simp_all
    then show ?thesis
      using build_loop_eq [of "live_layers p 0" 0 "replicate (length (pkt_out p 0)) 0"]
      by (simp add: live_layers_eq [OF assms] pkt_out_def)
  qed
  then show ?thesis
    by (simp add: ars_build_packet_def ars_packet_size_def relative_size_eq [OF assms] Let_def)
qed

lemma span_run:
  assumes "j \<le> e" "e \<le> ARS_MAX_LAYER" "\<And>k. j \<le> k \<Longrightarrow> k < e \<Longrightarrow> P (l_type (p_layer p k))"
    "e < ARS_MAX_LAYER \<Longrightarrow> \<not> P (l_type (p_layer p e))"
  shows "span_layers P p j = map (p_layer p) [j..<e]"
  using assms
proof (induction "e - j" arbitrary: j)
  case 0
  then have "j = e" by simp
  with 0 show ?case by (subst span_layers.simps) auto
next
  case (Suc n)
  then have "span_layers P p (Suc j) = map (p_layer p) [Suc j..<e]" by simp
  with Suc show ?case by (simp add: span_layers.simps [of P p j] upt_conv_Cons)
qed

text \<open>A receiver, written from RFC 791, RFC 768 and RFC 793 on the bytes of the datagram.\<close>

definition be16 :: "nat \<Rightarrow> bytes" where
  "be16 n = [of_nat (n div 256), of_nat n]"

definition hdr_bytes :: "bytes \<Rightarrow> nat" where
  "hdr_bytes bs = 4 * unat (bs ! 0 AND 0xf)"

definition ipv4_accepts :: "bytes \<Rightarrow> bool" where
  "ipv4_accepts bs \<longleftrightarrow> 20 \<le> length bs \<and> drop_bit 4 (bs ! 0) = 4 \<and> 20 \<le> hdr_bytes bs \<and> hdr_bytes bs \<le> length bs
     \<and> take 2 (drop 2 bs) = be16 (length bs) \<and> rfc1071 (take (hdr_bytes bs) bs) = 0"

definition transport_accepts :: "bytes \<Rightarrow> bool" where
  "transport_accepts bs \<longleftrightarrow>
     (let seg = drop (hdr_bytes bs) bs
      in rfc1071 (take 8 (drop 12 bs) @ [0, bs ! 9] @ be16 (length seg) @ seg) = 0)"

lemma bytes16_htons: "n < 65536 \<Longrightarrow> bytes16 (htons (of_nat n)) = be16 n"
proof -
  assume n: "n < 65536"
  then have w: "unat (of_nat n :: u16) = n" by (simp add: unat_of_nat)
  have "unat (ucast (drop_bit 8 (of_nat n :: u16)) :: u8) = unat (of_nat (n div 256) :: u8)"
    using n by (simp only: unat_high_byte16 w) (simp add: unat_of_nat less_mult_imp_div_less)
  moreover have "unat (ucast (of_nat n :: u16) :: u8) = unat (of_nat n :: u8)"
    by (simp only: unat_low_byte16 w) (simp add: unat_of_nat)
  ultimately show "bytes16 (htons (of_nat n)) = be16 n"
    unfolding htons_def bytes16_le16 be16_def by (simp add: word_unat_eq_iff)
qed

lemma rfc1071_0: "length bs \<le> 131074 \<Longrightarrow> ars_cksum bs = 0 \<Longrightarrow> rfc1071 bs = 0"
proof -
  assume len: "length bs \<le> 131074" and "ars_cksum bs = 0"
  then have "fold_nat (word_sum bs) = 65535"
    using unat_ars_cksum [OF len] fold_nat_less [of "word_sum bs"] by simp
  then have "fold_nat (word_sum_be bs) = 65535"
    using swap_fold [OF len refl] by simp
  then show ?thesis by (simp add: rfc1071_def)
qed

text \<open>An IPv4 packet: the fixed header, options, a TCP or UDP header at layer \<open>j\<close>, and anything
  behind it, everything left to the compiler.\<close>

definition plain_datagram :: "ars_packet \<Rightarrow> nat \<Rightarrow> bool" where
  "plain_datagram p j \<longleftrightarrow> 0 < j \<and> j < p_layer_nr p
     \<and> l_type (p_layer p 0) = ARS_TYPE_IP \<and> l_size (p_layer p 0) = 20 \<and> l_flags (p_layer p 0) = 0
     \<and> (\<forall>k < j. 0 < k \<longrightarrow> l_type (p_layer p k) = ARS_TYPE_IPOPT)
     \<and> sum_list (map (\<lambda>k. l_size (p_layer p k)) [1..<j]) \<le> 40
     \<and> l_type (p_layer p j) \<in> {ARS_TYPE_TCP, ARS_TYPE_UDP} \<and> l_flags (p_layer p j) = 0
     \<and> hdr_min (l_type (p_layer p j)) \<le> l_size (p_layer p j)"

lemma opt_pad_le: "s \<le> 40 \<Longrightarrow> s + (4 - s mod 4) mod 4 \<le> 40" for s :: nat
proof -
  have *: "4 * q + r + (4 - r) mod 4 \<le> 40" if "r < 4" "4 * q + r \<le> 40" for q r :: nat
    using that by (cases "r = 0") simp_all
  show "s \<le> 40 \<Longrightarrow> ?thesis" using * [of "s mod 4" "s div 4"] by simp
qed

lemma plain_opts:
  assumes "plain_datagram p j" "pkt_wf p" "ars_compile al p = Some (ARS_OK, q)"
  defines "n \<equiv> sum_list (map (\<lambda>k. l_size (p_layer q k)) [1..<j])"
  shows "n \<le> 40" "n mod 4 = 0"
proof -
  let ?s = "sum_list (map (\<lambda>k. l_size (p_layer p k)) [1..<j])"
  have "n = ?s + (4 - ?s mod 4) mod 4"
  proof (cases "j = 1")
    case True
    then show ?thesis by (simp add: n_def)
  next
    case False
    have "run_of ARS_TYPE_IPOPT p 1 j"
      using assms(1) False by (auto simp: run_of_def plain_datagram_def)
    then show ?thesis using compiled_run_total [OF assms(3,2)] by (simp add: n_def Let_def)
  qed
  moreover have "?s \<le> 40" using assms(1) by (simp add: plain_datagram_def)
  moreover from this have "?s + (4 - ?s mod 4) mod 4 \<le> 40" by (rule opt_pad_le)
  ultimately show "n \<le> 40" "n mod 4 = 0" using opt_size_mod [of ?s] by simp_all
qed

lemma skip_ipopt_left_0: "(\<And>k. 0 < k \<Longrightarrow> k \<le> j \<Longrightarrow> l_type (p_layer p k) = ARS_TYPE_IPOPT) \<Longrightarrow> skip_ipopt_left p j = 0"
  by (induction j) auto

lemma hdr_words_unat: "n \<le> 40 \<Longrightarrow> unat (hdr_words n) = 5 + n div 4"
proof -
  assume "n \<le> 40"
  then have "n div 4 \<le> 10" by simp
  then show ?thesis by (simp add: hdr_words_def and_0xf_unat unat_word_ariths unat_of_nat)
qed

lemma plain_accepted:
  assumes "plain_datagram p j" "pkt_wf p" "ars_compile al p = Some (ARS_OK, q)"
    and "bs = pkt_out q 0" "length bs \<le> 65535"
  shows "ipv4_accepts bs" "transport_accepts bs"
    "bs ! 9 = (if l_type (p_layer p j) = ARS_TYPE_TCP then 6 else 17)"
    "drop (hdr_bytes bs) bs = pkt_out q j"
proof -
  note pd = assms(1) [unfolded plain_datagram_def]
  have wf: "pkt_wf q" and sh: "same_shape p q" using ars_compile_wf [OF assms(3,2)] by simp_all
  have nr: "0 < p_layer_nr q" "j < p_layer_nr q" "0 < j" "p_layer_nr q \<le> ARS_MAX_LAYER"
    using pd sh wf by (simp_all add: same_shape_def pkt_wf_def)
  have ty: "l_type (p_layer q k) = l_type (p_layer p k)" "l_flags (p_layer q k) = l_flags (p_layer p k)" for k
    using sh by (simp_all add: same_shape_def)
  define opts where "opts = concat (map layer_out (map (p_layer q) [1..<j]))"
  define d where "d = data_of q 0"
  have span: "span_layers (\<lambda>t. t = ARS_TYPE_IPOPT) q (0 + 1) = map (p_layer q) [1..<j]"
    using pd nr by (simp add: ty) (rule span_run, auto simp: ty)
  have optlen: "length opts = sum_list (map (\<lambda>k. l_size (p_layer q k)) [1..<j])"
    unfolding opts_def length_concat map_map comp_def
    by (intro arg_cong [where f = sum_list] map_upt_cong length_layer_out pkt_wf_below [OF wf]) (use nr in simp)
  note po = plain_opts [OF assms(1-3), folded optlen]
  have s0: "l_size (p_layer q 0) = 20"
    using ars_compile_size [OF assms(3,2), of 0] pd by simp
  have ld: "20 \<le> length d"
    using pkt_wf_below [OF wf nr(1)] s0 by (simp add: d_def layer_wf_def layer_len_data_of)
  have hb: "ip_header_bytes q 0 = take 20 d @ opts" by (simp only: ip_header_bytes_def span opts_def d_def)
  have bs: "bs = (take 20 d @ opts) @ pkt_out q j"
  proof -
    have "[0..<p_layer_nr q] = 0 # [1..<j] @ [j..<p_layer_nr q]"
      using nr upt_add_eq_append [of 1 j "p_layer_nr q - j"] by (simp add: upt_conv_Cons)
    then show ?thesis by (simp add: assms(4) pkt_out_def opts_def layer_out_data_of s0 d_def)
  qed
  have lh: "length (take 20 d @ opts) = 20 + length opts" using ld by simp
  have len: "length (ip_header_bytes q 0) \<le> 131074" using po(1) ld by (simp add: hb)
  have fl: "l_flags (p_layer p 0) = 0" "l_flags (p_layer p j) = 0" "ARS_DONTTAKE 0 x" for x
    using pd by (simp_all add: ARS_DONTTAKE_def)
  have p0: "0 < p_layer_nr p" "j < p_layer_nr p" "l_type (p_layer p 0) = ARS_TYPE_IP" using pd by auto
  note ip = ars_compile_ip [OF assms(3,2) p0(1,3) len, unfolded fl(1), OF fl(3), folded d_def]
  have nth: "bs ! k = d ! k" if "k < 20" for k using that ld by (simp add: bs nth_append)
  have h: "hdr_bytes bs = 20 + length opts"
  proof -
    have "unat (bs ! 0 AND 0xf) = 5 + length opts div 4"
      using ip(2) nth [of 0] hdr_words_unat [OF po(1)] span optlen by (simp add: opts_size_def comp_def)
    then show ?thesis using po(2) by (simp add: hdr_bytes_def) presburger
  qed
  have hl: "hdr_bytes bs = length (take 20 d @ opts)" using h lh by simp
  have ds': "drop (length (take 20 d @ opts)) bs = pkt_out q j" "take (length (take 20 d @ opts)) bs = take 20 d @ opts"
    using append_eq_conv_conj [of "take 20 d @ opts" "pkt_out q j" bs] bs by simp_all
  show ds: "drop (hdr_bytes bs) bs = pkt_out q j" using ds'(1) by (simp only: hl)
  have t2: "take 2 (drop 2 bs) = take 2 (drop 2 d)"
    using ld nth by (simp add: take2_nth bs)
  have r1: "rfc1071 (take (hdr_bytes bs) bs) = 0"
    unfolding hl ds' using ip(5) len unfolding hb by (intro rfc1071_0)
  show "ipv4_accepts bs"
  proof -
    have "20 + length opts \<le> length bs" using lh unfolding bs by simp
    moreover have "take 2 (drop 2 d) = be16 (length bs)"
      using ip(3) assms(4,5) bytes16_htons [of "length bs"] by simp
    ultimately show ?thesis
      unfolding ipv4_accepts_def h using ip(1) nth [of 0] r1 t2 by (simp add: h)
  qed
  have proto: "ip_proto_byte q 0 = (if l_type (p_layer p j) = ARS_TYPE_TCP then 6 else 17)"
  proof -
    have nx: "ip_next_index q 0 = j" using span nr(3) by (simp add: ip_next_index_def ty fl)
    have "\<not> l_type (p_layer q j) = ARS_TYPE_IPOPT" using pd by (auto simp: ty)
    then have "span_layers (\<lambda>t. t = ARS_TYPE_IPOPT) q j = []" by (subst span_layers.simps) simp
    then show ?thesis using pd nr by (auto simp: ip_proto_byte_def nx Let_def ty ip_proto_of_def)
  qed
  show p9: "bs ! 9 = (if l_type (p_layer p j) = ARS_TYPE_TCP then 6 else 17)"
    using ip(4) nth [of 9] proto by simp
  have sk: "skip_ipopt_left q (j - 1) = 0"
    using pd by (intro skip_ipopt_left_0) (simp add: ty)
  have t8: "take 8 (drop 12 bs) = take 8 (drop 12 d)" using ld by (simp add: bs drop_take)
  have lj: "length (pkt_out q j) < 65536" using assms(5) by (simp add: bs)
  have ps: "pseudo_header q j = take 8 (drop 12 bs) @ [0, bs ! 9] @ be16 (length (pkt_out q j))"
    using p0(3) pd unfolding pseudo_header_def Let_def sk addr_bytes_def ty p9 t8 bytes16_htons [OF lj]
    by (auto simp: d_def transport_proto_def)
  have "ars_cksum (pseudo_header q j @ pkt_out q j) = 0"
    using pd lj by (intro ars_compile_cksum(1) [OF assms(3,2) p0(2) refl]) (auto simp: fl)
  then show "transport_accepts bs"
    unfolding transport_accepts_def Let_def ds ps using lj by (intro rfc1071_0) (simp_all add: be16_def)
qed

section \<open>When the compilation succeeds\<close>

text \<open>The header that a transport checksum needs is in place.\<close>

definition parent_ok :: "ars_packet \<Rightarrow> nat \<Rightarrow> bool" where
  "parent_ok p j \<longleftrightarrow> j \<noteq> 0 \<and> (let k = skip_ipopt_left p (j - 1) in
     (l_type (p_layer p k) = ARS_TYPE_IP \<and> l_type (p_layer p j) \<noteq> ARS_TYPE_ICMP6)
     \<or> (l_type (p_layer p k) = ARS_TYPE_IP6 \<and> k = j - 1))"

definition needs_parent :: "ars_layer \<Rightarrow> bool" where
  "needs_parent l \<longleftrightarrow> l_type l \<in> {ARS_TYPE_TCP, ARS_TYPE_UDP, ARS_TYPE_ICMP6}
     \<and> ARS_DONTTAKE (l_flags l) (take_cksum (l_type l))"

lemma udptcp_parent:
  assumes "pkt_wf p" "j < p_layer_nr p" "parent_ok p j" "l_type (p_layer p j) \<in> {ARS_TYPE_TCP, ARS_TYPE_UDP}"
  shows "\<exists>c. ars_udptcp_cksum al p j = Some (Inr c, p)"
proof -
  let ?k = "skip_ipopt_left p (j - 1)"
  have k: "?k < p_layer_nr p" using skip_ipopt_left_le [of p "j - 1"] assms(2) by linarith
  note wf = pkt_wf_below [OF assms(1) k]
  from assms(3) consider "j \<noteq> 0" "l_type (p_layer p ?k) = ARS_TYPE_IP"
    | "j \<noteq> 0" "l_type (p_layer p ?k) = ARS_TYPE_IP6" "?k = j - 1" by (auto simp: parent_ok_def Let_def)
  then show ?thesis
  proof cases
    case 1
    obtain s d where "rd p ?k 12 4 = Some s" "rd p ?k 16 4 = Some d"
      using rd_defined [OF wf, of 12 4] rd_defined [OF wf, of 16 4] 1 by (auto simp: hdr_min_def)
    with 1 assms(1,2) show ?thesis by (simp add: ars_udptcp_cksum_def Let_def cksum_live)
  next
    case 2
    obtain s d where "rd p (j - 1) 8 16 = Some s" "rd p (j - 1) 24 16 = Some d"
      using rd_defined [OF wf, of 8 16] rd_defined [OF wf, of 24 16] 2 by (auto simp: hdr_min_def)
    with 2 assms(1,2) show ?thesis
      unfolding ars_udptcp_cksum_def ars_ip6_pseudo_cksum_def Let_def
      by (simp add: cksum_live del: One_nat_def)
  qed
qed

lemma icmp6_parent:
  assumes "pkt_wf p" "j < p_layer_nr p" "parent_ok p j" "l_type (p_layer p j) = ARS_TYPE_ICMP6"
  shows "\<exists>c. ars_ip6_pseudo_cksum al p j nh = Some (Inr c, p)"
proof -
  have 2: "j \<noteq> 0" "l_type (p_layer p (j - 1)) = ARS_TYPE_IP6"
    using assms(3,4) by (auto simp: parent_ok_def Let_def)
  then have "j - 1 < p_layer_nr p" using assms(2) by linarith
  note wf = pkt_wf_below [OF assms(1) this]
  obtain s d where "rd p (j - 1) 8 16 = Some s" "rd p (j - 1) 24 16 = Some d"
    using rd_defined [OF wf, of 8 16] rd_defined [OF wf, of 24 16] 2 by (auto simp: hdr_min_def)
  with 2 assms(1,2) show ?thesis
    unfolding ars_ip6_pseudo_cksum_def Let_def by (simp add: cksum_live del: One_nat_def)
qed

lemma parent_ok_cong: "same_shape p q \<Longrightarrow> parent_ok q j = parent_ok p j"
  using skip_ipopt_left_cong [of q p "j - 1"] by (simp add: parent_ok_def same_shape_def Let_def del: One_nat_def)

lemma needs_parent_cong: "same_shape p q \<Longrightarrow> needs_parent (p_layer q j) = needs_parent (p_layer p j)"
  by (simp add: needs_parent_def same_shape_def)

lemma same_shape_type: "same_shape p q \<Longrightarrow> l_type (p_layer q j) = l_type (p_layer p j)"
  by (simp add: same_shape_def)

lemma writes_same_shape: "writes i S p q \<Longrightarrow> same_shape p q"
  by (simp add: same_shape_def writes_fields)

lemma store_cksum_ok:
  assumes "pkt_wf p" "j < p_layer_nr p" "off + 2 \<le> hdr_min (l_type (p_layer p j))"
    "\<And>q. pkt_wf q \<Longrightarrow> j < p_layer_nr q \<Longrightarrow> same_shape p q \<Longrightarrow> \<exists>c. f q = Some (Inr c, q)"
  shows "\<exists>q. store_cksum j off f p = Some (ARS_OK, q)"
proof -
  have len: "off + 2 \<le> length (data_of p j)" "l_data (p_layer p j) \<noteq> None"
    using pkt_wf_below [OF assms(1,2)] assms(3) by (auto simp: layer_wf_def layer_len_data_of data_of_def split: option.splits)
  have wr: "\<exists>q. wr16 j off w p = Some q" if "off + 2 \<le> length (data_of p j)" "l_data (p_layer p j) \<noteq> None" for w p
    using that by (auto simp: wr16_def wr_def st_eq_Some data_of_def split: option.splits)
  obtain a where a: "wr16 j off 0 p = Some a" using wr [OF len] by blast
  have w: "writes j {off, Suc off} p a" using wr16_writes [OF a] by simp
  obtain c where c: "f a = Some (Inr c, a)"
    using assms(4) [of a] writes_wf [OF w assms(1,2)] writes_fields(1) [OF w] assms(2) writes_same_shape [OF w] by auto
  obtain b where "wr16 j off c a = Some b"
    using wr [of a c] writes_length [OF w] writes_fields(5) [OF w, of j] len by auto
  then show ?thesis by (simp add: store_cksum_def a c)
qed

lemma ip6_compiler_ok: "ars_compiler_ip6 al p j = Some (r, q) \<Longrightarrow> r = ARS_OK"
  by (auto simp: ars_compiler_ip6_def Let_def split: bind_splits)

lemma tcp_hdrlen_writes: "tcp_hdrlen i p = Some q \<Longrightarrow> writes i {12} p q"
proof -
  assume "tcp_hdrlen i p = Some q"
  then obtain r v where "wr_hi i 12 5 p = Some r" "wr_hi i 12 v r = Some q"
    by (auto simp: tcp_hdrlen_def split: bind_splits)
  then show "writes i {12} p q" using wr_hi_writes writes_trans [of i "{12}" p r "{12}" q] by simp
qed

lemma transport_layer_ok:
  assumes "pkt_wf p" "j < p_layer_nr p" "needs_parent (p_layer p j) \<longrightarrow> parent_ok p j"
  shows "l_type (p_layer p j) = ARS_TYPE_TCP \<Longrightarrow> ars_compiler_tcp al p j = Some (r, q) \<Longrightarrow> r = ARS_OK"
    and "l_type (p_layer p j) = ARS_TYPE_UDP \<Longrightarrow> ars_compiler_udp al p j = Some (r, q) \<Longrightarrow> r = ARS_OK"
    and "l_type (p_layer p j) = ARS_TYPE_ICMP6 \<Longrightarrow> ars_compiler_icmp6 al p j = Some (r, q) \<Longrightarrow> r = ARS_OK"
proof -
  have step: "\<exists>b. store_cksum j off (\<lambda>p. ars_udptcp_cksum al p j) a = Some (ARS_OK, b)"
    if "writes j S p a" "l_type (p_layer p j) \<in> {ARS_TYPE_TCP, ARS_TYPE_UDP}" "parent_ok p j" "off + 2 \<le> hdr_min (l_type (p_layer p j))" for S a off
  proof (rule store_cksum_ok)
    have sh: "same_shape p a" using that(1) by (rule writes_same_shape)
    then have t: "l_type (p_layer a j) = l_type (p_layer p j)" "p_layer_nr a = p_layer_nr p" by (simp_all add: same_shape_def)
    show "pkt_wf a" using writes_wf [OF that(1) assms(1,2)] .
    show "j < p_layer_nr a" "off + 2 \<le> hdr_min (l_type (p_layer a j))" using t assms(2) that(4) by simp_all
    fix q assume q: "pkt_wf q" "j < p_layer_nr q" "same_shape a q"
    have "l_type (p_layer q j) = l_type (p_layer p j)" using q(3) t by (simp add: same_shape_def)
    moreover have "parent_ok q j" using parent_ok_cong [OF q(3)] parent_ok_cong [OF sh] that(3) by simp
    ultimately show "\<exists>c. ars_udptcp_cksum al q j = Some (Inr c, q)" using udptcp_parent [OF q(1,2)] that(2) by simp
  qed
  show "r = ARS_OK" if t: "l_type (p_layer p j) = ARS_TYPE_TCP" and c: "ars_compiler_tcp al p j = Some (r, q)"
  proof -
    obtain a where a: "unless_taken (l_flags (p_layer p j)) ARS_TAKE_TCP_HDRLEN (tcp_hdrlen j) p = Some a"
      "(if ARS_DONTTAKE (l_flags (p_layer p j)) ARS_TAKE_TCP_CKSUM
        then store_cksum j 16 (\<lambda>p. ars_udptcp_cksum al p j) a else Some (ARS_OK, a)) = Some (r, q)"
      using c by (auto simp: ars_compiler_tcp_def Let_def split: bind_splits)
    have "writes j {12} p a" by (rule unless_writes [OF a(1) tcp_hdrlen_writes])
    with step [of "{12}" a 16] a(2) t assms(3) show ?thesis
      by (auto simp: needs_parent_def take_cksum_def hdr_min_def split: if_splits)
  qed
  show "r = ARS_OK" if t: "l_type (p_layer p j) = ARS_TYPE_UDP" and c: "ars_compiler_udp al p j = Some (r, q)"
  proof -
    obtain a where a: "unless_taken (l_flags (p_layer p j)) ARS_TAKE_UDP_LEN
        (\<lambda>p. wr16 j 4 (htons (of_nat (ars_relative_size p j))) p) p = Some a"
      "(if ARS_DONTTAKE (l_flags (p_layer p j)) ARS_TAKE_UDP_CKSUM
        then store_cksum j 6 (\<lambda>p. ars_udptcp_cksum al p j) a else Some (ARS_OK, a)) = Some (r, q)"
      using c by (auto simp: ars_compiler_udp_def Let_def split: bind_splits)
    have "writes j {4, Suc 4} p a" by (rule unless_writes [OF a(1)]) (use wr16_writes in blast)
    with step [of "{4, Suc 4}" a 6] a(2) t assms(3) show ?thesis
      by (auto simp: needs_parent_def take_cksum_def hdr_min_def split: if_splits)
  qed
  show "r = ARS_OK" if t: "l_type (p_layer p j) = ARS_TYPE_ICMP6" and c: "ars_compiler_icmp6 al p j = Some (r, q)"
  proof (cases "ARS_DONTTAKE (l_flags (p_layer p j)) ARS_TAKE_ICMP6_CKSUM")
    case True
    then have "parent_ok p j" using t assms(3) by (simp add: needs_parent_def take_cksum_def)
    then have "\<exists>b. store_cksum j 2 (\<lambda>p. ars_ip6_pseudo_cksum al p j ARS_IPPROTO_ICMPV6) p = Some (ARS_OK, b)"
      using assms t by (intro store_cksum_ok icmp6_parent) (auto simp: hdr_min_def parent_ok_cong same_shape_type [of p])
    then show ?thesis using c True by (auto simp: ars_compiler_icmp6_def)
  next
    case False
    then show ?thesis using c by (simp add: ars_compiler_icmp6_def)
  qed
qed

lemma compile_layer_ok:
  assumes "pkt_wf p" "j < p_layer_nr p" "needs_parent (p_layer p j) \<longrightarrow> parent_ok p j" "\<forall>n. al n"
  shows "\<exists>q. compile_layer al p j = Some (ARS_OK, q)"
proof -
  obtain r q where c: "compile_layer al p j = Some (r, q)"
    using layer_compiles [OF assms(1,2), of al] by (auto simp: compiles_def)
  have plain: "\<exists>b. store_cksum j off (plain_cksum j) p = Some (ARS_OK, b)" if "off + 2 \<le> hdr_min (l_type (p_layer p j))" for off
    using assms(1,2) that by (intro store_cksum_ok) (auto simp: plain_cksum_def cksum_live)
  have opt: "compiler_opt t msg al p j = Some (r, q) \<Longrightarrow> r = ARS_OK" for t msg
    using compiler_opt_eq [OF pkt_wf_below [OF assms(1,2)], of t msg al] assms(4) by (auto split: if_splits)
  have "r = ARS_OK"
    using c plain [of 2] plain [of 10] transport_layer_ok [OF assms(1-3)] opt ip_compiler_steps [of al p j r q] ip6_compiler_ok
    unfolding compile_layer_def li_compiler_def
    by (cases "l_type (p_layer p j)")
      (auto simp: ars_compiler_icmp_def ars_compiler_igrp_def hdr_min_def ars_compiler_ipopt_def ars_compiler_tcpopt_def split: if_splits)
  with c show ?thesis by simp
qed

lemma compile_loop_ok:
  assumes "pkt_wf p" "n \<le> p_layer_nr p" "\<And>j. j < n \<Longrightarrow> needs_parent (p_layer p j) \<Longrightarrow> parent_ok p j" "\<forall>n. al n"
  shows "\<exists>q. compile_loop al p n = Some (ARS_OK, q)"
  using assms(1-3)
proof (induction n arbitrary: p)
  case (Suc n)
  obtain a where a: "compile_layer al p n = Some (ARS_OK, a)"
    using compile_layer_ok [of p n al] Suc.prems assms(4) by auto
  have c: "compiles n p (Some (ARS_OK, a))" using layer_compiles [of p n al] Suc.prems(1,2) a by simp
  have "same_shape p a"
    unfolding same_shape_def using c by (auto simp: compiles_def)
  moreover have "pkt_wf a" "n \<le> p_layer_nr a" using c Suc.prems(2) by (auto simp: compiles_def)
  ultimately have "\<exists>q. compile_loop al a n = Some (ARS_OK, q)"
    using Suc.prems(3) by (intro Suc.IH) (auto simp: parent_ok_cong [of p a] needs_parent_cong [of p a])
  then show ?case by (simp add: a)
qed simp

lemma taken_id: "\<not> ARS_DONTTAKE flags x \<Longrightarrow> unless_taken flags x f p = Some q \<Longrightarrow> q = p"
  by (simp add: unless_taken_def)

text \<open>A compiler of an IP layer leaves alone what the flags say.\<close>

lemma ip_kept:
  assumes "ars_compiler_ip al p i = Some (r, q)" "20 \<le> length (data_of p i)"
  defines "d \<equiv> data_of p i" and "e \<equiv> data_of q i" and "fl \<equiv> l_flags (p_layer p i)"
  shows "\<not> ARS_DONTTAKE fl ARS_TAKE_IP_VERSION \<Longrightarrow> drop_bit 4 (e ! 0) = drop_bit 4 (d ! 0)"
    and "\<not> ARS_DONTTAKE fl ARS_TAKE_IP_HDRLEN \<Longrightarrow> e ! 0 AND 0xf = d ! 0 AND 0xf"
    and "\<not> ARS_DONTTAKE fl ARS_TAKE_IP_TOTLEN \<Longrightarrow> take 2 (drop 2 e) = take 2 (drop 2 d)"
    and "\<not> ARS_DONTTAKE fl ARS_TAKE_IP_PROTOCOL \<Longrightarrow> e ! 9 = d ! 9"
    and "\<not> ARS_DONTTAKE fl ARS_TAKE_IP_CKSUM \<Longrightarrow> take 2 (drop 10 e) = take 2 (drop 10 d)"
proof -
  obtain p1 p2 p3 p4 where
    s: "unless_taken fl ARS_TAKE_IP_VERSION (wr_hi i 0 4) p = Some p1"
       "unless_taken fl ARS_TAKE_IP_HDRLEN (ip_hdrlen i) p1 = Some p2"
       "unless_taken fl ARS_TAKE_IP_TOTLEN (\<lambda>p. wr16 i 2 (htons (of_nat (ars_relative_size p i))) p) p2 = Some p3"
       "unless_taken fl ARS_TAKE_IP_PROTOCOL (ip_protocol i (ip_next_index p i)) p3 = Some p4"
       "unless_taken fl ARS_TAKE_IP_CKSUM (ip_check i) p4 = Some q"
    and w: "writes i {0} p p1" "writes i {0} p1 p2" "writes i {2, 3} p2 p3" "writes i {9} p3 p4"
    by (rule ip_compiler_steps [OF assms(1), folded fl_def]) (rule that; assumption)
  have w5: "writes i {10, 11} p4 q" by (rule unless_writes [OF s(5) ip_check_outside])
  have w02: "writes i {0} p p2" using writes_trans [OF w(1,2)] by simp
  have w03: "writes i {0, 2, 3} p p3" using writes_trans [OF w02 w(3)] by (rule writes_mono) auto
  have w04: "writes i {0, 2, 3, 9} p p4" using writes_trans [OF w03 w(4)] by (rule writes_mono) auto
  have w35: "writes i {9, 10, 11} p3 q" using writes_trans [OF w(4) w5] by (rule writes_mono) auto
  have w25: "writes i {2, 3, 9, 10, 11} p2 q" using writes_trans [OF w(3) w35] by (rule writes_mono) auto
  note lens = writes_length [OF w(1)] writes_length [OF w02] writes_length [OF w03] writes_length [OF w04] writes_length [OF w35]
  have b0: "e ! 0 = data_of p2 i ! 0" unfolding e_def by (rule writes_nth [OF w25]) (use assms(2) lens in auto)
  have hd: "drop_bit 4 (data_of p2 i ! 0) = drop_bit 4 (data_of p1 i ! 0)"
    using s(2) by (rule unless_taken_cases) (simp_all add: ip_hdrlen_writes)
  have lo: "data_of p1 i ! 0 AND 0xf = data_of p i ! 0 AND 0xf"
    using s(1) by (rule unless_taken_cases) (auto simp: set_hi_nibbles dest!: wr_hi_writes)
  show "drop_bit 4 (e ! 0) = drop_bit 4 (d ! 0)" if "\<not> ARS_DONTTAKE fl ARS_TAKE_IP_VERSION"
    using taken_id [OF that s(1)] hd b0 by (simp add: d_def)
  show "e ! 0 AND 0xf = d ! 0 AND 0xf" if "\<not> ARS_DONTTAKE fl ARS_TAKE_IP_HDRLEN"
    using taken_id [OF that s(2)] lo b0 by (simp add: d_def)
  show "take 2 (drop 2 e) = take 2 (drop 2 d)" if "\<not> ARS_DONTTAKE fl ARS_TAKE_IP_TOTLEN"
    using taken_id [OF that s(3)] writes_field [OF w35, of 2] writes_field [OF w02, of 2] lens assms(2) by (simp add: d_def e_def)
  show "e ! 9 = d ! 9" if "\<not> ARS_DONTTAKE fl ARS_TAKE_IP_PROTOCOL"
    using taken_id [OF that s(4)] writes_nth [OF w5, of 9] writes_nth [OF w03, of 9] lens assms(2) by (simp add: d_def e_def)
  show "take 2 (drop 10 e) = take 2 (drop 10 d)" if "\<not> ARS_DONTTAKE fl ARS_TAKE_IP_CKSUM"
    using taken_id [OF that s(5)] writes_field [OF w04, of 10] lens assms(2) by (simp add: d_def e_def)
qed

section \<open>Properties\<close>

text \<open>A concrete packet for the witnesses: IP, a one-byte option, UDP and three bytes of data.\<close>

definition demo_layer :: "ars_type \<Rightarrow> bytes \<Rightarrow> ars_layer" where
  "demo_layer t d = \<lparr>l_type = t, l_size = length d, l_flags = 0, l_data = Some d\<rparr>"

definition demo_packet :: "ars_layer list \<Rightarrow> ars_packet" where
  "demo_packet ls = \<lparr>p_error = None, p_layer_nr = length ls, p_layer = (\<lambda>k. if k < length ls then ls ! k else null_layer),
     p_default = (\<lambda>_. None), p_options = 0, aux = 0, aux_ipproto = 0\<rparr>"

definition demo_ip :: "u8 list \<Rightarrow> ars_layer" where
  "demo_ip x = demo_layer ARS_TYPE_IP ([0, 0, 0, 0, 0, 7, 0, 0, 64, 0, 0, 0, 10, 0, 0, 1, 10, 0, 0] @ x)"

definition demo_udp :: ars_packet where
  "demo_udp = demo_packet [demo_ip [2], demo_layer ARS_TYPE_IPOPT [1],
     demo_layer ARS_TYPE_UDP [0, 53, 4, 0, 0, 0, 0, 0], demo_layer ARS_TYPE_DATA [1, 2, 3]]"

lemma demo_packet_wf:
  "length ls \<le> ARS_MAX_LAYER \<Longrightarrow> list_all layer_wf ls \<Longrightarrow> pkt_wf (demo_packet ls)"
  by (auto simp: pkt_wf_def demo_packet_def list_all_length)

lemma demo_udp_wf: "pkt_wf demo_udp"
  unfolding demo_udp_def by (rule demo_packet_wf) (simp_all add: demo_layer_def demo_ip_def layer_wf_def layer_len_def hdr_min_def)

lemma demo_udp_plain: "plain_datagram demo_udp 2"
  unfolding plain_datagram_def
  by (auto simp: demo_udp_def demo_packet_def demo_layer_def demo_ip_def hdr_min_def numeral_2_eq_2 less_Suc_eq)

lemma demo_udp_compiles:
  "\<exists>q. ars_compile (\<lambda>_. True) demo_udp = Some (ARS_OK, q)
     \<and> (\<exists>bs. ars_build_packet (\<lambda>_. True) q = Some (Inr bs, q) \<and> length bs = 35)"
proof -
  have "(case ars_compile (\<lambda>_. True) demo_udp of Some (ARS_OK, q) \<Rightarrow> length (pkt_out q 0) = 35 | _ \<Rightarrow> False)"
    by code_simp
  then obtain q where q: "ars_compile (\<lambda>_. True) demo_udp = Some (ARS_OK, q)" "length (pkt_out q 0) = 35"
    by (auto split: option.splits prod.splits ars_code.splits)
  then show ?thesis
    using build_packet_eq [OF ars_compile_wf(1) [OF q(1) demo_udp_wf], of "\<lambda>_. True"] by auto
qed

text \<open>C6. \<open>ars_compile\<close> on any well-formed packet, with any flags and any memory behaviour,
  reads and writes only inside the blocks of the packet, keeps the packet well formed and changes
  neither the number of layers nor their types and flags.\<close>

theorem ars_compile_safe:
  assumes "pkt_wf p"
  shows "\<exists>r q. ars_compile al p = Some (r, q) \<and> pkt_wf q \<and> same_shape p q"
  using assms by (rule compile_safe)

theorem ars_compile_safe_witness:
  "pkt_wf demo_udp \<and> (\<exists>r q. ars_compile (\<lambda>n. n < 2) demo_udp = Some (r, q) \<and> pkt_wf q \<and> same_shape demo_udp q)"
  using ars_compile_safe [OF demo_udp_wf, of "\<lambda>n. n < 2"] demo_udp_wf by simp

text \<open>C7. \<open>ars_compile\<close> succeeds when memory suffices and every TCP, UDP and ICMPv6 layer whose
  checksum is not the user's has its IP header in place (an IPv4 header with options in between,
  or an IPv6 header directly before it).\<close>

theorem ars_compile_succeeds:
  assumes "pkt_wf p" "\<forall>n. al n" "\<forall>j < p_layer_nr p. needs_parent (p_layer p j) \<longrightarrow> parent_ok p j"
  shows "\<exists>q. ars_compile al p = Some (ARS_OK, q)"
  unfolding ars_compile_def using assms by (intro compile_loop_ok) auto

theorem ars_compile_succeeds_witness:
  "pkt_wf demo_udp \<and> needs_parent (p_layer demo_udp 2) \<and> parent_ok demo_udp 2
   \<and> (\<exists>q. ars_compile (\<lambda>_. True) demo_udp = Some (ARS_OK, q))"
proof -
  have n: "p_layer_nr demo_udp = 4" by (simp add: demo_udp_def demo_packet_def)
  have "list_all (\<lambda>j. needs_parent (p_layer demo_udp j) \<longrightarrow> parent_ok demo_udp j) [0..<4]" by code_simp
  then have ok: "\<forall>j < p_layer_nr demo_udp. needs_parent (p_layer demo_udp j) \<longrightarrow> parent_ok demo_udp j"
    unfolding n list_all_iff by simp
  have "needs_parent (p_layer demo_udp 2)" "parent_ok demo_udp 2" by code_simp+
  then show ?thesis using ars_compile_succeeds [OF demo_udp_wf _ ok, of "\<lambda>_. True"] demo_udp_wf by simp
qed

text \<open>C1. A compiled and built IPv4 packet whose header, options and TCP or UDP header are left
  to the compiler is a datagram that a receiver accepts: version, header length with the padded
  options, total length, header checksum, protocol number and the transport checksum over the
  pseudo header are those of RFC 791, 768 and 793.\<close>

theorem datagram_accepted:
  assumes "pkt_wf p" "plain_datagram p j" "ars_compile al p = Some (ARS_OK, q)"
    "ars_build_packet al q = Some (Inr bs, q')" "length bs \<le> 65535"
  shows "ipv4_accepts bs \<and> transport_accepts bs \<and> bs ! 9 = (if l_type (p_layer p j) = ARS_TYPE_TCP then 6 else 17)"
proof -
  have "bs = pkt_out q 0"
    using assms(4) build_packet_eq [OF ars_compile_wf(1) [OF assms(3,1)]] by (auto split: if_splits)
  with plain_accepted [OF assms(2,1,3)] assms(5) show ?thesis by blast
qed

theorem datagram_accepted_witness:
  "\<exists>q bs. pkt_wf demo_udp \<and> plain_datagram demo_udp 2 \<and> ars_compile (\<lambda>_. True) demo_udp = Some (ARS_OK, q)
     \<and> ars_build_packet (\<lambda>_. True) q = Some (Inr bs, q) \<and> length bs = 35 \<and> ipv4_accepts bs \<and> transport_accepts bs \<and> bs ! 9 = 17"
proof -
  obtain q bs where "ars_compile (\<lambda>_. True) demo_udp = Some (ARS_OK, q)" "ars_build_packet (\<lambda>_. True) q = Some (Inr bs, q)" "length bs = 35"
    using demo_udp_compiles by blast
  with datagram_accepted [OF demo_udp_wf demo_udp_plain this(1,2)] demo_udp_wf demo_udp_plain show ?thesis
    by (auto simp: demo_udp_def demo_packet_def demo_layer_def demo_ip_def)
qed

text \<open>C8. After a successful compilation the checksum of every TCP, UDP and ICMPv6 layer,
  wherever it is in the packet, verifies over the pseudo header of its own IPv4 or IPv6 header
  and all the layers from it on, unless the user has taken it over.\<close>

theorem transport_cksum_verifies:
  assumes "ars_compile al p = Some (ARS_OK, q)" "pkt_wf p" "j < p_layer_nr p"
    "l_type (p_layer p j) \<in> {ARS_TYPE_TCP, ARS_TYPE_UDP, ARS_TYPE_ICMP6}"
    "ARS_DONTTAKE (l_flags (p_layer p j)) (take_cksum (l_type (p_layer p j)))"
    "hdr_min (l_type (p_layer p j)) \<le> l_size (p_layer p j)" "length (pkt_out q j) \<le> 131034"
  shows "ars_cksum (pseudo_header q j @ pkt_out q j) = 0"
  using assms by (intro ars_compile_cksum(1) [OF assms(1-3) refl])

definition demo_ip6 :: ars_packet where
  "demo_ip6 = demo_packet [demo_layer ARS_TYPE_IP6 (0x60 # replicate 7 0 @ replicate 31 7 @ [1]),
     demo_layer ARS_TYPE_ICMP6 [128, 0, 0, 0, 0, 1, 0, 1], demo_layer ARS_TYPE_DATA [1, 2, 3]]"

theorem transport_cksum_verifies_witness:
  "\<exists>q. ars_compile (\<lambda>_. True) demo_ip6 = Some (ARS_OK, q) \<and> pkt_wf demo_ip6
     \<and> l_type (p_layer demo_ip6 1) = ARS_TYPE_ICMP6 \<and> length (pkt_out q 1) \<le> 131034
     \<and> ars_cksum (pseudo_header q 1 @ pkt_out q 1) = 0"
proof -
  have wf: "pkt_wf demo_ip6"
    unfolding demo_ip6_def by (rule demo_packet_wf) (simp_all add: demo_layer_def layer_wf_def layer_len_def hdr_min_def)
  have "(case ars_compile (\<lambda>_. True) demo_ip6 of Some (ARS_OK, q) \<Rightarrow> length (pkt_out q 1) = 11 | _ \<Rightarrow> False)"
    by code_simp
  then obtain q where q: "ars_compile (\<lambda>_. True) demo_ip6 = Some (ARS_OK, q)" "length (pkt_out q 1) = 11"
    by (auto split: option.splits prod.splits ars_code.splits)
  have l: "1 < p_layer_nr demo_ip6" "l_type (p_layer demo_ip6 1) = ARS_TYPE_ICMP6" "l_flags (p_layer demo_ip6 1) = 0" "l_size (p_layer demo_ip6 1) = 8"
    by (simp_all add: demo_ip6_def demo_packet_def demo_layer_def)
  show ?thesis
    using transport_cksum_verifies [OF q(1) wf l(1)] q wf l by (auto simp: ARS_DONTTAKE_def hdr_min_def)
qed

text \<open>C9. Options are padded to a multiple of 4 bytes: in a compiled packet the sizes of a
  maximal run of IP or TCP options add up to the next multiple of 4, the last option of the run
  got the missing 1 to 3 bytes, all \<open>NOP\<close>, and no other option changed.\<close>

theorem options_padded:
  assumes "ars_compile al p = Some (ARS_OK, q)" "pkt_wf p" "run_of t p j e" "t = ARS_TYPE_IPOPT \<or> t = ARS_TYPE_TCPOPT"
  shows "sum_list (map (\<lambda>k. l_size (p_layer q k)) [j..<e]) mod 4 = 0
    \<and> (\<forall>k. j \<le> k \<and> k < e - 1 \<longrightarrow> layer_out (p_layer q k) = layer_out (p_layer p k))
    \<and> (\<exists>n < 4. layer_out (p_layer q (e - 1)) = layer_out (p_layer p (e - 1)) @ replicate n 1)"
proof (intro conjI allI impI)
  show "sum_list (map (\<lambda>k. l_size (p_layer q k)) [j..<e]) mod 4 = 0"
    unfolding compiled_run_total [OF assms] Let_def by (rule opt_size_mod)
  show "layer_out (p_layer q k) = layer_out (p_layer p k)" if "j \<le> k \<and> k < e - 1" for k
    using compiled_run_sizes [OF assms, of k] that by auto
  have "j \<le> e - 1" "e - 1 < e" using assms(3) by (auto simp: run_of_def)
  then show "\<exists>n < 4. layer_out (p_layer q (e - 1)) = layer_out (p_layer p (e - 1)) @ replicate n 1"
    using compiled_run_sizes [OF assms] by blast
qed

theorem options_padded_witness:
  "\<exists>q. ars_compile (\<lambda>_. True) demo_udp = Some (ARS_OK, q) \<and> pkt_wf demo_udp \<and> run_of ARS_TYPE_IPOPT demo_udp 1 2
    \<and> (\<exists>n < 4. layer_out (p_layer q 1) = layer_out (p_layer demo_udp 1) @ replicate n 1)"
proof -
  have r: "run_of ARS_TYPE_IPOPT demo_udp 1 2"
    by (auto simp: run_of_def demo_udp_def demo_packet_def demo_layer_def demo_ip_def less_Suc_eq numeral_2_eq_2)
  obtain q where q: "ars_compile (\<lambda>_. True) demo_udp = Some (ARS_OK, q)" using demo_udp_compiles by blast
  show ?thesis using options_padded [OF q demo_udp_wf r] q r demo_udp_wf by auto
qed



text \<open>C11. What the user sets stays: in an IPv4 header every field whose flag is set, and every
  byte outside of the five computed fields, is the same before and after the compilation.\<close>

theorem user_fields_kept:
  assumes "ars_compile al p = Some (ARS_OK, q)" "pkt_wf p" "j < p_layer_nr p" "l_type (p_layer p j) = ARS_TYPE_IP"
  shows "(\<not> ARS_DONTTAKE (l_flags (p_layer p j)) ARS_TAKE_IP_VERSION \<longrightarrow> drop_bit 4 (data_of q j ! 0) = drop_bit 4 (data_of p j ! 0))
    \<and> (\<not> ARS_DONTTAKE (l_flags (p_layer p j)) ARS_TAKE_IP_HDRLEN \<longrightarrow> data_of q j ! 0 AND 0xf = data_of p j ! 0 AND 0xf)
    \<and> (\<not> ARS_DONTTAKE (l_flags (p_layer p j)) ARS_TAKE_IP_TOTLEN \<longrightarrow> take 2 (drop 2 (data_of q j)) = take 2 (drop 2 (data_of p j)))
    \<and> (\<not> ARS_DONTTAKE (l_flags (p_layer p j)) ARS_TAKE_IP_PROTOCOL \<longrightarrow> data_of q j ! 9 = data_of p j ! 9)
    \<and> (\<not> ARS_DONTTAKE (l_flags (p_layer p j)) ARS_TAKE_IP_CKSUM \<longrightarrow> take 2 (drop 10 (data_of q j)) = take 2 (drop 10 (data_of p j)))
    \<and> (\<forall>k < length (data_of p j). k \<notin> {0, 2, 3, 9, 10, 11} \<longrightarrow> data_of q j ! k = data_of p j ! k)"
proof -
  obtain a b where ab: "compile_layer al a j = Some (ARS_OK, b)" "pkt_wf a" "same_shape p a"
    "\<And>k. j \<le> k \<Longrightarrow> p_layer q k = p_layer b k" "p_layer a j = p_layer p j"
    by (rule ars_compile_at [OF assms(1-3)]) blast
  have c: "ars_compiler_ip al a j = Some (ARS_OK, b)"
    using ab(1,5) assms(4) by (simp add: compile_layer_def li_compiler_def)
  have dd: "data_of q j = data_of b j" "data_of a j = data_of p j" using ab(4,5) by (simp_all add: data_of_def)
  have len: "20 \<le> length (data_of a j)"
    using pkt_wf_below [OF assms(2,3)] assms(4) by (simp add: dd layer_wf_def layer_len_data_of hdr_min_def)
  show ?thesis
    using ip_kept [OF c len, unfolded ab(5)] writes_nth [OF ip_writes [OF c]] unfolding dd by blast
qed

theorem user_fields_kept_witness:
  "\<exists>p q. pkt_wf p \<and> ars_compile (\<lambda>_. True) p = Some (ARS_OK, q) \<and> l_type (p_layer p 0) = ARS_TYPE_IP
    \<and> \<not> ARS_DONTTAKE (l_flags (p_layer p 0)) ARS_TAKE_IP_PROTOCOL \<and> data_of q 0 ! 9 = 99 \<and> data_of q 0 ! 8 = 64"
proof -
  define p where "p = demo_packet [\<lparr>l_type = ARS_TYPE_IP, l_size = 20, l_flags = 8, l_data = Some (replicate 8 0 @ [64, 99] @ replicate 10 0)\<rparr>]"
  have wf: "pkt_wf p" unfolding p_def by (rule demo_packet_wf) (simp_all add: layer_wf_def layer_len_def hdr_min_def)
  have l: "0 < p_layer_nr p" "l_type (p_layer p 0) = ARS_TYPE_IP" "l_flags (p_layer p 0) = 8"
    by (simp_all add: p_def demo_packet_def)
  have d: "data_of p 0 ! 9 = 99" "data_of p 0 ! 8 = 64" "8 < length (data_of p 0)"
    by (simp_all add: p_def demo_packet_def data_of_def nth_append)
  have "\<forall>j < p_layer_nr p. needs_parent (p_layer p j) \<longrightarrow> parent_ok p j"
    by (simp add: p_def demo_packet_def needs_parent_def)
  then obtain q where q: "ars_compile (\<lambda>_. True) p = Some (ARS_OK, q)"
    using compile_loop_ok [OF wf order.refl, of "\<lambda>_. True"] unfolding ars_compile_def by auto
  have t: "\<not> ARS_DONTTAKE (l_flags (p_layer p 0)) ARS_TAKE_IP_PROTOCOL" by (simp add: l ARS_DONTTAKE_def)
  show ?thesis using user_fields_kept [OF q wf l(1,2)] wf q l d t by force
qed

text \<open>C12. When the user sets the header length of an IPv4 header and leaves the protocol to the
  compiler, the protocol becomes 4 (IP in IP) whatever layer follows: the search for the next
  layer then starts at the IP layer itself.\<close>

theorem hdrlen_taken_means_ipip:
  assumes "ars_compile al p = Some (ARS_OK, q)" "pkt_wf p" "j < p_layer_nr p" "l_type (p_layer p j) = ARS_TYPE_IP"
    "ARS_TAKE (l_flags (p_layer p j)) ARS_TAKE_IP_HDRLEN" "ARS_DONTTAKE (l_flags (p_layer p j)) ARS_TAKE_IP_PROTOCOL"
    "length (ip_header_bytes q j) \<le> 131074"
  shows "data_of q j ! 9 = ARS_IPPROTO_IPIP"
proof -
  have sh: "l_type (p_layer q j) = ARS_TYPE_IP" "l_flags (p_layer q j) = l_flags (p_layer p j)" "j < ARS_MAX_LAYER"
    using ars_compile_wf [OF assms(1,2)] assms(2,3,4) by (simp_all add: same_shape_def pkt_wf_def)
  then have "span_layers (\<lambda>t. t = ARS_TYPE_IPOPT) q j = []" by (subst span_layers.simps) simp
  then have "ip_proto_byte q j = ARS_IPPROTO_IPIP"
    using sh assms(5) by (simp add: ip_proto_byte_def ip_next_index_def ARS_TAKE_def ARS_DONTTAKE_def ip_proto_of_def)
  with ars_compile_ip(4) [OF assms(1-4,7,6)] show ?thesis by simp
qed

theorem hdrlen_taken_means_ipip_witness:
  "\<exists>p q. pkt_wf p \<and> ars_compile (\<lambda>_. True) p = Some (ARS_OK, q) \<and> l_type (p_layer p 1) = ARS_TYPE_UDP \<and> data_of q 0 ! 9 = 4"
proof -
  define p where "p = demo_packet [(demo_ip [2])\<lparr>l_flags := 2\<rparr>, demo_layer ARS_TYPE_UDP (replicate 8 0)]"
  have wf: "pkt_wf p" unfolding p_def
    by (rule demo_packet_wf) (simp_all add: demo_layer_def demo_ip_def layer_wf_def layer_len_def hdr_min_def)
  have l: "0 < p_layer_nr p" "l_type (p_layer p 0) = ARS_TYPE_IP" "l_type (p_layer p 1) = ARS_TYPE_UDP"
    "ARS_TAKE (l_flags (p_layer p 0)) ARS_TAKE_IP_HDRLEN" "ARS_DONTTAKE (l_flags (p_layer p 0)) ARS_TAKE_IP_PROTOCOL"
    by (simp_all add: p_def demo_packet_def demo_layer_def demo_ip_def ARS_TAKE_def ARS_DONTTAKE_def)
  have "(case ars_compile (\<lambda>_. True) p of Some (ARS_OK, q) \<Rightarrow> length (ip_header_bytes q 0) = 20 | _ \<Rightarrow> False)"
    unfolding p_def by code_simp
  then obtain q where q: "ars_compile (\<lambda>_. True) p = Some (ARS_OK, q)" "length (ip_header_bytes q 0) = 20"
    by (auto split: option.splits prod.splits ars_code.splits)
  show ?thesis using hdrlen_taken_means_ipip [OF q(1) wf l(1,2,4,5)] q wf l by auto
qed

text \<open>C13. \<open>ars_build_packet\<close> on a well-formed packet never leaves a block; it fails exactly for
  an empty packet or without memory, and otherwise returns the layers' bytes one after the other.\<close>

theorem build_packet_spec:
  assumes "pkt_wf p"
  shows "ars_build_packet al p =
    (if pkt_out p 0 = [] then Some (Inl ARS_INVALID, ars_set_error al ''Total size 0 building the packet'' p)
     else if \<not> al (length (pkt_out p 0)) then Some (Inl ARS_NOMEM, ars_set_error al ''Out of memory building the packet'' p)
     else Some (Inr (concat (map (\<lambda>k. layer_out (p_layer p k)) [0..<p_layer_nr p])), p))"
  using build_packet_eq [OF assms, of al] by (simp add: pkt_out_def comp_def)

theorem build_packet_spec_witness:
  "pkt_wf demo_udp \<and> ars_build_packet (\<lambda>_. True) demo_udp
    = Some (Inr (concat (map (\<lambda>k. layer_out (p_layer demo_udp k)) [0..<p_layer_nr demo_udp])), demo_udp)"
proof -
  have "pkt_out demo_udp 0 \<noteq> []" by code_simp
  with build_packet_spec [OF demo_udp_wf, of "\<lambda>_. True"] demo_udp_wf show ?thesis by simp
qed

text \<open>C14. \<open>ars_send\<close> without a given address: an IPv6 packet is refused, a packet that does not
  start with IP is an error, and otherwise the datagram handed to the socket is what
  \<open>ars_build_packet\<close> made and its address is the destination field of the IP header.\<close>

theorem send_spec:
  assumes "pkt_wf p"
  shows "\<exists>r q. ars_send al sendto None p = Some (r, q) \<and> p_layer q = p_layer p \<and>
    (r = ARS_OK \<longleftrightarrow> l_type (p_layer p 0) = ARS_TYPE_IP \<and> 20 \<le> length (pkt_out p 0) \<and> al (length (pkt_out p 0))
       \<and> sendto (pkt_out p 0) (take 4 (drop 16 (data_of p 0)))) \<and>
    (l_type (p_layer p 0) = ARS_TYPE_IP6 \<longrightarrow> r = ARS_INVALID)"
proof (cases "l_type (p_layer p 0) = ARS_TYPE_IP")
  case False
  then show ?thesis by (simp add: ars_send_def)
next
  case True
  then have "0 < p_layer_nr p" using pkt_wf_above [OF assms, of 0] by (cases "p_layer_nr p") auto
  from pkt_wf_below [OF assms this] True
  have dst: "rd p 0 16 4 = Some (take 4 (drop 16 (data_of p 0)))"
    using rd_defined [of p 0 16 4] rd_data_of [of p 0 16 4] by (auto simp: hdr_min_def)
  consider "pkt_out p 0 = []" | "pkt_out p 0 \<noteq> []" "\<not> al (length (pkt_out p 0))"
    | "pkt_out p 0 \<noteq> []" "al (length (pkt_out p 0))" "length (pkt_out p 0) < 20"
    | "pkt_out p 0 \<noteq> []" "al (length (pkt_out p 0))" "20 \<le> length (pkt_out p 0)" by linarith
  then show ?thesis
    by cases (simp_all add: ars_send_def dst True build_packet_eq [OF assms] ars_bsd_fix_def)
qed

theorem send_spec_witness:
  "pkt_wf demo_udp \<and> (\<exists>q. ars_send (\<lambda>_. True) (\<lambda>bs dst. dst = [10, 0, 0, 2]) None demo_udp = Some (ARS_OK, q))"
proof -
  have "l_type (p_layer demo_udp 0) = ARS_TYPE_IP \<and> length (pkt_out demo_udp 0) = 32
    \<and> take 4 (drop 16 (data_of demo_udp 0)) = [10, 0, 0, 2]" by code_simp
  then show ?thesis
    using send_spec [OF demo_udp_wf, of "\<lambda>_. True" "\<lambda>bs dst. dst = [10, 0, 0, 2]"] demo_udp_wf by auto
qed

end
