(* ===== verification/Split.thy ===== *)
theory Split
  imports Receiver
begin

text \<open>
  Dissection of a captured packet: \<open>src/split.c\<close> and \<open>ars_ip6_is_extension\<close> of \<open>src/ars.c\<close>.
  The splitter is a state machine; every state has a handler that looks at the \<open>size\<close> bytes at
  the current position, adds a layer and says how many bytes it took and which state follows.

  A handler gets exactly the bytes from its pointer to the end that \<open>size\<close> announces, so a
  checked read that fails is one beyond \<open>size\<close>.  The loop is a partial function: \<open>None\<close> would
  be an access outside of a block or a run that never ends, and the first property shows that
  neither happens.  \<open>size_t\<close> and \<open>int\<close> values are unbounded here, except where the size of the
  data layer is converted to \<open>int\<close>.
\<close>

section \<open>Recognising IP\<close>

abbreviation (input) ARS_SPLIT_FTRUNC :: u32 where "ARS_SPLIT_FTRUNC \<equiv> 1"
abbreviation (input) ARS_SPLIT_FBADCKSUM :: u32 where "ARS_SPLIT_FBADCKSUM \<equiv> 2"

text \<open>The 60-byte buffer bounds the header: four bits of length make at most 60 bytes.\<close>

definition ars_check_ip_cksum :: "bytes \<Rightarrow> bool option" where
  "ars_check_ip_cksum ip = do {
     b0 \<leftarrow> ld8 ip 0;
     let ip_hdrsize = 4 * unat (b0 AND 0x0f);
     if ip_hdrsize < ARS_IPHDR_SIZE then Some False
     else do {
       hdr \<leftarrow> ld ip 0 ip_hdrsize;
       stored \<leftarrow> ld16 hdr 10;
       hdr \<leftarrow> st hdr 10 [0, 0];
       Some (stored = ars_cksum hdr)
     }
   }"

definition ars_seems_ip :: "bytes \<Rightarrow> bool option" where
  "ars_seems_ip ip =
     (if length ip < ARS_IPHDR_SIZE then Some False
      else do {
        b0 \<leftarrow> ld8 ip 0;
        let ihl = unat (b0 AND 0x0f);
        if drop_bit 4 b0 = 4 \<and> 5 \<le> ihl \<and> 4 * ihl \<le> length ip then ars_check_ip_cksum ip
        else Some False
      })"

text \<open>The offset of the first position from \<open>off\<close> on that looks like an IP header.\<close>

fun guess_loop :: "bytes \<Rightarrow> nat \<Rightarrow> (ars_code \<times> nat) option" where
  "guess_loop [] off = Some (ARS_ERROR, off)"
| "guess_loop (b # p) off =
     (if length (b # p) < ARS_IPHDR_SIZE then Some (ARS_ERROR, off)
      else do {
        r \<leftarrow> ars_seems_ip (b # p);
        if r then Some (ARS_OK, off) else guess_loop p (Suc off)
      })"

definition ars_guess_ipoff :: "bytes \<Rightarrow> (ars_code \<times> nat) option" where
  "ars_guess_ipoff packet = guess_loop packet 0"

definition ars_check_icmp_cksum :: "allocator \<Rightarrow> bytes \<Rightarrow> bool option" where
  "ars_check_icmp_cksum al icmp =
     (if length icmp < 4 \<or> \<not> al (length icmp) then Some False
      else do {
        stored \<leftarrow> ld16 icmp 2;
        copy \<leftarrow> st icmp 2 [0, 0];
        Some (stored = ars_cksum copy)
      })"

section \<open>States\<close>

datatype split_state = ARS_SPLIT_DONE | ARS_SPLIT_GET_IP | ARS_SPLIT_GET_IPOPT | ARS_SPLIT_GET_ICMP
  | ARS_SPLIT_GET_UDP | ARS_SPLIT_GET_TCP | ARS_SPLIT_GET_TCPOPT | ARS_SPLIT_GET_IGRP
  | ARS_SPLIT_GET_IGRPENTRY | ARS_SPLIT_GET_DATA | ARS_SPLIT_GET_IP6 | ARS_SPLIT_GET_ICMP6

definition ars_ip_next_state :: "u8 \<Rightarrow> split_state" where
  "ars_ip_next_state ipproto =
     (if ipproto = ARS_IPPROTO_IPIP then ARS_SPLIT_GET_IP
      else if ipproto = ARS_IPPROTO_ICMP then ARS_SPLIT_GET_ICMP
      else if ipproto = ARS_IPPROTO_TCP then ARS_SPLIT_GET_TCP
      else if ipproto = ARS_IPPROTO_UDP then ARS_SPLIT_GET_UDP
      else if ipproto = ARS_IPPROTO_IGRP then ARS_SPLIT_GET_IGRP
      else ARS_SPLIT_GET_DATA)"

definition ars_ip6_is_extension :: "u8 \<Rightarrow> bool" where
  "ars_ip6_is_extension nexthdr \<longleftrightarrow> nexthdr \<in> {0, 43, 44, 50, 51, 60, 135}"

definition ars_ip6_next_state :: "u8 \<Rightarrow> split_state" where
  "ars_ip6_next_state nexthdr =
     (if ars_ip6_is_extension nexthdr then ARS_SPLIT_GET_DATA
      else if nexthdr = ARS_IPPROTO_ICMPV6 then ARS_SPLIT_GET_ICMP6
      else if nexthdr = ARS_IPPROTO_TCP then ARS_SPLIT_GET_TCP
      else if nexthdr = ARS_IPPROTO_UDP then ARS_SPLIT_GET_UDP
      else if nexthdr = ARS_IPPROTO_ICMP then ARS_SPLIT_GET_ICMP
      else if nexthdr = ARS_IPPROTO_IPV6 then ARS_SPLIT_GET_IP6
      else if nexthdr = ARS_IPPROTO_IPIP then ARS_SPLIT_GET_IP
      else ARS_SPLIT_GET_DATA)"

section \<open>Handlers\<close>

text \<open>The result of a handler: the return value, the packet, \<open>*state\<close> and \<open>*len\<close> (on an error
  the last two are not used).\<close>

type_synonym split_result = "(ars_code \<times> ars_packet \<times> split_state \<times> nat) option"

definition split_error :: "ars_code \<Rightarrow> ars_packet \<Rightarrow> split_result" where
  "split_error err pkt = Some (err, pkt, ARS_SPLIT_DONE, 0)"

text \<open>\<open>memset(&h, 0, n); memcpy(&h, packet, MIN(size, n))\<close>.\<close>

definition hdr_copy :: "nat \<Rightarrow> bytes \<Rightarrow> bytes" where
  "hdr_copy n packet = take n packet @ replicate (n - length packet) 0"

text \<open>\<open>memcpy(p_layer[i].l_data, packet, n)\<close>.\<close>

definition copy_to :: "nat \<Rightarrow> bytes \<Rightarrow> nat \<Rightarrow> ars_packet \<Rightarrow> ars_packet option" where
  "copy_to i packet n pkt = (if n = 0 then Some pkt else do { bs \<leftarrow> ld packet 0 n; wr i 0 bs pkt })"

definition set_last_flags :: "allocator \<Rightarrow> u32 \<Rightarrow> ars_packet \<Rightarrow> ars_packet" where
  "set_last_flags al flags pkt = snd (ars_set_flags al pkt (-1) flags)"

text \<open>The common end of the handlers of headers: \<open>ars_add_*hdr\<close> or \<open>-ARS_NOMEM\<close>, copy \<open>n\<close> bytes
  into the new layer, set its flags, \<open>*len = n\<close> and the next state.\<close>

definition split_add ::
  "allocator \<Rightarrow> (ars_packet \<Rightarrow> (bool \<times> ars_packet) option) \<Rightarrow> bytes \<Rightarrow> nat \<Rightarrow> u32 \<Rightarrow> ars_packet
     \<Rightarrow> (ars_packet \<Rightarrow> ars_packet \<times> split_state) \<Rightarrow> split_result" where
  "split_add al add packet n flags pkt next = do {
     (ok, pkt) \<leftarrow> add pkt;
     if \<not> ok then split_error ARS_NOMEM pkt
     else do {
       pkt \<leftarrow> copy_to (p_layer_nr pkt - 1) packet n pkt;
       (case next (set_last_flags al flags pkt) of (pkt, state) \<Rightarrow> Some (ARS_OK, pkt, state, n))
     }
   }"

text \<open>\<open>ars_add_generic\<close>, copy \<open>n\<close> bytes, \<open>p_layer_nr++\<close>, flags: the end of the other handlers.\<close>

definition split_generic ::
  "allocator \<Rightarrow> nat \<Rightarrow> ars_type \<Rightarrow> bytes \<Rightarrow> nat \<Rightarrow> u32 \<Rightarrow> ars_packet \<Rightarrow> split_state \<Rightarrow> split_result" where
  "split_generic al sz t packet n flags pkt state = do {
     (error, pkt) \<leftarrow> ars_add_generic al sz t pkt;
     if error \<noteq> ARS_OK then split_error error pkt
     else do {
       pkt \<leftarrow> copy_to (p_layer_nr pkt) packet n pkt;
       Some (ARS_OK, set_last_flags al flags (pkt\<lparr>p_layer_nr := p_layer_nr pkt + 1\<rparr>), state, n)
     }
   }"

definition ars_split_ip6 :: "allocator \<Rightarrow> ars_packet \<Rightarrow> bytes \<Rightarrow> split_result" where
  "ars_split_ip6 al pkt packet =
     (let ip6 = hdr_copy ARS_IP6HDR_SIZE packet in
      if length packet < ARS_IP6HDR_SIZE
      then split_add al (ars_add_ip6hdr al) packet (length packet) ARS_SPLIT_FTRUNC pkt (\<lambda>pkt. (pkt, ARS_SPLIT_GET_DATA))
      else split_add al (ars_add_ip6hdr al) packet ARS_IP6HDR_SIZE 0 pkt (\<lambda>pkt. (pkt, ars_ip6_next_state (ip6 ! 6))))"

text \<open>The checksum of the rest of the packet as if it were one layer of type \<open>t\<close>: a temporary
  layer behind the last one, with the checksum at \<open>off\<close> set to 0, which is removed again.  When
  the checksum function fails, \<open>on_error\<close> says how the handler goes on.\<close>

definition temp_cksum ::
  "allocator \<Rightarrow> ars_type \<Rightarrow> nat \<Rightarrow> (ars_packet \<Rightarrow> nat \<Rightarrow> sum_result) \<Rightarrow> bytes \<Rightarrow> ars_packet
     \<Rightarrow> (ars_code + u16 \<Rightarrow> ars_packet \<Rightarrow> split_result) \<Rightarrow> split_result" where
  "temp_cksum al t off f packet pkt cont = do {
     (error, pkt) \<leftarrow> ars_add_generic al (length packet) t pkt;
     if error \<noteq> ARS_OK then split_error error pkt
     else do {
       pkt \<leftarrow> copy_to (p_layer_nr pkt) packet (length packet) pkt;
       pkt \<leftarrow> wr16 (p_layer_nr pkt) off 0 pkt;
       (r, pkt) \<leftarrow> f pkt (p_layer_nr pkt);
       cont r pkt
     }
   }"

definition drop_temp :: "ars_packet \<Rightarrow> (ars_packet \<Rightarrow> split_result) \<Rightarrow> split_result" where
  "drop_temp pkt cont = (case ars_remove_layer pkt (int (p_layer_nr pkt)) of
     (error, pkt) \<Rightarrow> if error \<noteq> ARS_OK then split_error error pkt else cont pkt)"

definition ars_split_icmp6 :: "allocator \<Rightarrow> ars_packet \<Rightarrow> bytes \<Rightarrow> split_result" where
  "ars_split_icmp6 al pkt packet =
     (let finish = (\<lambda>n flags pkt. split_add al (ars_add_icmp6hdr al) packet n flags pkt (\<lambda>pkt. (pkt, ARS_SPLIT_GET_DATA)))
      in if length packet < ARS_ICMPHDR_SIZE then finish (length packet) ARS_SPLIT_FTRUNC pkt
      else do {
        stored \<leftarrow> ld16 packet 2;
        temp_cksum al ARS_TYPE_ICMP6 2 (\<lambda>pkt i. ars_ip6_pseudo_cksum al pkt i ARS_IPPROTO_ICMPV6) packet pkt
          (\<lambda>r pkt. drop_temp pkt (\<lambda>pkt.
             let computed = (case r of Inl _ \<Rightarrow> stored | Inr c \<Rightarrow> c)
             in finish ARS_ICMPHDR_SIZE (if stored \<noteq> computed then ARS_SPLIT_FBADCKSUM else 0) pkt))
      })"

text \<open>Flags and bytes taken of an IP header.\<close>

definition ip_header_check :: "bytes \<Rightarrow> (u32 \<times> nat) option" where
  "ip_header_check packet =
     (let ihl = unat (hdr_copy ARS_IPHDR_SIZE packet ! 0 AND 0x0f); size = length packet in
      if size < ARS_IPHDR_SIZE then Some (ARS_SPLIT_FTRUNC, size)
      else if ihl < 5 then Some (ARS_SPLIT_FTRUNC OR ARS_SPLIT_FBADCKSUM, ARS_IPHDR_SIZE)
      else if size < 4 * ihl then Some (ARS_SPLIT_FTRUNC, min size 20)
      else do {
        ok \<leftarrow> ars_check_ip_cksum packet;
        Some (if ok then 0 else ARS_SPLIT_FBADCKSUM, min (4 * ihl) 20)
      })"

definition ars_split_ip :: "allocator \<Rightarrow> ars_packet \<Rightarrow> bytes \<Rightarrow> split_result" where
  "ars_split_ip al pkt packet = do {
     (flags, ipsize) \<leftarrow> ip_header_check packet;
     let ip = hdr_copy ARS_IPHDR_SIZE packet; ihl = unat (ip ! 0 AND 0x0f)
     in split_add al (ars_add_iphdr al) packet ipsize flags pkt (\<lambda>pkt.
          if flags AND ARS_SPLIT_FTRUNC \<noteq> 0 then (pkt, ARS_SPLIT_GET_DATA)
          else if ihl > 5 then (pkt\<lparr>aux_ipproto := ip ! 9, aux := 4 * (ihl - 5)\<rparr>, ARS_SPLIT_GET_IPOPT)
          else (pkt, ars_ip_next_state (ip ! 9)))
   }"

text \<open>The size of the option at the current position, given the \<open>size\<close> bytes left for options
  (at least one); the options that end the list or do nothing are 0 and 1 for IP and TCP.\<close>

definition option_size :: "bytes \<Rightarrow> nat \<Rightarrow> (u32 \<times> nat) option" where
  "option_size opt sz = do {
     kind \<leftarrow> ld8 opt 0;
     (flags, optsize) \<leftarrow>
       (if kind = 0 \<or> kind = 1 then Some (0, 1)
        else if sz < 2 then Some (ARS_SPLIT_FTRUNC, 1)
        else do { n \<leftarrow> ld8 opt 1; Some (0, unat n) });
     let optsize = (if optsize = 0 then 1 else optsize)
     in Some (if sz < optsize then (flags OR ARS_SPLIT_FTRUNC, sz) else (flags, optsize))
   }"

definition split_option ::
  "ars_type \<Rightarrow> (ars_packet \<Rightarrow> split_state) \<Rightarrow> split_state \<Rightarrow> allocator \<Rightarrow> ars_packet \<Rightarrow> bytes \<Rightarrow> split_result" where
  "split_option t next self al pkt packet =
     (let size = min (length packet) (aux pkt) in
      if size = 0 then Some (ARS_OK, pkt, ARS_SPLIT_GET_DATA, 0)
      else do {
        (flags, optsize) \<leftarrow> option_size packet size;
        let pkt = pkt\<lparr>aux := aux pkt - optsize\<rparr>
        in split_generic al optsize t packet optsize flags pkt
             (if aux pkt > 0 then self else next pkt)
      })"

definition ars_split_ipopt :: "allocator \<Rightarrow> ars_packet \<Rightarrow> bytes \<Rightarrow> split_result" where
  "ars_split_ipopt = split_option ARS_TYPE_IPOPT (\<lambda>pkt. ars_ip_next_state (aux_ipproto pkt)) ARS_SPLIT_GET_IPOPT"

definition ars_split_tcpopt :: "allocator \<Rightarrow> ars_packet \<Rightarrow> bytes \<Rightarrow> split_result" where
  "ars_split_tcpopt = split_option ARS_TYPE_TCPOPT (\<lambda>_. ARS_SPLIT_GET_DATA) ARS_SPLIT_GET_TCPOPT"

definition ars_split_icmp :: "allocator \<Rightarrow> ars_packet \<Rightarrow> bytes \<Rightarrow> split_result" where
  "ars_split_icmp al pkt packet =
     (let icmp = hdr_copy ARS_ICMPHDR_SIZE packet in
      if length packet < ARS_ICMPHDR_SIZE
      then split_add al (ars_add_icmphdr al) packet (length packet) ARS_SPLIT_FTRUNC pkt (\<lambda>pkt. (pkt, ARS_SPLIT_GET_DATA))
      else do {
        ok \<leftarrow> ars_check_icmp_cksum al packet;
        split_add al (ars_add_icmphdr al) packet ARS_ICMPHDR_SIZE (if ok then 0 else ARS_SPLIT_FBADCKSUM) pkt (\<lambda>pkt.
          (pkt, if icmp ! 0 \<in> {8, 0, 13, 14, 15, 16} then ARS_SPLIT_GET_DATA else ARS_SPLIT_GET_IP))
      })"

text \<open>The size is converted to \<open>int\<close>.\<close>

definition ars_split_data :: "allocator \<Rightarrow> ars_packet \<Rightarrow> bytes \<Rightarrow> split_result" where
  "ars_split_data al pkt packet = do {
     (ok, pkt) \<leftarrow> ars_add_data al (sint (word_of_nat (length packet) :: u32)) pkt;
     if \<not> ok then split_error ARS_NOMEM pkt
     else do {
       pkt \<leftarrow> copy_to (p_layer_nr pkt - 1) packet (length packet) pkt;
       Some (ARS_OK, pkt, ARS_SPLIT_DONE, length packet)
     }
   }"

definition ars_split_udp :: "allocator \<Rightarrow> ars_packet \<Rightarrow> bytes \<Rightarrow> split_result" where
  "ars_split_udp al pkt packet =
     (let finish = (\<lambda>n flags pkt. split_add al (ars_add_udphdr al) packet n flags pkt (\<lambda>pkt. (pkt, ARS_SPLIT_GET_DATA)))
      in if length packet < ARS_UDPHDR_SIZE then finish (length packet) ARS_SPLIT_FTRUNC pkt
      else do {
        uh_sum \<leftarrow> ld16 (hdr_copy ARS_UDPHDR_SIZE packet) 6;
        temp_cksum al ARS_TYPE_UDP 6 (ars_udptcp_cksum al) packet pkt (\<lambda>r pkt. case r of
            Inl error \<Rightarrow> split_error error (pkt\<lparr>p_layer_nr := p_layer_nr pkt + 1\<rparr>)
          | Inr udpcksum \<Rightarrow> drop_temp pkt (\<lambda>pkt.
              finish ARS_UDPHDR_SIZE (if uh_sum \<noteq> udpcksum then ARS_SPLIT_FBADCKSUM else 0) pkt))
      })"

definition ars_split_tcp :: "allocator \<Rightarrow> ars_packet \<Rightarrow> bytes \<Rightarrow> split_result" where
  "ars_split_tcp al pkt packet =
     (if length packet < ARS_TCPHDR_SIZE
      then split_add al (ars_add_tcphdr al) packet (length packet) ARS_SPLIT_FTRUNC pkt (\<lambda>pkt. (pkt, ARS_SPLIT_GET_DATA))
      else do {
        tcp \<leftarrow> ld packet 0 ARS_TCPHDR_SIZE;
        th_sum \<leftarrow> ld16 tcp 16;
        let th_off = unat (drop_bit 4 (tcp ! 12)); size = length packet in
        temp_cksum al ARS_TYPE_TCP 16 (ars_udptcp_cksum al) packet pkt (\<lambda>r pkt. case r of
            Inl error \<Rightarrow> split_error error (pkt\<lparr>p_layer_nr := p_layer_nr pkt + 1\<rparr>)
          | Inr tcpcksum \<Rightarrow> drop_temp pkt (\<lambda>pkt.
              let (flags, tcpsize) =
                (if th_off < 5 then (ARS_SPLIT_FBADCKSUM, ARS_TCPHDR_SIZE)
                 else if size < 4 * th_off then (ARS_SPLIT_FTRUNC, size)
                 else (if th_sum \<noteq> tcpcksum then ARS_SPLIT_FBADCKSUM else 0, 4 * th_off))
              in split_add al (ars_add_tcphdr al) packet (min tcpsize 20) flags pkt (\<lambda>pkt.
                   if th_off > 5 then (pkt\<lparr>aux := 4 * (th_off - 5)\<rparr>, ARS_SPLIT_GET_TCPOPT)
                   else (pkt, ARS_SPLIT_GET_DATA))))
      })"

definition ars_split_igrp :: "allocator \<Rightarrow> ars_packet \<Rightarrow> bytes \<Rightarrow> split_result" where
  "ars_split_igrp al pkt packet =
     (case (if length packet < ARS_IGRPHDR_SIZE then (ARS_SPLIT_FTRUNC, length packet) else (0, ARS_IGRPHDR_SIZE))
      of (flags, n) \<Rightarrow> split_generic al ARS_IGRPHDR_SIZE ARS_TYPE_IGRP packet n flags pkt ARS_SPLIT_GET_IGRPENTRY)"

definition ars_split_igrpentry :: "allocator \<Rightarrow> ars_packet \<Rightarrow> bytes \<Rightarrow> split_result" where
  "ars_split_igrpentry al pkt packet =
     (case (if length packet < ARS_IGRPENTRY_SIZE then (ARS_SPLIT_FTRUNC, length packet) else (0, ARS_IGRPENTRY_SIZE))
      of (flags, n) \<Rightarrow> split_generic al ARS_IGRPENTRY_SIZE ARS_TYPE_IGRPENTRY packet n flags pkt ARS_SPLIT_GET_IGRPENTRY)"

section \<open>The machine\<close>

text \<open>\<open>ars_split_state_handler\<close>; the machine never calls the \<open>NULL\<close> of the final state.\<close>

definition ars_split_state_handler :: "split_state \<Rightarrow> allocator \<Rightarrow> ars_packet \<Rightarrow> bytes \<Rightarrow> split_result" where
  "ars_split_state_handler state = (case state of
     ARS_SPLIT_DONE \<Rightarrow> (\<lambda>al pkt packet. None)
   | ARS_SPLIT_GET_IP \<Rightarrow> ars_split_ip
   | ARS_SPLIT_GET_IPOPT \<Rightarrow> ars_split_ipopt
   | ARS_SPLIT_GET_ICMP \<Rightarrow> ars_split_icmp
   | ARS_SPLIT_GET_UDP \<Rightarrow> ars_split_udp
   | ARS_SPLIT_GET_TCP \<Rightarrow> ars_split_tcp
   | ARS_SPLIT_GET_TCPOPT \<Rightarrow> ars_split_tcpopt
   | ARS_SPLIT_GET_IGRP \<Rightarrow> ars_split_igrp
   | ARS_SPLIT_GET_IGRPENTRY \<Rightarrow> ars_split_igrpentry
   | ARS_SPLIT_GET_DATA \<Rightarrow> ars_split_data
   | ARS_SPLIT_GET_IP6 \<Rightarrow> ars_split_ip6
   | ARS_SPLIT_GET_ICMP6 \<Rightarrow> ars_split_icmp6)"

text \<open>The size after the link layer padding has been put off; \<open>len\<close> is what the handler took.\<close>

definition clip_size :: "ars_packet \<Rightarrow> nat \<Rightarrow> nat \<Rightarrow> nat option" where
  "clip_size pkt sz len = do {
     sz \<leftarrow> (if p_layer_nr pkt = 1 \<and> l_type (p_layer pkt 0) = ARS_TYPE_IP
       then do { tot_len \<leftarrow> rd16 pkt 0 2; Some (min sz (max (unat (htons tot_len)) len)) }
       else Some sz);
     if p_layer_nr pkt = 1 \<and> l_type (p_layer pkt 0) = ARS_TYPE_IP6
     then do { payload_len \<leftarrow> rd16 pkt 0 4; Some (min sz (unat (htons payload_len) + len)) }
     else Some sz
   }"

partial_function (option) split_loop ::
  "allocator \<Rightarrow> split_state \<Rightarrow> bytes \<Rightarrow> ars_packet \<Rightarrow> (ars_code \<times> ars_packet) option" where
  "split_loop al state packet pkt =
     (if state = ARS_SPLIT_DONE then Some (ARS_OK, pkt)
      else Option.bind (ars_split_state_handler state al pkt packet) (\<lambda>(error, pkt, state, len).
        if error \<noteq> ARS_OK then Some (error, pkt)
        else Option.bind (clip_size pkt (length packet) len) (\<lambda>size.
          let packet = drop len (take size packet)
          in split_loop al (if packet = [] then ARS_SPLIT_DONE else state) packet pkt)))"

lemma split_loop_code [code]:
  "split_loop al state packet pkt =
     (if state = ARS_SPLIT_DONE then Some (ARS_OK, pkt)
      else case ars_split_state_handler state al pkt packet of None \<Rightarrow> None
        | Some (error, pkt, state, len) \<Rightarrow> if error \<noteq> ARS_OK then Some (error, pkt)
          else case clip_size pkt (length packet) len of None \<Rightarrow> None
            | Some sz \<Rightarrow> (let packet = drop len (take sz packet)
                in split_loop al (if packet = [] then ARS_SPLIT_DONE else state) packet pkt))"
  by (subst split_loop.simps) (auto split: option.splits prod.splits)

definition split_start :: "bytes \<Rightarrow> split_state" where
  "split_start p = (case p of [] \<Rightarrow> ARS_SPLIT_GET_IP
     | b # _ \<Rightarrow> if drop_bit 4 b AND 0xf = 6 then ARS_SPLIT_GET_IP6 else ARS_SPLIT_GET_IP)"

definition ars_split_packet :: "allocator \<Rightarrow> bytes \<Rightarrow> int \<Rightarrow> ars_packet \<Rightarrow> (ars_code \<times> ars_packet) option" where
  "ars_split_packet al packet ipoff pkt = do {
     guess \<leftarrow> (if ipoff = -1 then do { (err, off) \<leftarrow> ars_guess_ipoff packet; Some (if err = ARS_OK then Some (int off) else None) }
              else Some (Some ipoff));
     (case guess of
        None \<Rightarrow> Some (ARS_INVALID, ars_set_error al ''IP offset autodetection failed'' pkt)
      | Some ipoff \<Rightarrow>
          if ipoff < 0 \<or> ipoff > int (length packet)
          then Some (ARS_INVALID, ars_set_error al ''IP offset larger than the packet'' pkt)
          else let p = drop (nat ipoff) packet in split_loop al (split_start p) p pkt)
   }"

section \<open>What a handler may do\<close>

text \<open>It stays in bounds; when it succeeds it takes \<open>len\<close> of the bytes, leaves the earlier layers
  alone, and either adds nothing and takes nothing, or adds one layer that holds exactly the
  bytes taken unless it is flagged as truncated.\<close>

definition grown :: "bytes \<Rightarrow> nat \<Rightarrow> ars_packet \<Rightarrow> ars_packet \<Rightarrow> bool" where
  "grown packet len pkt pkt' \<longleftrightarrow> (\<forall>k < p_layer_nr pkt. p_layer pkt' k = p_layer pkt k) \<and>
     (p_layer_nr pkt' = p_layer_nr pkt \<and> len = 0 \<or>
      p_layer_nr pkt' = p_layer_nr pkt + 1 \<and>
        (l_flags (p_layer pkt' (p_layer_nr pkt)) AND ARS_SPLIT_FTRUNC = 0 \<longrightarrow>
           layer_out (p_layer pkt' (p_layer_nr pkt)) = take len packet))"

definition takes :: "split_state \<Rightarrow> bytes \<Rightarrow> ars_packet \<Rightarrow> split_result \<Rightarrow> bool" where
  "takes state packet pkt res \<longleftrightarrow> (\<exists>r pkt' state' len. res = Some (r, pkt', state', len) \<and> pkt_wf pkt' \<and>
     (r = ARS_OK \<longrightarrow> len \<le> length packet \<and> grown packet len pkt pkt' \<and>
        (packet \<noteq> [] \<and> len = 0 \<longrightarrow> state' = ARS_SPLIT_GET_DATA) \<and>
        (state = ARS_SPLIT_GET_DATA \<longrightarrow> state' = ARS_SPLIT_DONE) \<and>
        (state \<notin> {ARS_SPLIT_GET_IPOPT, ARS_SPLIT_GET_TCPOPT} \<longrightarrow> p_layer_nr pkt' = p_layer_nr pkt + 1) \<and>
        (state' = ARS_SPLIT_DONE \<longrightarrow> len = length packet)))"

lemma takes_error: "pkt_wf p \<Longrightarrow> err \<noteq> ARS_OK \<Longrightarrow> takes state packet pkt (split_error err p)"
  by (auto simp: takes_def split_error_def)

lemma pkt_wf_aux [simp]: "pkt_wf (p\<lparr>aux := x\<rparr>) = pkt_wf p" "pkt_wf (p\<lparr>aux_ipproto := y\<rparr>) = pkt_wf p"
  by (simp_all add: pkt_wf_def)

lemma set_last_flags_eq:
  "0 < p_layer_nr p \<Longrightarrow> p_layer_nr p \<le> ARS_MAX_LAYER \<Longrightarrow>
     set_last_flags al fl p = upd_layer (p_layer_nr p - 1) (\<lambda>l. l\<lparr>l_flags := fl\<rparr>) p"
  by (simp add: set_last_flags_def ars_set_flags_def ars_last_def Let_def nat_diff_distrib)

text \<open>The new last layer after the copy and the flags.\<close>

definition new_layer :: "ars_type \<Rightarrow> nat \<Rightarrow> bytes \<Rightarrow> u32 \<Rightarrow> ars_layer" where
  "new_layer t sz d fl = \<lparr>l_type = t, l_size = sz, l_flags = fl, l_data = (if sz = 0 then None else Some d)\<rparr>"

lemma new_layer_wf: "t \<noteq> ARS_TYPE_NULL \<Longrightarrow> hdr_min t \<le> sz \<Longrightarrow> length d = sz \<Longrightarrow> layer_wf (new_layer t sz d fl)"
  by (auto simp: new_layer_def layer_wf_def layer_len_def)

lemma layer_out_new [simp]: "length d = sz \<Longrightarrow> layer_out (new_layer t sz d fl) = d"
  by (auto simp: new_layer_def layer_out_def)

lemma new_layer_fields [simp]: "l_flags (new_layer t sz d fl) = fl" "l_type (new_layer t sz d fl) = t" "l_size (new_layer t sz d fl) = sz"
  by (simp_all add: new_layer_def)

lemma adds_layer_new:
  "adds_layer t sz p res \<longleftrightarrow> (\<exists>r a. res = Some (r, a) \<and> pkt_wf a \<and>
     (if r then \<exists>d. length d = sz \<and> p_layer_nr a = p_layer_nr p + 1 \<and> p_layer_nr p < ARS_MAX_LAYER \<and>
        p_layer a = (p_layer p)(p_layer_nr p := new_layer t sz d 0)
      else p_layer_nr a = p_layer_nr p \<and> p_layer a = p_layer p))"
  by (simp only: adds_layer_def new_layer_def)

text \<open>The same packet with the layer \<open>l\<close> behind the last one.\<close>

definition pushed :: "ars_layer \<Rightarrow> ars_packet \<Rightarrow> ars_packet \<Rightarrow> bool" where
  "pushed l p q \<longleftrightarrow> p_layer_nr q = p_layer_nr p + 1 \<and> p_layer q = (p_layer p)(p_layer_nr p := l) \<and> p_default q = p_default p"

lemma pushed_wf: "pushed l p q \<Longrightarrow> pkt_wf p \<Longrightarrow> p_layer_nr p < ARS_MAX_LAYER \<Longrightarrow> layer_wf l \<Longrightarrow> pkt_wf q"
  by (auto simp: pkt_wf_def less_Suc_eq pushed_def)

lemma copy_to_eq:
  assumes "l_data (p_layer p i) = Some d" "n \<le> length d" "n \<le> length packet"
  shows "copy_to i packet n p = Some (set_data i (take n packet @ drop n d) p)"
  using assms by (simp add: copy_to_def ld_def wr_def st_def set_data_same)

lemma copy_to_pushed:
  assumes "pushed (new_layer t sz d 0) p q" "0 < sz" "length d = sz" "n \<le> sz" "n \<le> length packet" "p_layer_nr p < ARS_MAX_LAYER"
  shows "\<exists>q'. copy_to (p_layer_nr p) packet n q = Some q' \<and> pushed (new_layer t sz (take n packet @ drop n d) 0) p q'
    \<and> pushed (new_layer t sz (take n packet @ drop n d) fl) p (set_last_flags al fl q')"
proof -
  have "copy_to (p_layer_nr p) packet n q = Some (set_data (p_layer_nr p) (take n packet @ drop n d) q)"
    using assms by (intro copy_to_eq) (simp_all add: pushed_def new_layer_def)
  moreover have "pushed (new_layer t sz (take n packet @ drop n d) 0) p (set_data (p_layer_nr p) (take n packet @ drop n d) q)"
    using assms by (auto simp: pushed_def new_layer_def)
  moreover have "pushed (new_layer t sz (take n packet @ drop n d) fl) p (set_last_flags al fl (set_data (p_layer_nr p) (take n packet @ drop n d) q))"
    using assms by (auto simp: pushed_def new_layer_def set_last_flags_eq)
  ultimately show ?thesis by blast
qed

lemma pushed_takes:
  assumes "pushed (new_layer t sz (take n packet @ drop n d) fl) p q" "pkt_wf p" "p_layer_nr p < ARS_MAX_LAYER"
    "t \<noteq> ARS_TYPE_NULL" "hdr_min t \<le> sz" "length d = sz" "n \<le> sz" "n \<le> length packet" "n = sz \<or> fl AND ARS_SPLIT_FTRUNC \<noteq> 0"
    "packet \<noteq> [] \<Longrightarrow> 0 < n" "state \<noteq> ARS_SPLIT_GET_DATA" "p_layer q' = p_layer q" "p_layer_nr q' = p_layer_nr q" "p_default q' = p_default q" "st0 \<noteq> ARS_SPLIT_DONE"
  shows "takes state packet p (Some (ARS_OK, q', st0, n))"
proof -
  have "length (take n packet @ drop n d) = sz" using assms(6-8) by simp
  then have l: "layer_wf (new_layer t sz (take n packet @ drop n d) fl)"
    "layer_out (new_layer t sz (take n packet @ drop n d) fl) = take n packet @ drop n d"
    using assms(4,5) by (simp_all add: new_layer_wf)
  have "pkt_wf q" by (rule pushed_wf [OF assms(1-3) l(1)])
  then have "pkt_wf q'" using assms(12-14) by (simp add: pkt_wf_def)
  moreover have "grown packet n p q'"
    using assms(1,6,9,12,13) l(2) by (auto simp: grown_def pushed_def)
  moreover have "p_layer_nr q' = p_layer_nr p + 1" using assms(1,13) by (simp add: pushed_def)
  ultimately show ?thesis using assms(8,10,11,15) by (auto simp: takes_def)
qed

lemma split_add_takes:
  assumes "pkt_wf p" "adds_layer t sz p (add p)" "n \<le> sz" "n \<le> length packet" "n = sz \<or> fl AND ARS_SPLIT_FTRUNC \<noteq> 0"
    "t \<noteq> ARS_TYPE_NULL" "hdr_min t \<le> sz" "0 < sz"
    "\<And>p. p_layer (fst (next p)) = p_layer p \<and> p_layer_nr (fst (next p)) = p_layer_nr p \<and> p_default (fst (next p)) = p_default p"
    "packet \<noteq> [] \<Longrightarrow> 0 < n" "state \<noteq> ARS_SPLIT_GET_DATA" "\<And>p. snd (next p) \<noteq> ARS_SPLIT_DONE"
  shows "takes state packet p (split_add al add packet n fl p next)"
proof -
  obtain r a where a: "add p = Some (r, a)" "pkt_wf a"
    "if r then \<exists>d. length d = sz \<and> p_layer_nr a = p_layer_nr p + 1 \<and> p_layer_nr p < ARS_MAX_LAYER \<and>
        p_layer a = (p_layer p)(p_layer_nr p := \<lparr>l_type = t, l_size = sz, l_flags = 0, l_data = (if sz = 0 then None else Some d)\<rparr>)
      else p_layer_nr a = p_layer_nr p \<and> p_layer a = p_layer p"
    using assms(2) by (auto simp: adds_layer_def)
  show ?thesis
  proof (cases r)
    case False
    then show ?thesis using a takes_error by (simp add: split_add_def)
  next
    case True
    then obtain d where d: "length d = sz" "p_layer_nr a = p_layer_nr p + 1" "p_layer_nr p < ARS_MAX_LAYER"
      "p_layer a = (p_layer p)(p_layer_nr p := new_layer t sz d 0)"
      using a(3) by (auto simp: new_layer_def)
    then have "pushed (new_layer t sz d 0) p a" using a(2) assms(1) by (simp add: pushed_def pkt_wf_def)
    from copy_to_pushed [OF this assms(8) d(1) assms(3,4) d(3), of fl al] obtain q where q:
      "copy_to (p_layer_nr p) packet n a = Some q"
      "pushed (new_layer t sz (take n packet @ drop n d) fl) p (set_last_flags al fl q)" by blast
    obtain x y where nx: "next (set_last_flags al fl q) = (x, y)" by fastforce
    have "takes state packet p (Some (ARS_OK, x, y, n))"
      using assms(9) [of "set_last_flags al fl q"] assms(12) [of "set_last_flags al fl q"] nx by (intro pushed_takes [OF q(2) assms(1) d(3) assms(6,7) d(1) assms(3-5,10,11)]) simp_all
    then show ?thesis using True a(1) d(2) q(1) nx by (simp add: split_add_def)
  qed
qed

lemma split_generic_takes:
  assumes "pkt_wf p" "n \<le> sz" "n \<le> length packet" "n = sz \<or> fl AND ARS_SPLIT_FTRUNC \<noteq> 0"
    "t \<noteq> ARS_TYPE_NULL" "hdr_min t \<le> sz" "0 < sz" "packet \<noteq> [] \<Longrightarrow> 0 < n" "state \<noteq> ARS_SPLIT_GET_DATA" "st0 \<noteq> ARS_SPLIT_DONE"
  shows "takes state packet p (split_generic al sz t packet n fl p st0)"
proof (rule add_generic_cases [OF assms(1,5), where al = al and sz = sz], goal_cases full nomem ok)
  case full
  then show ?case using assms(1) by (simp add: split_generic_def takes_error)
next
  case nomem
  then show ?case using assms(1) by (simp add: split_generic_def takes_error)
next
  case ok
  let ?d = "replicate sz (0 :: u8)"
  let ?a = "p\<lparr>p_layer := (p_layer p)(p_layer_nr p := new_layer t sz ?d 0)\<rparr>"
  have a: "ars_add_generic al sz t p = Some (ARS_OK, ?a)" using ok(3) assms(7) by (simp add: new_layer_def)
  have c: "copy_to (p_layer_nr p) packet n ?a = Some (set_data (p_layer_nr p) (take n packet @ drop n ?d) ?a)"
    using assms(2,3,7) by (intro copy_to_eq) (simp_all add: new_layer_def)
  let ?b = "(set_data (p_layer_nr p) (take n packet @ drop n ?d) ?a)\<lparr>p_layer_nr := p_layer_nr p + 1\<rparr>"
  have b: "pushed (new_layer t sz (take n packet @ drop n ?d) fl) p (set_last_flags al fl ?b)"
    using ok(1) assms(7) by (auto simp: pushed_def new_layer_def set_last_flags_eq)
  have "takes state packet p (Some (ARS_OK, set_last_flags al fl ?b, st0, n))"
    using assms by (intro pushed_takes [OF b assms(1) ok(1)]) simp_all
  then show ?case by (simp add: split_generic_def a c)
qed

section \<open>The handlers stay in bounds\<close>

lemma next_state_not_done [simp]: "ars_ip_next_state n \<noteq> ARS_SPLIT_DONE" "ars_ip6_next_state n \<noteq> ARS_SPLIT_DONE"
  by (simp_all add: ars_ip_next_state_def ars_ip6_next_state_def)

lemma hdr_copy_length [simp]: "length (hdr_copy n packet) = n"
  by (simp add: hdr_copy_def)

lemma ihl_less: "unat (b AND 0x0f :: u8) < 16"
  by (simp add: and_0xf_unat)

lemma check_ip_cksum_defined:
  assumes "20 \<le> length p" "4 * unat (p ! 0 AND 0x0f) \<le> length p"
  shows "\<exists>b. ars_check_ip_cksum p = Some b"
  using assms by (auto simp: ars_check_ip_cksum_def ld8_def ld_def ld16_def st_def Let_def)

lemma seems_ip_defined: "\<exists>b. ars_seems_ip p = Some b"
  using check_ip_cksum_defined [of p] by (auto simp: ars_seems_ip_def ld8_def Let_def)

lemma check_icmp_cksum_defined: "\<exists>b. ars_check_icmp_cksum al p = Some b"
  by (auto simp: ars_check_icmp_cksum_def ld16_def st_def)

lemma ip_header_check_cases:
  "\<exists>fl n. ip_header_check packet = Some (fl, n) \<and> n \<le> 20 \<and> n \<le> length packet \<and> (n = 20 \<or> fl AND ARS_SPLIT_FTRUNC \<noteq> 0)
     \<and> (packet \<noteq> [] \<longrightarrow> 0 < n)"
proof -
  let ?ihl = "unat (hdr_copy ARS_IPHDR_SIZE packet ! 0 AND 0x0f)"
  consider "length packet < 20" | "20 \<le> length packet" "?ihl < 5" | "20 \<le> length packet" "5 \<le> ?ihl" "length packet < 4 * ?ihl"
    | "20 \<le> length packet" "5 \<le> ?ihl" "4 * ?ihl \<le> length packet" by linarith
  then show ?thesis
  proof cases
    case 1
    then show ?thesis by (auto simp: ip_header_check_def Let_def)
  next
    case 2
    then show ?thesis unfolding ip_header_check_def Let_def by auto
  next
    case 3
    then show ?thesis unfolding ip_header_check_def Let_def by auto
  next
    case 4
    have "hdr_copy ARS_IPHDR_SIZE packet ! 0 = packet ! 0" using 4(1) by (simp add: hdr_copy_def nth_append)
    then obtain b where "ars_check_ip_cksum packet = Some b" using check_ip_cksum_defined [of packet] 4 by auto
    moreover have "min (4 * ?ihl) 20 = 20" using 4(2) by linarith
    ultimately show ?thesis using 4 unfolding ip_header_check_def Let_def by (cases b) auto
  qed
qed

lemma ip_takes: "pkt_wf p \<Longrightarrow> takes ARS_SPLIT_GET_IP packet p (ars_split_ip al p packet)"
proof -
  assume p: "pkt_wf p"
  obtain fl n where h: "ip_header_check packet = Some (fl, n)" "n \<le> 20" "n \<le> length packet"
    "n = 20 \<or> fl AND ARS_SPLIT_FTRUNC \<noteq> 0" "packet \<noteq> [] \<longrightarrow> 0 < n" using ip_header_check_cases by blast
  show ?thesis
    unfolding ars_split_ip_def h(1) Option.bind.bind_lunit prod.case Let_def
    by (rule split_add_takes [where add = "ars_add_iphdr al", OF p add_iphdr_adds [OF p]]) (use p h in \<open>auto simp: hdr_min_def\<close>)
qed

lemma ip6_takes: "pkt_wf p \<Longrightarrow> takes ARS_SPLIT_GET_IP6 packet p (ars_split_ip6 al p packet)"
  unfolding ars_split_ip6_def Let_def
  by (auto intro!: split_add_takes [OF _ add_ip6hdr_adds] simp: hdr_min_def)

lemma icmp_takes: "pkt_wf p \<Longrightarrow> takes ARS_SPLIT_GET_ICMP packet p (ars_split_icmp al p packet)"
  unfolding ars_split_icmp_def Let_def using check_icmp_cksum_defined [of al packet]
  by (auto intro!: split_add_takes [OF _ add_icmphdr_adds] simp: hdr_min_def)

lemma igrp_takes: "pkt_wf p \<Longrightarrow> takes ARS_SPLIT_GET_IGRP packet p (ars_split_igrp al p packet)"
  unfolding ars_split_igrp_def by (auto intro!: split_generic_takes simp: hdr_min_def)

lemma igrpentry_takes: "pkt_wf p \<Longrightarrow> takes ARS_SPLIT_GET_IGRPENTRY packet p (ars_split_igrpentry al p packet)"
  unfolding ars_split_igrpentry_def by (auto intro!: split_generic_takes simp: hdr_min_def)

lemma option_size_cases:
  assumes "0 < sz" "sz \<le> length opt"
  shows "\<exists>fl n. option_size opt sz = Some (fl, n) \<and> 0 < n \<and> n \<le> sz"
  using assms by (auto simp: option_size_def ld8_def Let_def)

lemma option_takes:
  assumes "pkt_wf p" "t \<noteq> ARS_TYPE_NULL" "hdr_min t \<le> 1" "state \<in> {ARS_SPLIT_GET_IPOPT, ARS_SPLIT_GET_TCPOPT}"
    "self \<noteq> ARS_SPLIT_DONE" "\<And>p. next p \<noteq> ARS_SPLIT_DONE"
  shows "takes state packet p (split_option t next self al p packet)"
proof (cases "min (length packet) (aux p) = 0")
  case True
  then have "split_option t next self al p packet = Some (ARS_OK, p, ARS_SPLIT_GET_DATA, 0)"
    unfolding split_option_def Let_def by simp
  then show ?thesis using assms by (auto simp: takes_def grown_def)
next
  case False
  then obtain fl n where o: "option_size packet (min (length packet) (aux p)) = Some (fl, n)" "0 < n" "n \<le> min (length packet) (aux p)"
    using option_size_cases [of "min (length packet) (aux p)" packet] by auto
  let ?p = "p\<lparr>aux := aux p - n\<rparr>"
  have "takes state packet ?p (split_generic al n t packet n fl ?p s)" if "s \<noteq> ARS_SPLIT_DONE" for s
    using assms o that by (intro split_generic_takes) auto
  moreover have "takes state packet ?p r = takes state packet p r" for r
    by (simp add: takes_def grown_def)
  ultimately show ?thesis using assms(5,6) unfolding split_option_def Let_def if_not_P [OF False] o(1) by simp
qed

lemma ipopt_takes: "pkt_wf p \<Longrightarrow> takes ARS_SPLIT_GET_IPOPT packet p (ars_split_ipopt al p packet)"
  unfolding ars_split_ipopt_def by (rule option_takes) (simp_all add: hdr_min_def)

lemma tcpopt_takes: "pkt_wf p \<Longrightarrow> takes ARS_SPLIT_GET_TCPOPT packet p (ars_split_tcpopt al p packet)"
  unfolding ars_split_tcpopt_def by (rule option_takes) (simp_all add: hdr_min_def)

lemma data_takes:
  assumes p: "pkt_wf p" and len: "length packet < 2 ^ 31"
  shows "takes ARS_SPLIT_GET_DATA packet p (ars_split_data al p packet)"
proof -
  have sz: "sint (word_of_nat (length packet) :: u32) = int (length packet)"
    using len by (simp add: signed_of_nat signed_take_bit_int_eq_self)
  obtain r a where a: "ars_add_data al (int (length packet)) p = Some (r, a)" "pkt_wf a"
    "if r then \<exists>d. length d = length packet \<and> p_layer_nr a = p_layer_nr p + 1 \<and> p_layer_nr p < ARS_MAX_LAYER \<and>
        p_layer a = (p_layer p)(p_layer_nr p := new_layer ARS_TYPE_DATA (length packet) d 0)
      else p_layer_nr a = p_layer_nr p \<and> p_layer a = p_layer p"
    using add_data_adds [OF p, of "int (length packet)" al] unfolding adds_layer_new nat_int by blast
  show ?thesis
  proof (cases r)
    case False
    then show ?thesis using a takes_error by (simp add: ars_split_data_def sz)
  next
    case True
    then obtain d where d: "length d = length packet" "p_layer_nr a = p_layer_nr p + 1" "p_layer_nr p < ARS_MAX_LAYER"
        "p_layer a = (p_layer p)(p_layer_nr p := new_layer ARS_TYPE_DATA (length packet) d 0)" using a(3) by auto
    show ?thesis
    proof (cases "packet = []")
      case True
      have "new_layer ARS_TYPE_DATA 0 d 0 = new_layer ARS_TYPE_DATA 0 [] 0" by (simp add: new_layer_def)
      with True \<open>r\<close> a(1,2) d show ?thesis
        by (auto simp: ars_split_data_def copy_to_def takes_def grown_def sz)
    next
      case False
      have "pushed (new_layer ARS_TYPE_DATA (length packet) d 0) p a"
        using d a(2) p by (simp add: pushed_def pkt_wf_def)
      from copy_to_pushed [OF this _ d(1) order.refl order.refl d(3)] False obtain q where q:
        "copy_to (p_layer_nr p) packet (length packet) a = Some q" "pushed (new_layer ARS_TYPE_DATA (length packet) packet 0) p q"
        using d(1) by auto
      have "layer_wf (new_layer ARS_TYPE_DATA (length packet) packet 0)" by (rule new_layer_wf) (simp_all add: hdr_min_def)
      then have "pkt_wf q" using pushed_wf [OF q(2) p d(3)] by simp
      then show ?thesis using q \<open>r\<close> a(1) d(2) False
        by (auto simp: ars_split_data_def sz takes_def grown_def pushed_def)
    qed
  qed
qed

text \<open>The checksum functions do not look at the number of layers.\<close>

lemma nr_irrelevant [simp]:
  "rd (p\<lparr>p_layer_nr := n\<rparr>) i off k = rd p i off k"
  "span_layers P (p\<lparr>p_layer_nr := n\<rparr>) j = span_layers P p j"
  "skip_ipopt_left (p\<lparr>p_layer_nr := n\<rparr>) j = skip_ipopt_left p j"
  "ars_relative_size (p\<lparr>p_layer_nr := n\<rparr>) j = ars_relative_size p j"
  "ars_set_error al msg (p\<lparr>p_layer_nr := n\<rparr>) = (ars_set_error al msg p)\<lparr>p_layer_nr := n\<rparr>"
proof -
  show s: "span_layers P (p\<lparr>p_layer_nr := n\<rparr>) j = span_layers P p j" for P
    by (rule span_layers_cong) simp
  show "ars_relative_size (p\<lparr>p_layer_nr := n\<rparr>) j = ars_relative_size p j" by (simp add: ars_relative_size_def s)
  show "skip_ipopt_left (p\<lparr>p_layer_nr := n\<rparr>) j = skip_ipopt_left p j" by (rule skip_ipopt_left_cong) simp
qed (simp_all add: rd_def ars_set_error_def Let_def)

definition nr_indep :: "(ars_packet \<Rightarrow> sum_result) \<Rightarrow> bool" where
  "nr_indep f \<longleftrightarrow> (\<forall>p n. f (p\<lparr>p_layer_nr := n\<rparr>) = map_option (\<lambda>(r, q). (r, q\<lparr>p_layer_nr := n\<rparr>)) (f p))"

lemma nr_indep_ip6: "nr_indep (\<lambda>p. ars_ip6_pseudo_cksum al p j nh)"
  by (auto simp: nr_indep_def ars_ip6_pseudo_cksum_def Let_def split: Option.bind_split)

lemma nr_indep_udptcp: "nr_indep (\<lambda>p. ars_udptcp_cksum al p j)"
  using nr_indep_ip6 [of al j]
  by (auto simp: nr_indep_def ars_udptcp_cksum_def Let_def split: Option.bind_split)

text \<open>The packet with the temporary layer: one layer more than is counted.\<close>

definition with_temp :: "ars_type \<Rightarrow> bytes \<Rightarrow> ars_packet \<Rightarrow> ars_packet \<Rightarrow> bool" where
  "with_temp t d p q \<longleftrightarrow> p_layer q = (p_layer p)(p_layer_nr p := new_layer t (length d) d 0)
     \<and> p_layer_nr q = p_layer_nr p \<and> p_default q = p_default p \<and> p_layer_nr p < ARS_MAX_LAYER"

lemma with_temp_wf:
  "with_temp t d p q \<Longrightarrow> pkt_wf p \<Longrightarrow> t \<noteq> ARS_TYPE_NULL \<Longrightarrow> hdr_min t \<le> length d \<Longrightarrow> pkt_wf (q\<lparr>p_layer_nr := p_layer_nr p + 1\<rparr>)"
  using new_layer_wf [of t "length d" d 0] by (auto simp: with_temp_def pkt_wf_def less_Suc_eq)

lemma temp_cksum_cases:
  assumes "pkt_wf p" "t \<noteq> ARS_TYPE_NULL" "hdr_min t \<le> length packet" "off + 2 \<le> hdr_min t"
    "\<And>j. sums j (\<lambda>p. f p j)" "\<And>j. nr_indep (\<lambda>p. f p j)"
  obtains (failed) err q where "err \<noteq> ARS_OK" "pkt_wf q" "temp_cksum al t off f packet p cont = split_error err q"
  | (ran) r q d where "with_temp t d p q" "length d = length packet" "temp_cksum al t off f packet p cont = cont r q"
      "\<forall>e. r = Inl e \<longrightarrow> e \<noteq> ARS_OK"
proof (rule add_generic_cases [OF assms(1,2), where al = al and sz = "length packet"], goal_cases full nomem ok)
  case full
  show thesis by (rule failed [of ARS_NOSPACE]) (use full assms(1) in \<open>simp_all add: temp_cksum_def\<close>)
next
  case nomem
  show thesis by (rule failed [of ARS_NOMEM]) (use nomem assms(1) in \<open>simp_all add: temp_cksum_def\<close>)
next
  case ok
  let ?n = "p_layer_nr p"
  let ?z = "replicate (length packet) (0 :: u8)"
  have sz: "0 < length packet" using assms(3,4) by linarith
  let ?a = "p\<lparr>p_layer := (p_layer p)(?n := new_layer t (length packet) ?z 0)\<rparr>"
  have a: "ars_add_generic al (length packet) t p = Some (ARS_OK, ?a)" using ok sz by (simp add: new_layer_def)
  have c: "copy_to ?n packet (length packet) ?a = Some (set_data ?n packet ?a)"
    using sz by (subst copy_to_eq [of _ _ ?z]) (simp_all add: new_layer_def)
  obtain d where d: "wr16 ?n off 0 (set_data ?n packet ?a) = Some (set_data ?n d (set_data ?n packet ?a))" "length d = length packet"
  proof -
    have "edits ?n (length packet) (wr16 ?n off 0)" using assms(3,4) by (intro edits_wr16) simp
    moreover have "l_data (p_layer (set_data ?n packet ?a) ?n) = Some packet" by simp
    ultimately show ?thesis using that unfolding edits_def by blast
  qed
  let ?q = "set_data ?n d ?a"
  have q: "with_temp t d p ?q" using ok d(2) sz by (auto simp: with_temp_def new_layer_def)
  have wf: "pkt_wf (?q\<lparr>p_layer_nr := ?n + 1\<rparr>)" using assms(1-3) d(2) by (intro with_temp_wf [OF q]) simp_all
  have f: "f (?q\<lparr>p_layer_nr := ?n + 1\<rparr>) ?n = map_option (\<lambda>(r, q). (r, q\<lparr>p_layer_nr := ?n + 1\<rparr>)) (f ?q ?n)"
    using assms(6) unfolding nr_indep_def by blast
  have fback: "f ?q ?n = map_option (\<lambda>(r, q). (r, q\<lparr>p_layer_nr := ?n\<rparr>)) (f (?q\<lparr>p_layer_nr := ?n + 1\<rparr>) ?n)"
  proof -
    have "f ((?q\<lparr>p_layer_nr := ?n + 1\<rparr>)\<lparr>p_layer_nr := ?n\<rparr>) ?n
        = map_option (\<lambda>(r, q). (r, q\<lparr>p_layer_nr := ?n\<rparr>)) (f (?q\<lparr>p_layer_nr := ?n + 1\<rparr>) ?n)"
      using assms(6) unfolding nr_indep_def by blast
    moreover have "(?q\<lparr>p_layer_nr := ?n + 1\<rparr>)\<lparr>p_layer_nr := ?n\<rparr> = ?q" by (simp add: set_data_def upd_layer_def)
    ultimately show ?thesis by (simp only:)
  qed
  have "(\<exists>c. f (?q\<lparr>p_layer_nr := ?n + 1\<rparr>) ?n = Some (Inr c, ?q\<lparr>p_layer_nr := ?n + 1\<rparr>))
      \<or> (\<exists>e al msg. e \<noteq> ARS_OK \<and> f (?q\<lparr>p_layer_nr := ?n + 1\<rparr>) ?n = Some (Inl e, ars_set_error al msg (?q\<lparr>p_layer_nr := ?n + 1\<rparr>)))"
  proof -
    have "pkt_wf (?q\<lparr>p_layer_nr := ?n + 1\<rparr>) \<and> ?n < p_layer_nr (?q\<lparr>p_layer_nr := ?n + 1\<rparr>)" using wf by simp
    then show ?thesis using assms(5) [of ?n, unfolded sums_def, rule_format] by blast
  qed
  then obtain r q' where r: "f ?q ?n = Some (r, q')" "with_temp t d p q'" "\<forall>e. r = Inl e \<longrightarrow> e \<noteq> ARS_OK"
    using fback q by (auto simp: with_temp_def)
  have "temp_cksum al t off f packet p cont = cont r q'"
    using a c d(1) r(1) by (simp add: temp_cksum_def)
  then show thesis by (rule ran [OF r(2) d(2) _ r(3)])
qed

lemma drop_temp_eq:
  assumes "with_temp t d p q" "pkt_wf p"
  shows "\<exists>q'. drop_temp q cont = cont q' \<and> p_layer q' = p_layer p \<and> p_layer_nr q' = p_layer_nr p \<and> pkt_wf q'"
proof -
  have n: "p_layer_nr p < ARS_MAX_LAYER" "p_layer p (p_layer_nr p) = null_layer"
    using assms pkt_wf_above [OF assms(2), of "p_layer_nr p"] by (simp_all add: with_temp_def)
  let ?q = "upd_layer (p_layer_nr p) (\<lambda>_. null_layer) q"
  have "drop_temp q cont = cont ?q"
    using assms(1) n(1) by (simp add: drop_temp_def ars_remove_layer_def ars_last_def ars_valid_layer_def with_temp_def Let_def)
  moreover have l: "p_layer ?q = p_layer p" "p_layer_nr ?q = p_layer_nr p" "p_default ?q = p_default p"
    using assms(1) n(2) by (auto simp: with_temp_def)
  moreover have "pkt_wf ?q" using assms(2) unfolding pkt_wf_def l .
  ultimately show ?thesis by blast
qed

lemma takes_cong: "p_layer p' = p_layer p \<Longrightarrow> p_layer_nr p' = p_layer_nr p \<Longrightarrow> takes state packet p' r = takes state packet p r"
  by (simp add: takes_def grown_def)

lemma temp_then:
  assumes "pkt_wf p" "with_temp t d p q" "\<And>q. pkt_wf q \<Longrightarrow> takes state packet q (cont q)"
  shows "takes state packet p (drop_temp q cont)"
proof -
  obtain q' where q': "drop_temp q cont = cont q'" "p_layer q' = p_layer p" "p_layer_nr q' = p_layer_nr p" "pkt_wf q'"
    using drop_temp_eq [OF assms(2,1)] by blast
  show ?thesis using assms(3) [OF q'(4)] takes_cong [OF q'(2,3)] by (simp add: q'(1))
qed

lemma icmp6_takes: "pkt_wf p \<Longrightarrow> takes ARS_SPLIT_GET_ICMP6 packet p (ars_split_icmp6 al p packet)"
proof (cases "length packet < 8")
  case True
  assume "pkt_wf p"
  then show ?thesis using True unfolding ars_split_icmp6_def Let_def
    by (auto intro!: split_add_takes [OF _ add_icmp6hdr_adds] simp: hdr_min_def)
next
  case False
  assume p: "pkt_wf p"
  then obtain stored where st: "ld16 packet 2 = Some stored" using False by (auto simp: ld16_def)
  let ?f = "\<lambda>pkt i. ars_ip6_pseudo_cksum al pkt i ARS_IPPROTO_ICMPV6"
  let ?fin = "\<lambda>r pkt. split_add al (ars_add_icmp6hdr al) packet ARS_ICMPHDR_SIZE
      (if stored \<noteq> (case r of Inl _ \<Rightarrow> stored | Inr c \<Rightarrow> c) then ARS_SPLIT_FBADCKSUM else 0) pkt (\<lambda>pkt. (pkt, ARS_SPLIT_GET_DATA))"
  have eq: "ars_split_icmp6 al p packet = temp_cksum al ARS_TYPE_ICMP6 2 ?f packet p (\<lambda>r pkt. drop_temp pkt (?fin r))"
    using False by (simp add: ars_split_icmp6_def Let_def st)
  have fin: "takes ARS_SPLIT_GET_ICMP6 packet q (?fin r q)" if "pkt_wf q" for r q
    using that False by (intro split_add_takes [OF _ add_icmp6hdr_adds]) (auto simp: hdr_min_def)
  show ?thesis unfolding eq
  proof (rule temp_cksum_cases [of p ARS_TYPE_ICMP6 packet 2 ?f al "\<lambda>r pkt. drop_temp pkt (?fin r)"], goal_cases)
    case (7 err q)
    then show ?case using takes_error by simp
  next
    case (8 r q d)
    then show ?case unfolding 8(3) by (intro temp_then [OF p 8(1)] fin)
  qed (use p False in \<open>auto simp: hdr_min_def intro: sums_ip6_pseudo nr_indep_ip6\<close>)
qed

lemma udp_takes: "pkt_wf p \<Longrightarrow> takes ARS_SPLIT_GET_UDP packet p (ars_split_udp al p packet)"
proof (cases "length packet < 8")
  case True
  assume "pkt_wf p"
  then show ?thesis using True unfolding ars_split_udp_def Let_def
    by (auto intro!: split_add_takes [OF _ add_udphdr_adds] simp: hdr_min_def)
next
  case False
  assume p: "pkt_wf p"
  then obtain uh_sum where st: "ld16 (hdr_copy ARS_UDPHDR_SIZE packet) 6 = Some uh_sum" by (auto simp: ld16_def)
  let ?fin = "\<lambda>c pkt. split_add al (ars_add_udphdr al) packet ARS_UDPHDR_SIZE
      (if uh_sum \<noteq> c then ARS_SPLIT_FBADCKSUM else 0) pkt (\<lambda>pkt. (pkt, ARS_SPLIT_GET_DATA))"
  let ?cont = "\<lambda>r pkt. case r of Inl error \<Rightarrow> split_error error (pkt\<lparr>p_layer_nr := p_layer_nr pkt + 1\<rparr>)
    | Inr c \<Rightarrow> drop_temp pkt (?fin c)"
  have eq: "ars_split_udp al p packet = temp_cksum al ARS_TYPE_UDP 6 (ars_udptcp_cksum al) packet p ?cont"
    using False by (simp add: ars_split_udp_def Let_def st)
  have fin: "takes ARS_SPLIT_GET_UDP packet q (?fin c q)" if "pkt_wf q" for c q
    using that False by (intro split_add_takes [OF _ add_udphdr_adds]) (auto simp: hdr_min_def)
  show ?thesis unfolding eq
  proof (rule temp_cksum_cases [of p ARS_TYPE_UDP packet 6 "ars_udptcp_cksum al" al ?cont], goal_cases)
    case (7 err q)
    then show ?case using takes_error by simp
  next
    case (8 r q d)
    have "pkt_wf (q\<lparr>p_layer_nr := p_layer_nr p + 1\<rparr>)"
      using False 8 by (intro with_temp_wf [OF 8(1) p]) (simp_all add: hdr_min_def)
    moreover have "p_layer_nr q = p_layer_nr p" using 8(1) by (simp add: with_temp_def)
    ultimately show ?case
      using 8 temp_then [OF p 8(1) fin] by (cases r) (auto intro: takes_error)
  qed (use p False in \<open>auto simp: hdr_min_def intro: sums_udptcp nr_indep_udptcp\<close>)
qed

lemma tcp_takes: "pkt_wf p \<Longrightarrow> takes ARS_SPLIT_GET_TCP packet p (ars_split_tcp al p packet)"
proof (cases "length packet < 20")
  case True
  assume "pkt_wf p"
  then show ?thesis using True unfolding ars_split_tcp_def Let_def
    by (auto intro!: split_add_takes [OF _ add_tcphdr_adds] simp: hdr_min_def)
next
  case False
  assume p: "pkt_wf p"
  obtain th_sum where st: "ld packet 0 20 = Some (take 20 packet)" "ld16 (take 20 packet) 16 = Some th_sum"
    using False by (auto simp: ld16_def ld_def)
  define th_off where "th_off = unat (drop_bit 4 (take 20 packet ! 12))"
  let ?fl = "\<lambda>c. if th_off < 5 then (ARS_SPLIT_FBADCKSUM, ARS_TCPHDR_SIZE)
     else if length packet < 4 * th_off then (ARS_SPLIT_FTRUNC, length packet)
     else (if th_sum \<noteq> c then ARS_SPLIT_FBADCKSUM else 0, 4 * th_off)"
  let ?nx = "\<lambda>pkt. if th_off > 5 then (pkt\<lparr>aux := 4 * (th_off - 5)\<rparr>, ARS_SPLIT_GET_TCPOPT) else (pkt, ARS_SPLIT_GET_DATA)"
  let ?fin = "\<lambda>c pkt. case ?fl c of (flags, tcpsize) \<Rightarrow> split_add al (ars_add_tcphdr al) packet (min tcpsize 20) flags pkt ?nx"
  let ?cont = "\<lambda>r pkt. case r of Inl error \<Rightarrow> split_error error (pkt\<lparr>p_layer_nr := p_layer_nr pkt + 1\<rparr>)
    | Inr c \<Rightarrow> drop_temp pkt (?fin c)"
  have eq: "ars_split_tcp al p packet = temp_cksum al ARS_TYPE_TCP 16 (ars_udptcp_cksum al) packet p ?cont"
    unfolding ars_split_tcp_def Let_def if_not_P [OF False] st Option.bind.bind_lunit th_off_def ..
  have fin: "takes ARS_SPLIT_GET_TCP packet q (?fin c q)" if q: "pkt_wf q" for c q
  proof -
    obtain fl n where n: "?fl c = (fl, n)" by fastforce
    then have "min n 20 = 20" using False by (auto split: if_splits)
    then show ?thesis using q False unfolding n prod.case
      by (intro split_add_takes [OF _ add_tcphdr_adds]) (auto simp: hdr_min_def)
  qed
  show ?thesis unfolding eq
  proof (rule temp_cksum_cases [of p ARS_TYPE_TCP packet 16 "ars_udptcp_cksum al" al ?cont], goal_cases)
    case (7 err q)
    then show ?case using takes_error by simp
  next
    case (8 r q d)
    have "pkt_wf (q\<lparr>p_layer_nr := p_layer_nr p + 1\<rparr>)"
      using False 8 by (intro with_temp_wf [OF 8(1) p]) (simp_all add: hdr_min_def)
    moreover have "p_layer_nr q = p_layer_nr p" using 8(1) by (simp add: with_temp_def)
    ultimately have err: "e \<noteq> ARS_OK \<Longrightarrow> takes ARS_SPLIT_GET_TCP packet p (split_error e (q\<lparr>p_layer_nr := p_layer_nr q + 1\<rparr>))" for e
      by (intro takes_error) simp_all
    show ?case unfolding 8(3)
    proof (cases r)
      case (Inl e)
      then show "takes ARS_SPLIT_GET_TCP packet p (?cont r q)" unfolding Inl sum.case using 8(4) Inl by (intro err) blast
    next
      case (Inr c)
      show "takes ARS_SPLIT_GET_TCP packet p (?cont r q)" unfolding Inr sum.case by (rule temp_then [OF p 8(1) fin])
    qed
  qed (use p False in \<open>auto simp: hdr_min_def intro: sums_udptcp nr_indep_udptcp\<close>)
qed

lemma handler_takes:
  assumes "pkt_wf p" "length packet < 2 ^ 31" "state \<noteq> ARS_SPLIT_DONE"
  shows "takes state packet p (ars_split_state_handler state al p packet)"
  using assms unfolding ars_split_state_handler_def
  by (cases state) (simp_all add: ip_takes ipopt_takes icmp_takes udp_takes tcp_takes tcpopt_takes igrp_takes
      igrpentry_takes data_takes ip6_takes icmp6_takes)

section \<open>The whole machine\<close>

lemma clip_size_defined:
  assumes "pkt_wf p" "len \<le> sz"
  shows "\<exists>n. clip_size p sz len = Some n \<and> len \<le> n \<and> n \<le> sz"
proof (cases "p_layer_nr p = 1")
  case False
  then show ?thesis using assms(2) by (simp add: clip_size_def)
next
  case True
  then have wf: "layer_wf (p_layer p 0)" using assms(1) by (simp add: pkt_wf_def)
  have rd: "\<exists>w. rd16 p 0 off = Some w" if "off + 2 \<le> hdr_min (l_type (p_layer p 0))" for off
    using wf that by (auto simp: rd16_def ld16_def layer_wf_def layer_len_def split: option.splits)
  show ?thesis
    using rd [of 2] rd [of 4] assms(2) by (auto simp: clip_size_def hdr_min_def True)
qed

text \<open>What decreases with every turn.\<close>

definition split_left :: "split_state \<Rightarrow> bytes \<Rightarrow> nat" where
  "split_left state packet = 2 * length packet + (if state = ARS_SPLIT_GET_DATA \<or> state = ARS_SPLIT_DONE then 0 else 1)"

lemma split_left_decreases:
  assumes "len \<le> n" "n \<le> length packet" "packet \<noteq> [] \<and> len = 0 \<longrightarrow> state' = ARS_SPLIT_GET_DATA"
    "state = ARS_SPLIT_GET_DATA \<longrightarrow> state' = ARS_SPLIT_DONE" "state \<noteq> ARS_SPLIT_DONE" "drop len (take n packet) \<noteq> []"
  shows "split_left state' (drop len (take n packet)) < split_left state packet"
proof (cases "n - len < length packet")
  case True
  then show ?thesis using assms(2) by (auto simp: split_left_def)
next
  case False
  then have z: "len = 0" "n = length packet" "packet \<noteq> []" using assms by auto
  then have "state' = ARS_SPLIT_GET_DATA" "state \<noteq> ARS_SPLIT_GET_DATA" using assms(3,4) by auto
  then show ?thesis using z assms(5) by (simp add: split_left_def)
qed

text \<open>One turn of the loop.\<close>

lemma split_loop_step:
  assumes "pkt_wf p" "length packet < 2 ^ 31" "state \<noteq> ARS_SPLIT_DONE"
  obtains (error) r q where "r \<noteq> ARS_OK" "pkt_wf q" "split_loop al state packet p = Some (r, q)"
  | (turn) q state' len n where "pkt_wf q" "grown packet len p q" "len \<le> n" "n \<le> length packet"
      "clip_size q (length packet) len = Some n"
      "packet \<noteq> [] \<and> len = 0 \<longrightarrow> state' = ARS_SPLIT_GET_DATA" "state = ARS_SPLIT_GET_DATA \<longrightarrow> state' = ARS_SPLIT_DONE"
      "state \<notin> {ARS_SPLIT_GET_IPOPT, ARS_SPLIT_GET_TCPOPT} \<longrightarrow> p_layer_nr q = p_layer_nr p + 1"
      "state' = ARS_SPLIT_DONE \<longrightarrow> len = length packet"
      "split_loop al state packet p = split_loop al (if drop len (take n packet) = [] then ARS_SPLIT_DONE else state') (drop len (take n packet)) q"
proof -
  obtain r q state' len where h: "ars_split_state_handler state al p packet = Some (r, q, state', len)" "pkt_wf q"
    "r = ARS_OK \<longrightarrow> len \<le> length packet \<and> grown packet len p q \<and> (packet \<noteq> [] \<and> len = 0 \<longrightarrow> state' = ARS_SPLIT_GET_DATA)
       \<and> (state = ARS_SPLIT_GET_DATA \<longrightarrow> state' = ARS_SPLIT_DONE)
       \<and> (state \<notin> {ARS_SPLIT_GET_IPOPT, ARS_SPLIT_GET_TCPOPT} \<longrightarrow> p_layer_nr q = p_layer_nr p + 1)
       \<and> (state' = ARS_SPLIT_DONE \<longrightarrow> len = length packet)"
    using handler_takes [OF assms, of al] unfolding takes_def by blast
  show thesis
  proof (cases "r = ARS_OK")
    case False
    then have "split_loop al state packet p = Some (r, q)"
      using h(1) assms(3) by (subst split_loop.simps) simp
    with False h(2) show thesis by (rule error)
  next
    case True
    with h obtain n where n: "clip_size q (length packet) len = Some n" "len \<le> n" "n \<le> length packet"
      using clip_size_defined by blast
    have "split_loop al state packet p = split_loop al (if drop len (take n packet) = [] then ARS_SPLIT_DONE else state') (drop len (take n packet)) q"
      using h(1) assms(3) True n(1) by (subst split_loop.simps) (simp add: Let_def)
    then show thesis using turn h n True by blast
  qed
qed

lemma split_loop_safe:
  assumes "pkt_wf p" "length packet < 2 ^ 31"
  shows "\<exists>r q. split_loop al state packet p = Some (r, q) \<and> pkt_wf q"
  using assms
proof (induction "split_left state packet"
    arbitrary: p packet state rule: less_induct)
  case less
  show ?case
  proof (cases "state = ARS_SPLIT_DONE")
    case True
    then show ?thesis using less.prems by (subst split_loop.simps) simp
  next
    case False
    from less.prems False show ?thesis
    proof (cases rule: split_loop_step [where al = al])
      case (error r q)
      then show ?thesis by simp
    next
      case (turn q state' len n)
      let ?rest = "drop len (take n packet)"
      show ?thesis
      proof (cases "?rest = []")
        case True
        then show ?thesis using turn(1,10) by (subst turn(10)) (simp add: split_loop.simps)
      next
        case ne: False
        have "split_left state' ?rest < split_left state packet"
          using split_left_decreases [OF turn(3,4,6,7) False ne] .
        then show ?thesis using less.hyps [OF _ turn(1)] less.prems(2) turn(4) ne unfolding turn(10) by simp
      qed
    qed
  qed
qed

section \<open>Nothing is lost\<close>

text \<open>The new layers of \<open>q\<close> hold exactly the given bytes.\<close>

definition holds_bytes :: "nat \<Rightarrow> ars_packet \<Rightarrow> bytes \<Rightarrow> bool" where
  "holds_bytes n q bs \<longleftrightarrow> n \<le> p_layer_nr q \<and> concat (map layer_out (map (p_layer q) [n..<p_layer_nr q])) = bs"

definition untruncated :: "ars_packet \<Rightarrow> bool" where
  "untruncated q \<longleftrightarrow> (\<forall>k < p_layer_nr q. l_flags (p_layer q k) AND ARS_SPLIT_FTRUNC = 0)"

lemma clip_size_cong: "p_layer_nr q = p_layer_nr p \<Longrightarrow> p_layer q 0 = p_layer p 0 \<Longrightarrow> clip_size q n len = clip_size p n len"
  by (simp add: clip_size_def rd16_def)

lemma clip_size_other: "p_layer_nr q \<noteq> 1 \<Longrightarrow> clip_size q n len = Some n"
  by (simp add: clip_size_def)

lemma split_loop_keeps:
  assumes "split_loop al state packet p = Some (ARS_OK, q)" "pkt_wf p" "length packet < 2 ^ 31" "untruncated q"
    "state = ARS_SPLIT_DONE \<longrightarrow> packet = []" "0 < p_layer_nr p" "p_layer_nr p = 1 \<longrightarrow> clip_size p (length packet) 0 = Some (length packet)"
  shows "holds_bytes (p_layer_nr p) q packet \<and> (\<forall>k < p_layer_nr p. p_layer q k = p_layer p k) \<and> pkt_wf q"
  using assms
proof (induction "split_left state packet"
    arbitrary: p packet state rule: less_induct)
  case less
  show ?case
  proof (cases "state = ARS_SPLIT_DONE")
    case True
    then show ?thesis using less.prems by (subst (asm) split_loop.simps) (auto simp: holds_bytes_def)
  next
    case False
    from less.prems(2,3) False show ?thesis
    proof (cases rule: split_loop_step [where al = al])
      case (error r q')
      then show ?thesis using less.prems(1) by simp
    next
      case (turn a state' len n)
      have clip: "n = length packet" "p_layer_nr a = 1 \<longrightarrow> p_layer_nr p = 1 \<and> len = 0 \<and> p_layer a 0 = p_layer p 0"
      proof -
        show nr: "p_layer_nr a = 1 \<longrightarrow> p_layer_nr p = 1 \<and> len = 0 \<and> p_layer a 0 = p_layer p 0"
          using turn(2) less.prems(6) by (auto simp: grown_def)
        show "n = length packet"
        proof (cases "p_layer_nr a = 1")
          case True
          then show ?thesis using nr less.prems(7) turn(5) clip_size_cong [of a p] by simp
        next
          case False
          then show ?thesis using turn(5) clip_size_other [of a] by simp
        qed
      qed
      let ?rest = "drop len packet"
      let ?s = "if ?rest = [] then ARS_SPLIT_DONE else state'"
      have run: "split_loop al ?s ?rest a = Some (ARS_OK, q)" using less.prems(1) turn(10) clip(1) by simp
      have pos: "0 < p_layer_nr a" "p_layer_nr p \<le> p_layer_nr a" using turn(2) less.prems(6) by (auto simp: grown_def)
      have nodone: "?s = ARS_SPLIT_DONE \<longrightarrow> ?rest = []" using turn(9) by auto
      have "holds_bytes (p_layer_nr a) q ?rest \<and> (\<forall>k < p_layer_nr a. p_layer q k = p_layer a k) \<and> pkt_wf q"
      proof (cases "?rest = []")
        case True
        then have "q = a" using run by (simp add: split_loop.simps)
        then show ?thesis using True turn(1) by (simp add: holds_bytes_def)
      next
        case ne: False
        have "split_left state' ?rest < split_left state packet"
          using split_left_decreases [OF turn(3,4,6,7) False] ne clip(1) by simp
        moreover have "p_layer_nr a = 1 \<longrightarrow> clip_size a (length ?rest) 0 = Some (length ?rest)"
          using clip(2) less.prems(7) clip_size_cong [of a p] by auto
        ultimately show ?thesis
          using less.hyps [of state' ?rest a] run ne turn(1) less.prems(3,4) pos(1) nodone by auto
      qed
      note rec = this
      have keep: "\<forall>k < p_layer_nr p. p_layer q k = p_layer p k"
        using rec pos(2) turn(2) by (auto simp: grown_def)
      have "holds_bytes (p_layer_nr p) q packet"
      proof (cases "p_layer_nr a = p_layer_nr p")
        case True
        then have "len = 0" using turn(2) by (auto simp: grown_def)
        then show ?thesis using rec True by simp
      next
        case False
        then have nr: "p_layer_nr a = p_layer_nr p + 1" using turn(2) by (auto simp: grown_def)
        have lt: "p_layer_nr p < p_layer_nr q" using rec nr by (simp add: holds_bytes_def)
        have same: "p_layer q (p_layer_nr p) = p_layer a (p_layer_nr p)" using rec nr by simp
        have "l_flags (p_layer q (p_layer_nr p)) AND ARS_SPLIT_FTRUNC = 0"
          using less.prems(4) lt by (simp add: untruncated_def)
        then have "layer_out (p_layer q (p_layer_nr p)) = take len packet"
          using turn(2) nr same by (auto simp: grown_def)
        then show ?thesis
          using rec lt nr by (simp add: holds_bytes_def upt_conv_Cons)
      qed
      with keep rec show ?thesis by simp
    qed
  qed
qed

text \<open>What a header handler that succeeds has added.\<close>

lemma split_add_layer:
  assumes "pkt_wf p" "adds_layer t sz p (add p)" "n \<le> sz" "n \<le> length packet" "0 < sz"
    "\<And>p. p_layer (fst (next p)) = p_layer p \<and> p_layer_nr (fst (next p)) = p_layer_nr p"
    "split_add al add packet n fl p next = Some (ARS_OK, q, s, m)"
  shows "m = n \<and> p_layer_nr q = p_layer_nr p + 1 \<and>
    (\<exists>d. length d = sz \<and> p_layer q (p_layer_nr p) = new_layer t sz (take n packet @ drop n d) fl)"
proof -
  obtain r a where a: "add p = Some (r, a)" "pkt_wf a"
    "if r then \<exists>d. length d = sz \<and> p_layer_nr a = p_layer_nr p + 1 \<and> p_layer_nr p < ARS_MAX_LAYER \<and>
        p_layer a = (p_layer p)(p_layer_nr p := new_layer t sz d 0)
      else p_layer_nr a = p_layer_nr p \<and> p_layer a = p_layer p"
    using assms(2) unfolding adds_layer_new by blast
  have r: "r" using a(1) assms(7) by (cases r) (auto simp: split_add_def split_error_def)
  then obtain d where d: "length d = sz" "p_layer_nr a = p_layer_nr p + 1" "p_layer_nr p < ARS_MAX_LAYER"
    "p_layer a = (p_layer p)(p_layer_nr p := new_layer t sz d 0)"
    using a(3) by auto
  then have "pushed (new_layer t sz d 0) p a" using a(2) assms(1) by (simp add: pushed_def pkt_wf_def)
  from copy_to_pushed [OF this assms(5) d(1) assms(3,4) d(3), of fl al] obtain b where b:
    "copy_to (p_layer_nr p) packet n a = Some b"
    "pushed (new_layer t sz (take n packet @ drop n d) fl) p (set_last_flags al fl b)" by blast
  obtain x y where nx: "next (set_last_flags al fl b) = (x, y)" by fastforce
  have "q = x" "m = n" using assms(7) r a(1) d(2) b(1) nx by (auto simp: split_add_def)
  then show ?thesis using b(2) d(1) assms(6) [of "set_last_flags al fl b"] nx by (auto simp: pushed_def)
qed

text \<open>The length of the datagram in the captured bytes: what follows is link layer padding.\<close>

definition datagram_len :: "bytes \<Rightarrow> nat" where
  "datagram_len p = (if p = [] then 0
     else if drop_bit 4 (p ! 0) = 6 then min (length p) (40 + (256 * unat (p ! 4) + unat (p ! 5)))
     else min (length p) (max 20 (256 * unat (p ! 2) + unat (p ! 3))))"

lemma unat_htons_le16: "unat (htons (le16 a b)) = 256 * unat a + unat b"
  by (simp add: htons_def unat_le16 low_le16 high_le16)

lemma first_header:
  assumes "ars_split_state_handler (split_start packet) al p packet = Some (ARS_OK, q, s, len)" "pkt_wf p" "p_layer_nr p = 0"
    "l_flags (p_layer q 0) AND ARS_SPLIT_FTRUNC = 0" "packet \<noteq> []"
  shows "clip_size q (length packet) len = Some (datagram_len packet)"
proof -
  obtain b bs where bs: "packet = b # bs" using assms(5) by (cases packet) auto
  have nib: "drop_bit 4 b AND 0xf = drop_bit 4 b"
  proof (rule word_unat_eqI)
    have "unat (drop_bit 4 b) = unat b div 16" by (simp add: unat_div drop_bit_eq_div)
    then have "unat (drop_bit 4 b) < 16" by (simp only:) (simp add: less_mult_imp_div_less)
    then show "unat (drop_bit 4 b AND 0xf) = unat (drop_bit 4 b)" by (simp only: and_0xf_unat mod_less)
  qed
  show ?thesis
  proof (cases "drop_bit 4 b = 6")
    case True
    then have h: "ars_split_ip6 al p packet = Some (ARS_OK, q, s, len)"
      using assms(1) bs nib by (simp add: split_start_def ars_split_state_handler_def)
    note six = split_add_layer [where add = "ars_add_ip6hdr al", OF assms(2) add_ip6hdr_adds [OF assms(2)]]
    have l: "40 \<le> length packet"
    proof (rule ccontr)
      assume short: "\<not> 40 \<le> length packet"
      then have "split_add al (ars_add_ip6hdr al) packet (length packet) ARS_SPLIT_FTRUNC p (\<lambda>pkt. (pkt, ARS_SPLIT_GET_DATA)) = Some (ARS_OK, q, s, len)"
        using h by (simp add: ars_split_ip6_def)
      from six [OF _ _ _ _ this] short have "\<exists>d. p_layer q 0 = new_layer ARS_TYPE_IP6 40 d ARS_SPLIT_FTRUNC"
        using assms(3) by auto
      then show False using assms(4) by auto
    qed
    then have "split_add al (ars_add_ip6hdr al) packet 40 0 p (\<lambda>pkt. (pkt, ars_ip6_next_state (hdr_copy ARS_IP6HDR_SIZE packet ! 6))) = Some (ARS_OK, q, s, len)"
      using h by (simp add: ars_split_ip6_def Let_def)
    from six [OF _ l _ _ this] assms(3)
    have "len = 40 \<and> p_layer_nr q = 1 \<and> (\<exists>d. length d = 40 \<and> p_layer q 0 = new_layer ARS_TYPE_IP6 40 (take 40 packet @ drop 40 d) 0)"
      by simp
    then have q: "len = 40" "p_layer_nr q = 1" "p_layer q 0 = new_layer ARS_TYPE_IP6 40 (take 40 packet) 0" by auto
    have "rd16 q 0 4 = Some (le16 (packet ! 4) (packet ! 5))"
      using l q(3) by (simp add: rd16_def new_layer_def ld16_def)
    then show ?thesis using q True bs assms(5)
      by (simp add: clip_size_def datagram_len_def unat_htons_le16 add.commute)
  next
    case False
    then have h: "ars_split_ip al p packet = Some (ARS_OK, q, s, len)"
      using assms(1) bs nib by (simp add: split_start_def ars_split_state_handler_def)
    obtain fl n where c: "ip_header_check packet = Some (fl, n)" "n \<le> 20" "n \<le> length packet"
      "n = 20 \<or> fl AND ARS_SPLIT_FTRUNC \<noteq> 0" using ip_header_check_cases by blast
    note add = split_add_layer [where add = "ars_add_iphdr al", OF assms(2) add_iphdr_adds [OF assms(2)]]
    have "len = n \<and> p_layer_nr q = 1 \<and> (\<exists>d. length d = 20 \<and> p_layer q 0 = new_layer ARS_TYPE_IP 20 (take n packet @ drop n d) fl)"
      using add [OF c(2,3) _ _ h [unfolded ars_split_ip_def c(1) Option.bind.bind_lunit prod.case Let_def]] assms(3) by simp
    then have q: "len = 20" "p_layer_nr q = 1" "p_layer q 0 = new_layer ARS_TYPE_IP 20 (take 20 packet) fl" "20 \<le> length packet"
      using assms(4) c by auto
    have "rd16 q 0 2 = Some (le16 (packet ! 2) (packet ! 3))"
      using q(3,4) by (simp add: rd16_def new_layer_def ld16_def)
    then show ?thesis using q False bs assms(5)
      by (simp add: clip_size_def datagram_len_def unat_htons_le16 max.commute)
  qed
qed

lemma split_datagram:
  assumes "split_loop al (split_start packet) packet p = Some (ARS_OK, q)" "pkt_wf p" "p_layer_nr p = 0"
    "length packet < 2 ^ 31" "untruncated q"
  shows "pkt_out q 0 = take (datagram_len packet) packet \<and> pkt_wf q"
proof -
  let ?s = "split_start packet"
  have ns: "?s \<noteq> ARS_SPLIT_DONE" "?s \<notin> {ARS_SPLIT_GET_IPOPT, ARS_SPLIT_GET_TCPOPT}" "?s \<noteq> ARS_SPLIT_GET_DATA"
    by (auto simp: split_start_def split: list.splits)
  obtain r a state' len where h: "ars_split_state_handler ?s al p packet = Some (r, a, state', len)" "pkt_wf a"
    "r = ARS_OK \<longrightarrow> len \<le> length packet \<and> grown packet len p a \<and> (packet \<noteq> [] \<and> len = 0 \<longrightarrow> state' = ARS_SPLIT_GET_DATA)
       \<and> p_layer_nr a = p_layer_nr p + 1 \<and> (state' = ARS_SPLIT_DONE \<longrightarrow> len = length packet)"
    using handler_takes [OF assms(2,4) ns(1), of al] ns(2) unfolding takes_def by blast
  have r: "r = ARS_OK"
    using h(1) assms(1) ns(1) by (cases "r = ARS_OK") (auto simp: split_loop.simps [of al ?s])
  note ok = h(3) [rule_format, OF r]
  obtain n where n: "clip_size a (length packet) len = Some n" "len \<le> n" "n \<le> length packet"
    using clip_size_defined [OF h(2)] ok by blast
  let ?rest = "drop len (take n packet)"
  let ?st = "if ?rest = [] then ARS_SPLIT_DONE else state'"
  have run: "split_loop al ?st ?rest a = Some (ARS_OK, q)"
    using assms(1) h(1) r ns(1) n(1) by (subst (asm) split_loop.simps) (simp add: Let_def)
  have nr: "p_layer_nr a = 1" using ok assms(3) by simp
  have dn: "?st = ARS_SPLIT_DONE \<longrightarrow> ?rest = []" using ok n by auto
  have rlen: "length ?rest = n - len" using n(3) by simp
  have clip: "p_layer_nr a = 1 \<longrightarrow> clip_size a (length ?rest) 0 = Some (length ?rest)"
    using n unfolding rlen by (auto simp: clip_size_def rd16_def split: if_splits bind_splits)
  have rec: "holds_bytes 1 q ?rest" "p_layer q 0 = a_layer0" "pkt_wf q" if "a_layer0 = p_layer a 0" for a_layer0
    using split_loop_keeps [OF run h(2) _ assms(5) dn _ clip] nr rlen assms(4) n that by auto
  have q0: "0 < p_layer_nr q" "p_layer q 0 = p_layer a 0" "pkt_wf q" using rec by (auto simp: holds_bytes_def)
  then have fl: "l_flags (p_layer a 0) AND ARS_SPLIT_FTRUNC = 0" using assms(5) by (auto simp: untruncated_def)
  then have out: "layer_out (p_layer q 0) = take len packet"
    using ok assms(3) q0(2) by (auto simp: grown_def)
  have "pkt_out q 0 = take len packet @ ?rest"
    using rec(1) q0(1) out by (simp add: pkt_out_Cons) (simp add: pkt_out_def holds_bytes_def)
  also have "\<dots> = take n packet" using n(2) by (metis append_take_drop_id min.absorb1 take_take)
  also have "n = datagram_len packet \<or> packet = []"
    using first_header [OF h(1) [unfolded r] assms(2,3) fl] n(1) by auto
  then have "take n packet = take (datagram_len packet) packet" by auto
  finally show ?thesis using q0(3) by simp
qed

section \<open>Offset detection\<close>

text \<open>\<open>k\<close> is the least position where an intact IPv4 header starts.\<close>

definition first_ip :: "bytes \<Rightarrow> nat \<Rightarrow> bool" where
  "first_ip p k \<longleftrightarrow> k < length p \<and> ars_seems_ip (drop k p) = Some True \<and> (\<forall>i < k. ars_seems_ip (drop i p) = Some False)"

definition no_ip :: "bytes \<Rightarrow> bool" where
  "no_ip p \<longleftrightarrow> (\<forall>i. ars_seems_ip (drop i p) = Some False)"

lemma first_ip_Cons:
  assumes "ars_seems_ip (b # p) = Some False"
  shows "first_ip p k \<Longrightarrow> first_ip (b # p) (Suc k)" and "no_ip p \<Longrightarrow> no_ip (b # p)"
proof -
  assume "first_ip p k"
  then show "first_ip (b # p) (Suc k)" using assms by (simp add: first_ip_def All_less_Suc2)
next
  assume n: "no_ip p"
  have "ars_seems_ip (drop i (b # p)) = Some False" for i
    using n assms by (cases i) (simp_all add: no_ip_def)
  then show "no_ip (b # p)" by (simp add: no_ip_def)
qed

lemma no_ip_short:
  assumes "length p < 20"
  shows "no_ip p"
proof -
  have "ars_seems_ip (drop i p) = Some False" for i
  proof -
    have "length (drop i p) < 20" using assms by simp
    then show ?thesis unfolding ars_seems_ip_def by (rule if_P)
  qed
  then show ?thesis by (simp add: no_ip_def)
qed

lemma guess_loop_spec:
  "(\<exists>k. guess_loop p off = Some (ARS_OK, off + k) \<and> first_ip p k) \<or> (\<exists>n. guess_loop p off = Some (ARS_ERROR, n) \<and> no_ip p)"
proof (induction p arbitrary: off)
  case Nil
  then show ?case by (simp add: no_ip_short)
next
  case (Cons b p)
  show ?case
  proof (cases "length (b # p) < 20")
    case True
    then have "guess_loop (b # p) off = Some (ARS_ERROR, off)" unfolding guess_loop.simps by (rule if_P)
    then show ?thesis using no_ip_short [OF True] by blast
  next
    case False
    obtain r where r: "ars_seems_ip (b # p) = Some r" using seems_ip_defined by blast
    have eq: "guess_loop (b # p) off = (if r then Some (ARS_OK, off) else guess_loop p (Suc off))"
      unfolding guess_loop.simps if_not_P [OF False] r by simp
    show ?thesis
    proof (cases r)
      case True
      then have "first_ip (b # p) 0" using r by (simp add: first_ip_def)
      then show ?thesis using eq True by (metis Nat.add_0_right)
    next
      case no: False
      have "ars_seems_ip (b # p) = Some False" using r no by simp
      note step = first_ip_Cons [OF this]
      show ?thesis
        using Cons.IH [of "Suc off"] eq no step by (metis add_Suc_shift)
    qed
  qed
qed

section \<open>Properties\<close>

text \<open>C3. Dissecting any captured bytes (below 2 GB), at any offset or with offset detection, under
  any memory behaviour, never reads outside of the bytes announced and never writes outside of
  a layer's block, always comes to an end, and leaves a well-formed packet.\<close>

theorem split_packet_safe:
  assumes "pkt_wf p" "length packet < 2 ^ 31"
  shows "\<exists>r q. ars_split_packet al packet ipoff p = Some (r, q) \<and> pkt_wf q"
proof -
  obtain e n where g: "ars_guess_ipoff packet = Some (e, n)"
    using guess_loop_spec [of packet 0] unfolding ars_guess_ipoff_def by blast
  have run: "\<exists>r q. split_loop al (split_start (drop k packet)) (drop k packet) p = Some (r, q) \<and> pkt_wf q" for k
    using assms by (intro split_loop_safe) auto
  have *: "\<exists>r q. (case guess of None \<Rightarrow> Some (ARS_INVALID, ars_set_error al ''IP offset autodetection failed'' p)
      | Some ipoff \<Rightarrow> if ipoff < 0 \<or> int (length packet) < ipoff
          then Some (ARS_INVALID, ars_set_error al ''IP offset larger than the packet'' p)
          else split_loop al (split_start (drop (nat ipoff) packet)) (drop (nat ipoff) packet) p) = Some (r, q) \<and> pkt_wf q" for guess
    using assms(1) run by (cases guess) auto
  have "\<exists>guess. (if ipoff = -1 then do { (e, n) \<leftarrow> ars_guess_ipoff packet; Some (if e = ARS_OK then Some (int n) else None) }
      else Some (Some ipoff)) = Some guess"
    using g by (simp del: not_None_eq)
  then obtain guess where "(if ipoff = -1 then do { (e, n) \<leftarrow> ars_guess_ipoff packet; Some (if e = ARS_OK then Some (int n) else None) }
      else Some (Some ipoff)) = Some guess" by blast
  then show ?thesis
    using * [of guess] unfolding ars_split_packet_def Let_def by simp
qed

theorem split_packet_safe_witness:
  "pkt_wf (ars_init demo_udp) \<and> length [0x45 :: u8, 0, 0] < 2 ^ 31
   \<and> (\<exists>r q. ars_split_packet (\<lambda>_. True) [0x45, 0, 0] 0 (ars_init demo_udp) = Some (r, q) \<and> pkt_wf q)"
  using split_packet_safe [OF pkt_wf_init, of "[0x45, 0, 0]" "\<lambda>_. True" 0 demo_udp] pkt_wf_init by simp


text \<open>C2. Nothing is lost: when the dissection succeeds and no layer is flagged as truncated,
  \<open>ars_build_packet\<close> gives back exactly the bytes of the datagram, that is the captured bytes
  from the offset on without the link layer padding behind the length that the first IPv4 or
  IPv6 header announces.\<close>

theorem split_then_build:
  assumes "ars_split_packet al packet (int off) p = Some (ARS_OK, q)" "pkt_wf p" "p_layer_nr p = 0"
    "length packet < 2 ^ 31" "off < length packet" "untruncated q" "\<forall>n. al' n"
  shows "ars_build_packet al' q = Some (Inr (take (datagram_len (drop off packet)) (drop off packet)), q)"
proof -
  let ?p = "drop off packet"
  have "split_loop al (split_start ?p) ?p p = Some (ARS_OK, q)"
    using assms(1,5) by (simp add: ars_split_packet_def Let_def)
  then have q: "pkt_out q 0 = take (datagram_len ?p) ?p" "pkt_wf q"
    using split_datagram assms(2-4,6) by auto
  have "0 < datagram_len ?p" using assms(5) by (simp add: datagram_len_def less_max_iff_disj)
  then have "pkt_out q 0 \<noteq> []" using assms(5) by (simp add: q(1))
  then show ?thesis using build_packet_eq [OF q(2), of al'] assms(7) q(1) by simp
qed

text \<open>A datagram in front of two bytes of padding.\<close>

definition demo_wire :: bytes where
  "demo_wire = [0x45, 0, 0, 31, 0, 7, 0, 0, 64, 17, 0, 0, 10, 0, 0, 1, 10, 0, 0, 2, 0, 53, 4, 0, 0, 11, 0, 0, 1, 2, 3, 0, 0]"

lemma ok_result:
  "(case x of Some (ARS_OK, q) \<Rightarrow> P q | _ \<Rightarrow> False) \<Longrightarrow> \<exists>q. x = Some (ARS_OK, q) \<and> P q"
  by (auto split: option.splits prod.splits ars_code.splits)

theorem split_then_build_witness:
  "\<exists>q. ars_split_packet (\<lambda>_. True) demo_wire (int 0) (ars_init demo_udp) = Some (ARS_OK, q) \<and> untruncated q
     \<and> ars_build_packet (\<lambda>_. True) q = Some (Inr (take 31 demo_wire), q)"
proof -
  have "(case split_loop (\<lambda>_. True) (split_start demo_wire) demo_wire (ars_init demo_udp) of Some (ARS_OK, q) \<Rightarrow>
      p_layer_nr q = 3 \<and> list_all (\<lambda>k. l_flags (p_layer q k) AND ARS_SPLIT_FTRUNC = 0) [0, 1, 2] | _ \<Rightarrow> False)"
    by code_simp
  from ok_result [OF this] obtain q where
    q: "split_loop (\<lambda>_. True) (split_start demo_wire) demo_wire (ars_init demo_udp) = Some (ARS_OK, q)"
      "p_layer_nr q = 3" "list_all (\<lambda>k. l_flags (p_layer q k) AND ARS_SPLIT_FTRUNC = 0) [0, 1, 2]"
    by (elim exE conjE)
  have run: "ars_split_packet (\<lambda>_. True) demo_wire (int 0) (ars_init demo_udp) = Some (ARS_OK, q)"
    unfolding ars_split_packet_def Let_def using q(1) by simp
  have "[0..<p_layer_nr q] = [0, 1, 2]" unfolding q(2) by (simp add: upt_rec)
  then have u: "untruncated q" using q(3) unfolding untruncated_def list_all_iff by (metis atLeastLessThan_iff set_upt zero_le)
  have d: "length demo_wire < 2 ^ 31" "0 < length demo_wire" by (simp_all add: demo_wire_def)
  have e: "datagram_len (drop 0 demo_wire) = 31" by code_simp
  show ?thesis
    using split_then_build [OF run pkt_wf_init _ d(1,2) u, of "\<lambda>_. True"] run u e by (simp add: ars_init_def)
qed

end
