(* ===== verification/Strings.thy ===== *)
theory Strings
  imports Adbuf
begin

text \<open>
  String helpers: \<open>strisnum\<close> and \<open>strftok\<close> (hstring.c), \<open>hextobin\<close> and \<open>bintohex\<close>
  (hex.c), \<open>memstr\<close> (memstr.c), \<open>strlcpy\<close> (strlcpy.c).

  A C string argument is the list of its characters before the terminating NUL.  A function
  that writes into a caller's buffer takes the buffer and returns it updated; \<open>None\<close> is an
  access outside of it.  \<open>isspace\<close>, \<open>isdigit\<close> and \<open>tolower\<close> are those of the C locale.
\<close>

section \<open>Character classes and buffers\<close>

definition isspace :: "char \<Rightarrow> bool" where
  "isspace c \<longleftrightarrow> of_char c \<in> {9, 10, 11, 12, 13, 32 :: nat}"

definition isdigit :: "char \<Rightarrow> bool" where
  "isdigit c \<longleftrightarrow> (48 :: nat) \<le> of_char c \<and> of_char c \<le> (57 :: nat)"

definition tolower :: "char \<Rightarrow> char" where
  "tolower c = (if 65 \<le> (of_char c :: nat) \<and> (of_char c :: nat) \<le> 90 then char_of (of_char c + 32 :: nat) else c)"

lemma digit_not_space: "isdigit c \<Longrightarrow> \<not> isspace c"
  by (auto simp: isdigit_def isspace_def)

lemma dash_class [simp]: "\<not> isspace (CHR ''-'')" "\<not> isdigit (CHR ''-'')"
  by (simp_all add: isdigit_def isspace_def)

definition put_char :: "string \<Rightarrow> nat \<Rightarrow> char \<Rightarrow> string option" where
  "put_char d i c = (if i < length d then Some (d[i := c]) else None)"

definition get_char :: "string \<Rightarrow> nat \<Rightarrow> char option" where
  "get_char d i = (if i < length d then Some (d ! i) else None)"

definition put_byte :: "bytes \<Rightarrow> nat \<Rightarrow> u8 \<Rightarrow> bytes option" where
  "put_byte d i b = (if i < length d then Some (d[i := b]) else None)"

section \<open>strisnum\<close>

text \<open>The loop over the characters behind the sign: \<open>digits\<close> counts those seen.\<close>

fun strisnum_loop :: "string \<Rightarrow> nat \<Rightarrow> bool" where
  "strisnum_loop [] digits = (digits \<noteq> 0)"
| "strisnum_loop (c # s) digits =
     (if isspace c then dropWhile isspace s = [] \<and> digits \<noteq> 0
      else if \<not> isdigit c then False
      else strisnum_loop s (digits + 1))"

definition strisnum :: "string \<Rightarrow> bool" where
  "strisnum s = (let s = dropWhile isspace s
     in strisnum_loop (case s of [] \<Rightarrow> [] | c # t \<Rightarrow> if c = CHR ''-'' then t else s) 0)"

lemma strisnum_loop_iff:
  "strisnum_loop s n \<longleftrightarrow> (\<exists>ds sp. s = ds @ sp \<and> list_all isdigit ds \<and> list_all isspace sp \<and> (ds \<noteq> [] \<or> n \<noteq> 0))"
proof (induction s arbitrary: n)
  case (Cons c s)
  show ?case
  proof (cases "isspace c")
    case True
    then have "\<not> isdigit c" using digit_not_space by blast
    then have "(\<exists>ds sp. c # s = ds @ sp \<and> list_all isdigit ds \<and> list_all isspace sp \<and> (ds \<noteq> [] \<or> n \<noteq> 0))
        \<longleftrightarrow> list_all isspace s \<and> n \<noteq> 0"
      using True by (auto simp: Cons_eq_append_conv intro: exI [of _ "[]"] exI [of _ "c # s"])
    then show ?thesis using True by (simp add: dropWhile_eq_Nil_conv list_all_iff)
  next
    case no: False
    show ?thesis
    proof (cases "isdigit c")
      case True
      have "(\<exists>ds sp. c # s = ds @ sp \<and> list_all isdigit ds \<and> list_all isspace sp \<and> (ds \<noteq> [] \<or> n \<noteq> 0))
          \<longleftrightarrow> (\<exists>ds sp. s = ds @ sp \<and> list_all isdigit ds \<and> list_all isspace sp)" (is "?l = ?r")
      proof
        assume ?l
        then obtain ds sp where "c # s = ds @ sp" "list_all isdigit ds" "list_all isspace sp" by blast
        with no show ?r by (cases ds) auto
      next
        assume ?r
        then obtain ds sp where "c # s = (c # ds) @ sp" "list_all isdigit (c # ds)" "list_all isspace sp" "c # ds \<noteq> []"
          using True by auto
        then show ?l by blast
      qed
      then show ?thesis using no True Cons.IH [of "n + 1"] by simp
    next
      case False
      then show ?thesis using no by (auto simp: Cons_eq_append_conv)
    qed
  qed
qed simp

lemma strisnum_spec:
  "strisnum s \<longleftrightarrow> (\<exists>sp sign ds tl. s = sp @ sign @ ds @ tl \<and> list_all isspace sp \<and> sign \<in> {'''', ''-''}
     \<and> list_all isdigit ds \<and> ds \<noteq> [] \<and> list_all isspace tl)" (is "_ \<longleftrightarrow> ?R s")
proof
  let ?t = "dropWhile isspace s"
  assume num: "strisnum s"
  have s: "s = takeWhile isspace s @ ?t" by simp
  have sp: "list_all isspace (takeWhile isspace s)" by (auto simp: list_all_iff dest: set_takeWhileD)
  define r where "r = (case ?t of [] \<Rightarrow> [] | c # t \<Rightarrow> if c = CHR ''-'' then t else ?t)"
  have "strisnum_loop r 0" using num by (simp add: strisnum_def r_def Let_def)
  then obtain ds tl where r: "r = ds @ tl" "list_all isdigit ds" "list_all isspace tl" "ds \<noteq> []"
    unfolding strisnum_loop_iff by auto
  have "\<exists>sign. ?t = sign @ r \<and> sign \<in> {'''', ''-''}"
    unfolding r_def by (cases ?t) (simp_all del: dropWhile_eq_Nil_conv)
  then obtain sign where "?t = sign @ r" "sign \<in> {'''', ''-''}" by blast
  with s sp r show "?R s" by (metis append.assoc)
next
  assume "?R s"
  then obtain sp sign ds tl where s: "s = sp @ sign @ ds @ tl" "list_all isspace sp" "sign \<in> {'''', ''-''}"
    "list_all isdigit ds" "ds \<noteq> []" "list_all isspace tl" by blast
  then obtain d ds' where ds: "ds = d # ds'" "isdigit d" by (cases ds) auto
  then have d: "\<not> isspace d" "d \<noteq> CHR ''-''" using digit_not_space by auto
  have "dropWhile isspace s = sign @ ds @ tl"
    using s(1-3) ds(1) d by (auto simp: dropWhile_append list_all_iff)
  moreover have "strisnum_loop (ds @ tl) 0" using s(4-6) unfolding strisnum_loop_iff by blast
  ultimately show "strisnum s" using s(3) ds(1) d by (auto simp: strisnum_def Let_def)
qed

section \<open>strftok\<close>

text \<open>The loop at a position of the string: \<open>rest\<close> are the characters from there on, \<open>i\<close> the index
  of the first of them, \<open>toks\<close> the pointers stored so far.  The result is the rewritten rest
  and all the pointers; storing more than \<open>nptrs\<close> pointers is an access outside of the table.\<close>

fun strftok_loop :: "string \<Rightarrow> nat \<Rightarrow> string \<Rightarrow> nat \<Rightarrow> bool \<Rightarrow> nat list \<Rightarrow> (string \<times> nat list) option" where
  "strftok_loop sep nptrs [] i inside toks = Some ([], toks)"
| "strftok_loop sep nptrs (c # rest) i inside toks =
     (if c \<notin> set sep then
        if \<not> inside then
          if length toks < nptrs
          then map_option (apfst (Cons c)) (strftok_loop sep nptrs rest (Suc i) True (toks @ [i]))
          else None
        else map_option (apfst (Cons c)) (strftok_loop sep nptrs rest (Suc i) True toks)
      else if inside then
        if length toks = nptrs then Some (NUL # rest, toks)
        else map_option (apfst (Cons NUL)) (strftok_loop sep nptrs rest (Suc i) False toks)
      else map_option (apfst (Cons c)) (strftok_loop sep nptrs rest (Suc i) False toks))"

text \<open>The rewritten string, the stored pointers and their number.\<close>

definition strftok :: "string \<Rightarrow> string \<Rightarrow> nat \<Rightarrow> (string \<times> nat list \<times> nat) option" where
  "strftok sep str nptrs = map_option (\<lambda>(s, toks). (s, toks, length toks)) (strftok_loop sep nptrs str 0 False [])"

text \<open>The maximal runs of characters that are no separators.\<close>

function tokens :: "string \<Rightarrow> string \<Rightarrow> string list" where
  "tokens sep [] = []"
| "tokens sep (c # s) =
     (if c \<in> set sep then tokens sep s
      else (c # takeWhile (\<lambda>d. d \<notin> set sep) s) # tokens sep (dropWhile (\<lambda>d. d \<notin> set sep) s))"
  by pat_completeness auto
termination
  by (relation "measure (\<lambda>(sep, s). length s)") (auto simp: less_Suc_eq_le length_dropWhile_le)

lemma cstr_simps [simp]:
  "cstr [] = []" "cstr (NUL # s) = []" "c \<noteq> NUL \<Longrightarrow> cstr (c # s) = c # cstr s"
  by (simp_all add: cstr_def)

text \<open>What the loop stores and leaves behind, from the inside of a token and from the outside.\<close>

lemma strftok_loop_spec:
  assumes "NUL \<notin> set rest" "if inside then length toks \<le> n else length toks < n"
  shows "\<exists>rest' new. strftok_loop sep n rest i inside toks = Some (rest', toks @ new)
    \<and> length rest' = length rest \<and> (\<forall>t \<in> set new. i \<le> t \<and> t < i + length rest) \<and> (inside \<longrightarrow> cstr rest' = takeWhile (\<lambda>d. d \<notin> set sep) rest)
    \<and> map (\<lambda>t. cstr (drop (t - i) rest')) new
        = take (n - length toks) (tokens sep (if inside then dropWhile (\<lambda>d. d \<notin> set sep) rest else rest))"
  using assms
proof (induction rest arbitrary: i inside toks)
  case (Cons c rest)
  have c: "c \<noteq> NUL" "NUL \<notin> set rest" using Cons.prems(1) by auto
  have shift: "map (\<lambda>t. cstr (drop (t - i) (x # r))) new = map (\<lambda>t. cstr (drop (t - Suc i) r)) new"
    if "\<forall>t \<in> set new. Suc i \<le> t \<and> t < Suc i + length rest" for x r new
    using that by (auto simp: drop_Cons')
  consider (start) "c \<notin> set sep" "\<not> inside" | (inner) "c \<notin> set sep" inside
    | (full) "c \<in> set sep" inside "length toks = n" | (stop) "c \<in> set sep" inside "length toks < n"
    | (skip) "c \<in> set sep" "\<not> inside"
    using Cons.prems(2) by fastforce
  then show ?case
  proof cases
    case start
    then have lt: "length toks < n" using Cons.prems(2) by simp
    then have "if True then length (toks @ [i]) \<le> n else length (toks @ [i]) < n" by simp
    from Cons.IH [OF c(2) this, of "Suc i"] obtain r new where
      r: "strftok_loop sep n rest (Suc i) True (toks @ [i]) = Some (r, (toks @ [i]) @ new)" "length r = length rest"
        "\<forall>t \<in> set new. Suc i \<le> t \<and> t < Suc i + length rest" "cstr r = takeWhile (\<lambda>d. d \<notin> set sep) rest"
        "map (\<lambda>t. cstr (drop (t - Suc i) r)) new = take (n - length (toks @ [i])) (tokens sep (dropWhile (\<lambda>d. d \<notin> set sep) rest))"
      by (simp only: if_True simp_thms) blast
    have "take (n - length toks) (tokens sep (c # rest))
        = (c # takeWhile (\<lambda>d. d \<notin> set sep) rest) # map (\<lambda>t. cstr (drop (t - Suc i) r)) new"
      unfolding r(5) using start lt by (simp add: take_Cons' Suc_diff_Suc)
    then have "map (\<lambda>t. cstr (drop (t - i) (c # r))) (i # new) = take (n - length toks) (tokens sep (c # rest))"
      using shift [OF r(3)] r(4) c(1) by simp
    moreover have "strftok_loop sep n (c # rest) i inside toks = Some (c # r, toks @ (i # new))"
      using start lt r(1) by simp
    moreover have "\<forall>t \<in> set (i # new). i \<le> t \<and> t < i + length (c # rest)" using r(3) by auto
    ultimately show ?thesis using r(2) start by (intro exI [of _ "c # r"] exI [of _ "i # new"]) simp
  next
    case inner
    then have "if True then length toks \<le> n else length toks < n" using Cons.prems(2) by simp
    from Cons.IH [OF c(2) this, of "Suc i"] obtain r new where
      r: "strftok_loop sep n rest (Suc i) True toks = Some (r, toks @ new)" "length r = length rest"
        "\<forall>t \<in> set new. Suc i \<le> t \<and> t < Suc i + length rest" "cstr r = takeWhile (\<lambda>d. d \<notin> set sep) rest"
        "map (\<lambda>t. cstr (drop (t - Suc i) r)) new = take (n - length toks) (tokens sep (dropWhile (\<lambda>d. d \<notin> set sep) rest))"
      by (simp only: if_True simp_thms) blast
    have "strftok_loop sep n (c # rest) i inside toks = Some (c # r, toks @ new)" using inner r(1) by simp
    then show ?thesis
      using inner r shift [OF r(3), of c r] c(1) by (intro exI [of _ "c # r"] exI [of _ new]) auto
  next
    case full
    then have "strftok_loop sep n (c # rest) i inside toks = Some (NUL # rest, toks @ [])" by simp
    then show ?thesis using full by (intro exI [of _ "NUL # rest"] exI [of _ "[]"]) simp
  next
    case stop
    then have "if False then length toks \<le> n else length toks < n" by simp
    from Cons.IH [OF c(2) this, of "Suc i"] obtain r new where
      r: "strftok_loop sep n rest (Suc i) False toks = Some (r, toks @ new)" "length r = length rest"
        "\<forall>t \<in> set new. Suc i \<le> t \<and> t < Suc i + length rest"
        "map (\<lambda>t. cstr (drop (t - Suc i) r)) new = take (n - length toks) (tokens sep rest)"
      by (simp only: if_False simp_thms) blast
    have "strftok_loop sep n (c # rest) i inside toks = Some (NUL # r, toks @ new)" using stop r(1) by simp
    then show ?thesis
      using stop r shift [OF r(3), of NUL r] by (intro exI [of _ "NUL # r"] exI [of _ new]) auto
  next
    case skip
    then have "if False then length toks \<le> n else length toks < n" using Cons.prems(2) by simp
    from Cons.IH [OF c(2) this, of "Suc i"] obtain r new where
      r: "strftok_loop sep n rest (Suc i) False toks = Some (r, toks @ new)" "length r = length rest"
        "\<forall>t \<in> set new. Suc i \<le> t \<and> t < Suc i + length rest"
        "map (\<lambda>t. cstr (drop (t - Suc i) r)) new = take (n - length toks) (tokens sep rest)"
      by (simp only: if_False simp_thms) blast
    have "strftok_loop sep n (c # rest) i inside toks = Some (c # r, toks @ new)" using skip r(1) by simp
    then show ?thesis
      using skip r shift [OF r(3), of c r] by (intro exI [of _ "c # r"] exI [of _ new]) auto
  qed
qed (auto simp: cstr_def)

section \<open>Hexadecimal\<close>

text \<open>The table of hex.c, by rows of equal entries.\<close>

definition hval :: "nat list" where
  "hval = replicate 48 255 @ [0, 1, 2, 3, 4, 5, 6, 7, 8, 9] @ replicate 7 255 @ [10, 11, 12, 13, 14, 15]
     @ replicate 26 255 @ [10, 11, 12, 13, 14, 15] @ replicate 153 255"

definition hcharset :: string where "hcharset = ''0123456789abcdef''"

text \<open>One round of the loop reads two characters and writes one byte at \<open>i\<close>; \<open>n\<close> rounds are left.
  The result is the return value and the buffer.\<close>

fun hextobin_loop :: "nat \<Rightarrow> bytes \<Rightarrow> string \<Rightarrow> nat \<Rightarrow> (nat \<times> bytes) option" where
  "hextobin_loop 0 dest s i = Some (0, dest)"
| "hextobin_loop (Suc n) dest s i = do {
     c \<leftarrow> get_char s (2 * i);
     d \<leftarrow> get_char s (2 * i + 1);
     let high = hval ! of_char c; low = hval ! of_char d
     in if high = 255 \<or> low = 255 then Some (1, dest)
        else do {
          dest \<leftarrow> put_byte dest i (push_bit 4 (word_of_nat high) OR word_of_nat low);
          hextobin_loop n dest s (Suc i)
        }
   }"

definition hextobin :: "bytes \<Rightarrow> string \<Rightarrow> int \<Rightarrow> (nat \<times> bytes) option" where
  "hextobin dest hexstr len =
     (let len = (if len = -1 then int (length hexstr) else len)
      in if len mod 2 \<noteq> 0 then Some (1, dest) else hextobin_loop (nat (len div 2)) dest hexstr 0)"

text \<open>The loop writes two characters for each byte from \<open>j\<close> on.\<close>

fun bintohex_loop :: "string \<Rightarrow> nat \<Rightarrow> bytes \<Rightarrow> string option" where
  "bintohex_loop dest j [] = Some dest"
| "bintohex_loop dest j (b # bs) = do {
     dest \<leftarrow> put_char dest j (hcharset ! unat (drop_bit 4 (b AND 0xF0)));
     dest \<leftarrow> put_char dest (j + 1) (hcharset ! unat (b AND 0xF));
     bintohex_loop dest (j + 2) bs
   }"

definition bintohex :: "string \<Rightarrow> bytes \<Rightarrow> string option" where
  "bintohex dest bin = bintohex_loop dest 0 bin"

text \<open>What the two functions compute, on lists.\<close>

definition hex_of :: "u8 \<Rightarrow> string" where
  "hex_of b = [hcharset ! (unat b div 16), hcharset ! (unat b mod 16)]"

fun unhex :: "string \<Rightarrow> bytes option" where
  "unhex [] = Some []"
| "unhex [c] = None"
| "unhex (c # d # s) =
     (let high = hval ! of_char c; low = hval ! of_char d
      in if high = 255 \<or> low = 255 then None
         else map_option (Cons (word_of_nat (16 * high + low))) (unhex s))"

lemma hval_range:
  assumes "n < 256"
  shows "hval ! n < 16 \<or> hval ! n = 255"
proof -
  have "length hval = 256" by (simp add: hval_def)
  then have "hval ! n \<in> set hval" using assms by simp
  then show ?thesis by (simp add: hval_def) (elim disjE; simp)
qed

lemma hval_hcharset:
  assumes "n < 16"
  shows "hval ! of_char (hcharset ! n) = n"
proof -
  have "n \<in> set [0, 1, 2, 3, 4, 5, 6, 7, 8, 9, 10, 11, 12, 13, 14, 15]" using assms by simp arith
  then show ?thesis by (simp add: hval_def hcharset_def nth_append) (elim disjE; simp add: nth_append nth_Cons')
qed

lemma of_char_nat_less [simp]: "(of_char c :: nat) < 256"
  by (cases c) (auto simp: horner_sum_simps)

lemma hex_byte:
  assumes "h < 16" "l < 16"
  shows "push_bit 4 (word_of_nat h) OR word_of_nat l = (word_of_nat (16 * h + l) :: u8)"
proof -
  have "\<not> bit (push_bit 4 h) n \<or> \<not> bit l n" for n
  proof (cases "n < 4")
    case False
    then have "(2 :: nat) ^ 4 \<le> 2 ^ n" by (intro power_increasing) auto
    then have "l div 2 ^ n = 0" using assms(2) by simp
    then show ?thesis by (simp add: bit_nat_def)
  qed (simp add: bit_push_bit_iff)
  then have "push_bit 4 h OR l = push_bit 4 h + l" by (simp add: disjunctive_add)
  then have "word_of_nat (push_bit 4 h OR l) = (word_of_nat (16 * h + l) :: u8)" by (simp add: push_bit_eq_mult)
  then show ?thesis by (simp add: of_nat_or_eq of_nat_push_bit)
qed
lemma byte_split: "word_of_nat (16 * (unat b div 16) + unat b mod 16) = (b :: u8)"
  by (simp add: mult_div_mod_eq)

lemma unhex_hex_of: "unhex (concat (map hex_of bs)) = Some bs"
proof (induction bs)
  case (Cons b bs)
  have "unat b div 16 < 16" using unat8_less [of b] by linarith
  then show ?case using Cons.IH
    by (simp add: hex_of_def hval_hcharset Let_def byte_split)
qed simp

lemma length_hex [simp]: "length (concat (map hex_of bs)) = 2 * length bs"
  by (induction bs) (simp_all add: hex_of_def)

text \<open>\<open>bintohex\<close> writes the two digits of each byte and nothing else.\<close>

lemma bintohex_loop_eq:
  "j + 2 * length bs \<le> length dest \<Longrightarrow>
    bintohex_loop dest j bs = Some (take j dest @ concat (map hex_of bs) @ drop (j + 2 * length bs) dest)"
proof (induction bs arbitrary: dest j)
  case (Cons b bs)
  have len: "j < length dest" "Suc j < length dest" using Cons.prems by auto
  let ?d = "dest[j := hcharset ! (unat b div 16), Suc j := hcharset ! (unat b mod 16)]"
  have "bintohex_loop dest j (b # bs) = bintohex_loop ?d (j + 2) bs"
    unfolding bintohex_loop.simps high_nibble_unat and_0xf_unat using len by (simp add: put_char_def)
  also have "\<dots> = Some (take (j + 2) ?d @ concat (map hex_of bs) @ drop (j + 2 + 2 * length bs) ?d)"
    using Cons.prems by (intro Cons.IH) simp
  also have "take (j + 2) ?d = take j dest @ hex_of b"
    using len by (simp add: hex_of_def take_Suc_conv_app_nth list_update_append take_update_swap)
  finally show ?case by (simp add: drop_update_cancel)
qed simp

text \<open>\<open>hextobin\<close> fails exactly when a character is no digit.\<close>

lemma hextobin_loop_eq:
  assumes "2 * i + 2 * n \<le> length s" "i + n \<le> length dest"
  shows "case unhex (take (2 * n) (drop (2 * i) s)) of
      Some bs \<Rightarrow> length bs = n \<and> hextobin_loop n dest s i = Some (0, take i dest @ bs @ drop (i + n) dest)
    | None \<Rightarrow> \<exists>d. hextobin_loop n dest s i = Some (1, d) \<and> length d = length dest"
  using assms
proof (induction n arbitrary: i dest)
  case (Suc n)
  let ?c = "s ! (2 * i)" and ?d = "s ! Suc (2 * i)"
  let ?h = "hval ! of_char ?c" and ?l = "hval ! of_char ?d"
  have len: "2 * i < length s" "Suc (2 * i) < length s" "i < length dest" using Suc.prems by auto
  have eq: "take (2 * Suc n) (drop (2 * i) s) = ?c # ?d # take (2 * n) (drop (2 * Suc i) s)"
    using len by (simp add: Cons_nth_drop_Suc [symmetric] numeral_2_eq_2)
  show ?case
  proof (cases "?h = 255 \<or> ?l = 255")
    case True
    then have "hextobin_loop (Suc n) dest s i = Some (1, dest)" using len by (simp add: get_char_def Let_def)
    then show ?thesis unfolding eq using True by simp
  next
    case False
    then have nib: "?h < 16" "?l < 16" using hval_range by (metis of_char_nat_less)+
    let ?b = "word_of_nat (16 * ?h + ?l) :: u8"
    let ?dest = "dest[i := ?b]"
    have step: "hextobin_loop (Suc n) dest s i = hextobin_loop n ?dest s (Suc i)"
      using False len nib by (simp add: get_char_def put_byte_def Let_def hex_byte)
    have un: "unhex (take (2 * Suc n) (drop (2 * i) s)) = map_option (Cons ?b) (unhex (take (2 * n) (drop (2 * Suc i) s)))"
      unfolding eq using False by (simp add: Let_def)
    have "2 * Suc i + 2 * n \<le> length s" "Suc i + n \<le> length ?dest" using Suc.prems by auto
    note IH = Suc.IH [OF this]
    show ?thesis
    proof (cases "unhex (take (2 * n) (drop (2 * Suc i) s))")
      case None
      then show ?thesis using IH unfolding un step by simp
    next
      case (Some bs)
      then have "length bs = n" "hextobin_loop n ?dest s (Suc i) = Some (0, take (Suc i) ?dest @ bs @ drop (Suc i + n) ?dest)"
        using IH by simp_all
      moreover have "take (Suc i) ?dest = take i dest @ [?b]" using len by (simp add: take_Suc_conv_app_nth)
      ultimately show ?thesis unfolding un step Some by simp
    qed
  qed
qed simp

lemma hextobin_eq:
  assumes "length s = 2 * n" "n \<le> length dest"
  shows "case unhex s of
      Some bs \<Rightarrow> length bs = n \<and> hextobin dest s (-1) = Some (0, bs @ drop n dest)
    | None \<Rightarrow> \<exists>d. hextobin dest s (-1) = Some (1, d) \<and> length d = length dest"
  using hextobin_loop_eq [of 0 n s dest] assms by (simp add: hextobin_def Let_def split: option.splits)

lemma hextobin_odd:
  assumes "odd (length s)"
  shows "hextobin dest s (-1) = Some (1, dest)"
proof -
  have "int (length s) mod 2 \<noteq> 0" using assms by presburger
  then show ?thesis by (simp add: hextobin_def Let_def)
qed

section \<open>memstr\<close>

text \<open>\<open>memcmp\<close> of \<open>n\<close> bytes from \<open>i\<close> on with the needle; the loop starts at \<open>i\<close> and \<open>k\<close> further
  positions remain.\<close>

definition cmp_at :: "string \<Rightarrow> nat \<Rightarrow> string \<Rightarrow> bool option" where
  "cmp_at hay i needle = (if i + length needle \<le> length hay then Some (take (length needle) (drop i hay) = needle) else None)"

fun memstr_loop :: "string \<Rightarrow> string \<Rightarrow> nat \<Rightarrow> nat \<Rightarrow> nat option option" where
  "memstr_loop hay needle i 0 = Some None"
| "memstr_loop hay needle i (Suc k) = do {
     eq \<leftarrow> cmp_at hay i needle;
     if eq then Some (Some i) else memstr_loop hay needle (Suc i) k
   }"

text \<open>The offset of the match, or \<open>Some None\<close> for \<open>NULL\<close>.\<close>

definition memstr :: "string \<Rightarrow> string \<Rightarrow> int \<Rightarrow> nat option option" where
  "memstr hay needle sz =
     (if sz < 0 then Some None
      else let hsize = nat sz in
        if length needle > hsize then Some None
        else memstr_loop hay needle 0 (hsize - length needle + 1))"

definition occurs_at :: "string \<Rightarrow> string \<Rightarrow> nat \<Rightarrow> bool" where
  "occurs_at hay needle i \<longleftrightarrow> take (length needle) (drop i hay) = needle"

lemma memstr_loop_spec:
  "i + k + length needle \<le> length hay + 1 \<Longrightarrow>
    (\<exists>j. memstr_loop hay needle i k = Some (Some j) \<and> i \<le> j \<and> j < i + k \<and> occurs_at hay needle j \<and> (\<forall>m. i \<le> m \<and> m < j \<longrightarrow> \<not> occurs_at hay needle m))
    \<or> (memstr_loop hay needle i k = Some None \<and> (\<forall>m. i \<le> m \<and> m < i + k \<longrightarrow> \<not> occurs_at hay needle m))"
proof (induction k arbitrary: i)
  case (Suc k)
  then have cmp: "cmp_at hay i needle = Some (occurs_at hay needle i)" by (simp add: cmp_at_def occurs_at_def)
  show ?case
  proof (cases "occurs_at hay needle i")
    case True
    then show ?thesis using cmp by auto
  next
    case False
    then have eq: "memstr_loop hay needle i (Suc k) = memstr_loop hay needle (Suc i) k" using cmp by simp
    have *: "i \<le> m \<longleftrightarrow> m = i \<or> Suc i \<le> m" for m by auto
    have "Suc i + k + length needle \<le> length hay + 1" using Suc.prems by simp
    from Suc.IH [OF this] show ?thesis
    proof (elim disjE exE conjE)
      fix j assume "memstr_loop hay needle (Suc i) k = Some (Some j)" "Suc i \<le> j" "j < Suc i + k" "occurs_at hay needle j"
        "\<forall>m. Suc i \<le> m \<and> m < j \<longrightarrow> \<not> occurs_at hay needle m"
      then show ?thesis using False unfolding eq by (intro disjI1 exI [of _ j]) (auto simp: *)
    next
      assume "memstr_loop hay needle (Suc i) k = Some None" "\<forall>m. Suc i \<le> m \<and> m < Suc i + k \<longrightarrow> \<not> occurs_at hay needle m"
      then show ?thesis using False unfolding eq by (intro disjI2) (auto simp: *)
    qed
  qed
qed auto

section \<open>strlcpy\<close>

text \<open>The copying loop: \<open>n\<close> bytes of room are left (not counting the last), \<open>i\<close> is the position in
  both strings.  The result is the buffer, the position and the room left when it stops; the
  position is behind the NUL when the whole string fitted.\<close>

fun strlcpy_loop :: "nat \<Rightarrow> string \<Rightarrow> string \<Rightarrow> nat \<Rightarrow> (string \<times> nat \<times> nat) option" where
  "strlcpy_loop 0 dst src i = Some (dst, i, 0)"
| "strlcpy_loop (Suc n) dst src i =
     (let c = (if i < length src then src ! i else NUL) in do {
        dst \<leftarrow> put_char dst i c;
        if c = NUL then Some (dst, Suc i, Suc n) else strlcpy_loop n dst src (Suc i)
      })"

text \<open>The return value and the buffer.  When there was no room, the rest of the source is only
  walked over: \<open>s - src - 1\<close> is its length either way.\<close>

definition strlcpy :: "string \<Rightarrow> string \<Rightarrow> nat \<Rightarrow> (nat \<times> string) option" where
  "strlcpy dst src siz = do {
     (dst, i, n) \<leftarrow> strlcpy_loop (siz - 1) dst src 0;
     if n = 0 then do {
       dst \<leftarrow> (if siz \<noteq> 0 then put_char dst i NUL else Some dst);
       Some (length src, dst)
     }
     else Some (i - 1, dst)
   }"

lemma strlcpy_loop_eq:
  assumes "NUL \<notin> set src" "i \<le> length src" "i + n \<le> length dst"
  shows "strlcpy_loop n dst src i =
    (if length src < i + n then Some (take i dst @ drop i src @ [NUL] @ drop (Suc (length src)) dst, Suc (length src), n - (length src - i))
     else Some (take i dst @ take n (drop i src) @ drop (i + n) dst, i + n, 0))"
  using assms
proof (induction n arbitrary: dst i)
  case (Suc n)
  show ?case
  proof (cases "i < length src")
    case True
    then have c: "src ! i \<noteq> NUL" using Suc.prems(1) nth_mem by metis
    let ?d = "dst[i := src ! i]"
    have "strlcpy_loop (Suc n) dst src i = strlcpy_loop n ?d src (Suc i)"
      using True c Suc.prems by (simp add: put_char_def Let_def)
    also have "\<dots> = (if length src < Suc i + n then Some (take (Suc i) ?d @ drop (Suc i) src @ [NUL] @ drop (Suc (length src)) ?d, Suc (length src), n - (length src - Suc i))
       else Some (take (Suc i) ?d @ take n (drop (Suc i) src) @ drop (Suc i + n) ?d, Suc i + n, 0))"
      using True Suc.prems by (intro Suc.IH) auto
    also have "take (Suc i) ?d = take i dst @ [src ! i]" using Suc.prems by (simp add: take_Suc_conv_app_nth)
    finally show ?thesis using True by (auto simp: Cons_nth_drop_Suc [symmetric])
  next
    case False
    then have i: "i = length src" using Suc.prems by simp
    then show ?thesis using Suc.prems
      by (simp add: put_char_def Let_def upd_conv_take_nth_drop)
  qed
qed simp

lemma strlcpy_eq:
  assumes "NUL \<notin> set src" "siz \<le> length dst"
  shows "strlcpy dst src siz = Some (length src,
    if siz = 0 then dst else take (siz - 1) src @ [NUL] @ drop (Suc (min (siz - 1) (length src))) dst)"
proof (cases siz)
  case (Suc n)
  show ?thesis
  proof (cases "length src < n")
    case True
    then show ?thesis using strlcpy_loop_eq [of src 0 n dst] assms Suc by (simp add: strlcpy_def)
  next
    case False
    then have "strlcpy_loop n dst src 0 = Some (take n src @ drop n dst, n, 0)"
      using strlcpy_loop_eq [of src 0 n dst] assms Suc by simp
    moreover have "(take n src @ drop n dst)[n := NUL] = take n src @ NUL # drop (Suc n) dst"
      using False assms Suc by (simp add: list_update_append upd_conv_take_nth_drop)
    ultimately show ?thesis using False assms Suc by (simp add: strlcpy_def put_char_def)
  qed
qed (simp add: strlcpy_def)

lemma memstr_spec:
  assumes "sz < 0 \<or> nat sz \<le> length hay"
  shows "case memstr hay needle sz of
      None \<Rightarrow> False
    | Some None \<Rightarrow> sz < 0 \<or> (\<forall>m. m + length needle \<le> nat sz \<longrightarrow> \<not> occurs_at hay needle m)
    | Some (Some j) \<Rightarrow> j + length needle \<le> nat sz \<and> occurs_at hay needle j \<and> (\<forall>m < j. \<not> occurs_at hay needle m)"
proof -
  consider (neg) "sz < 0" | (short) "0 \<le> sz" "nat sz < length needle" | (run) "0 \<le> sz" "length needle \<le> nat sz" by linarith
  then show ?thesis
  proof cases
    case run
    let ?k = "nat sz - length needle + 1"
    have "memstr hay needle sz = memstr_loop hay needle 0 ?k" using run by (simp add: memstr_def Let_def)
    moreover have "0 + ?k + length needle \<le> length hay + 1" using run assms by auto
    from memstr_loop_spec [OF this] have "case memstr_loop hay needle 0 ?k of None \<Rightarrow> False
        | Some None \<Rightarrow> \<forall>m < ?k. \<not> occurs_at hay needle m
        | Some (Some j) \<Rightarrow> j < ?k \<and> occurs_at hay needle j \<and> (\<forall>m < j. \<not> occurs_at hay needle m)" by auto
    ultimately show ?thesis using run by (auto split: option.splits)
  qed (simp_all add: memstr_def Let_def)
qed

section \<open>Properties\<close>

text \<open>C36. Hexadecimal round trip: \<open>bintohex\<close> writes two digits for each byte, stays inside of a
  buffer with room for them, and \<open>hextobin\<close> turns the digits back into the same bytes without
  touching what is behind them.\<close>

theorem hex_round_trip:
  assumes "2 * length bin \<le> length hex" "length bin \<le> length dest"
  shows "\<exists>s. bintohex hex bin = Some s \<and> drop (2 * length bin) s = drop (2 * length bin) hex
    \<and> hextobin dest (take (2 * length bin) s) (-1) = Some (0, bin @ drop (length bin) dest)"
proof -
  have "bintohex hex bin = Some (concat (map hex_of bin) @ drop (2 * length bin) hex)"
    using bintohex_loop_eq [of 0 bin hex] assms(1) by (simp add: bintohex_def)
  moreover have "hextobin dest (concat (map hex_of bin)) (-1) = Some (0, bin @ drop (length bin) dest)"
    using hextobin_eq [of "concat (map hex_of bin)" "length bin" dest] assms(2) by (simp add: unhex_hex_of)
  ultimately show ?thesis by simp
qed

theorem hex_round_trip_witness:
  "\<exists>s. bintohex (replicate 6 NUL) [0x0a, 0xff] = Some s \<and> drop 4 s = replicate 2 NUL
    \<and> hextobin [7, 7, 7] (take 4 s) (-1) = Some (0, [0x0a, 0xff, 7])"
  using hex_round_trip [of "[0x0a, 0xff]" "replicate 6 NUL" "[7, 7, 7]"] by simp

text \<open>\<open>strftok\<close> with a table of at least one pointer never writes behind it; it returns the
  first \<open>nptrs\<close> maximal runs of characters that are no separators, each of them
  NUL-terminated in the rewritten string at the position stored for it.\<close>

theorem strftok_tokens:
  assumes "0 < nptrs" "NUL \<notin> set str"
  shows "\<exists>s toks. strftok sep str nptrs = Some (s, toks, length toks) \<and> length toks \<le> nptrs
    \<and> length s = length str \<and> (\<forall>t \<in> set toks. t < length s)
    \<and> map (\<lambda>t. cstr (drop t s)) toks = take nptrs (tokens sep str)"
proof -
  obtain s toks where r: "strftok_loop sep nptrs str 0 False [] = Some (s, toks)" "length s = length str"
    "\<forall>t \<in> set toks. t < length str" "map (\<lambda>t. cstr (drop t s)) toks = take nptrs (tokens sep str)"
    using strftok_loop_spec [of str False "[]" nptrs sep 0] assms by auto
  have "length toks = length (take nptrs (tokens sep str))" using arg_cong [OF r(4), of length] by simp
  then show ?thesis using r by (simp add: strftok_def)
qed

theorem strftok_tokens_witness:
  "NUL \<notin> set ''a,,bc d'' \<and> (\<exists>s toks. strftok '', '' ''a,,bc d'' 2 = Some (s, toks, length toks) \<and> length toks \<le> 2
    \<and> map (\<lambda>t. cstr (drop t s)) toks = [''a'', ''bc''])"
proof -
  have "take 2 (tokens '', '' ''a,,bc d'') = [''a'', ''bc'']" by code_simp
  then show ?thesis using strftok_tokens [of 2 "''a,,bc d''" "'', ''"] by auto
qed

end
