(* ===== verification/Rc4.thy ===== *)
theory Rc4
  imports Prelude "HOL-Library.Multiset"
begin

text \<open>
  The RC4-like generators of random.c (\<open>hp_rand\<close>) and sbignum.c (\<open>sbn_rand\<close>), which are the
  same code over their own static variables.  The state is the sbox, the two indices and the
  flag that says whether the sbox was seeded.  What the system delivers while seeding (the bytes
  read from /dev/urandom and the time of day at each step) is an argument.
\<close>

record rc4 =
  rc4_sbox :: bytes
  rc4_i :: u32
  rc4_j :: u32
  rc4_seedflag :: bool

definition rc4_static :: rc4 where
  "rc4_static = \<lparr>rc4_sbox = replicate 256 0, rc4_i = 0, rc4_j = 0, rc4_seedflag = False\<rparr>"

text \<open>\<open>urandom\<close> are the bytes that were read (256 at most), \<open>tv i\<close> are \<open>tv_sec\<close> and \<open>tv_usec\<close>
  in round \<open>i\<close>.\<close>

record seeding =
  urandom :: bytes
  tv :: "nat \<Rightarrow> nat \<times> nat"

definition hp_rand_init :: "seeding \<Rightarrow> rc4 \<Rightarrow> rc4" where
  "hp_rand_init e r =
     (let sbox = take 256 (urandom e) @ drop (length (take 256 (urandom e))) (rc4_sbox r)
      in r\<lparr>rc4_sbox := map (\<lambda>i. sbox ! i XOR
              word_of_nat (drop_bit (i mod 16) (if odd i then snd (tv e i) else fst (tv e i)))) [0..<256],
            rc4_seedflag := True\<rparr>)"

text \<open>One round of the output loop: the next byte.\<close>

definition rc4_byte :: "rc4 \<Rightarrow> (u8 \<times> rc4) option" where
  "rc4_byte r = (let i = (rc4_i r + 1) AND 0xff in do {
     si \<leftarrow> ld8 (rc4_sbox r) (unat i);
     let j = (rc4_j r + ucast si) AND 0xff in do {
       sj \<leftarrow> ld8 (rc4_sbox r) (unat j);
       sbox \<leftarrow> st8 (rc4_sbox r) (unat i) sj;
       sbox \<leftarrow> st8 sbox (unat j) si;
       out \<leftarrow> ld8 sbox (unat ((ucast si + ucast sj :: u32) AND 0xff));
       Some (out, r\<lparr>rc4_sbox := sbox, rc4_i := i, rc4_j := j\<rparr>)
     }
   })"

definition hp_rand :: "seeding \<Rightarrow> rc4 \<Rightarrow> (u32 \<times> rc4) option" where
  "hp_rand e r = do {
     let r = (if rc4_seedflag r then r else hp_rand_init e r);
     (a, r) \<leftarrow> rc4_byte r;
     (b, r) \<leftarrow> rc4_byte r;
     (c, r) \<leftarrow> rc4_byte r;
     (d, r) \<leftarrow> rc4_byte r;
     Some (le32 a b c d, r)
   }"

section \<open>The sbox\<close>

definition rc4_ok :: "rc4 \<Rightarrow> bool" where
  "rc4_ok r \<longleftrightarrow> length (rc4_sbox r) = 256"

lemma rc4_static_ok: "rc4_ok rc4_static"
  by (simp add: rc4_ok_def rc4_static_def)

lemma rand_init_ok: "rc4_ok (hp_rand_init e r)"
  by (simp add: rc4_ok_def hp_rand_init_def Let_def)

lemma unat_and_ff: "unat (w AND 0xff :: u32) = unat w mod 256"
proof -
  have "(0xff :: u32) = mask 8" by (simp add: mask_eq_exp_minus_1)
  then have "w AND 0xff = take_bit 8 w" by (simp only: take_bit_eq_mask)
  then have "unat (w AND 0xff) = take_bit 8 (unat w)" by (simp only: unsigned_take_bit_eq)
  then show ?thesis by (simp add: take_bit_eq_mod)
qed

lemma st8_update: "i < length d \<Longrightarrow> st8 d i b = Some (d[i := b])"
  by (simp add: st8_def st_def upd_conv_take_nth_drop)

text \<open>One round of the generator on lists of numbers, as RC4 is usually stated: advance \<open>i\<close>, add
  the entry to \<open>j\<close>, swap the two entries, output the entry at their sum.\<close>

definition prga :: "bytes \<times> nat \<times> nat \<Rightarrow> u8 \<times> bytes \<times> nat \<times> nat" where
  "prga = (\<lambda>(s, i, j).
     let i' = (i + 1) mod 256; j' = (j + unat (s ! i')) mod 256; s' = s[i' := s ! j', j' := s ! i']
     in (s' ! ((unat (s ! i') + unat (s ! j')) mod 256), s', i', j'))"

definition rc4_view :: "rc4 \<Rightarrow> bytes \<times> nat \<times> nat" where
  "rc4_view r = (rc4_sbox r, unat (rc4_i r), unat (rc4_j r))"

lemma rc4_byte_prga:
  assumes "rc4_ok r"
  shows "\<exists>b r'. rc4_byte r = Some (b, r') \<and> rc4_ok r' \<and> rc4_seedflag r' = rc4_seedflag r \<and> prga (rc4_view r) = (b, rc4_view r')"
proof -
  let ?s = "rc4_sbox r" and ?i = "(rc4_i r + 1) AND 0xff"
  have len: "length ?s = 256" using assms by (simp add: rc4_ok_def)
  have i: "unat ?i = (unat (rc4_i r) + 1) mod 256"
    by (simp add: unat_and_ff unat_word_ariths mod_mod_cancel)
  let ?si = "?s ! unat ?i" and ?j = "(rc4_j r + ucast (?s ! unat ?i)) AND 0xff"
  have u: "unat (ucast b :: u32) = unat (b :: u8)" for b
    using unat8_less [of b] by (simp add: unat_ucast_mod del: unat8_less)
  have j: "unat ?j = (unat (rc4_j r) + unat ?si) mod 256"
    by (simp add: unat_and_ff unat_word_ariths mod_mod_cancel u)
  have b: "unat ?i < 256" "unat ?j < 256" by (simp_all add: unat_and_ff)
  let ?sj = "?s ! unat ?j"
  have k: "unat ((ucast ?si + ucast ?sj :: u32) AND 0xff) = (unat ?si + unat ?sj) mod 256"
    by (simp add: unat_and_ff unat_word_ariths mod_mod_cancel u)
  then have kb: "unat ((ucast ?si + ucast ?sj :: u32) AND 0xff) < 256" by simp
  let ?s' = "?s[unat ?i := ?sj, unat ?j := ?si]"
  have run: "rc4_byte r = Some (?s' ! unat ((ucast ?si + ucast ?sj :: u32) AND 0xff), r\<lparr>rc4_sbox := ?s', rc4_i := ?i, rc4_j := ?j\<rparr>)"
    using b kb by (simp add: rc4_byte_def Let_def ld8_defined st8_update len)
  let ?r' = "r\<lparr>rc4_sbox := ?s', rc4_i := ?i, rc4_j := ?j\<rparr>"
  have "prga (rc4_view r) = (?s' ! unat ((ucast ?si + ucast ?sj :: u32) AND 0xff), rc4_view ?r')"
    by (simp only: prga_def rc4_view_def prod.case Let_def i [symmetric] j [symmetric] k) simp
  moreover have "rc4_ok ?r'" using len by (simp add: rc4_ok_def)
  ultimately show ?thesis unfolding run by simp
qed

text \<open>A round swaps two entries.\<close>

lemma prga_mset:
  assumes "length s = 256" "prga (s, i, j) = (b, s', i', j')"
  shows "mset s' = mset s" "length s' = 256" "i' = (i + 1) mod 256" "b \<in> set s"
proof -
  let ?i = "(i + 1) mod 256" and ?j = "(j + unat (s ! ((i + 1) mod 256))) mod 256"
  have b: "?i < length s" "?j < length s" using assms(1) by simp_all
  have s': "s' = s[?i := s ! ?j, ?j := s ! ?i]" "i' = ?i" and
    out: "b = s' ! ((unat (s ! ?i) + unat (s ! ?j)) mod 256)"
    using assms(2) by (auto simp: prga_def Let_def)
  show m: "mset s' = mset s" unfolding s' using b by (simp add: mset_swap)
  show "length s' = 256" "i' = ?i" using s' assms(1) by simp_all
  then have "b \<in> set s'" unfolding out by simp
  then show "b \<in> set s" using m by (metis mset_eq_setD)
qed

text \<open>\<open>n\<close> rounds.\<close>

fun prga_run :: "nat \<Rightarrow> bytes \<times> nat \<times> nat \<Rightarrow> bytes \<times> (bytes \<times> nat \<times> nat)" where
  "prga_run 0 v = ([], v)"
| "prga_run (Suc n) v = (case prga v of (b, v') \<Rightarrow> case prga_run n v' of (bs, v'') \<Rightarrow> (b # bs, v''))"

lemma prga_run_mset:
  "length s = 256 \<Longrightarrow> prga_run n (s, i, j) = (bs, s', i', j') \<Longrightarrow>
    mset s' = mset s \<and> length s' = 256 \<and> length bs = n \<and> i' mod 256 = (i + n) mod 256 \<and> set bs \<subseteq> set s"
proof (induction n arbitrary: s i j bs)
  case (Suc n)
  obtain b t i1 j1 where p: "prga (s, i, j) = (b, t, i1, j1)" by (metis prod_cases4)
  obtain cs where run: "prga_run n (t, i1, j1) = (cs, s', i', j')" "bs = b # cs"
    using Suc.prems(2) p by (auto split: prod.splits)
  note t = prga_mset [OF Suc.prems(1) p]
  have "set t = set s" using t(1) by (metis mset_eq_setD)
  then show ?case using Suc.IH [OF t(2) run(1)] t run(2) by (auto simp: mod_simps)
qed simp

lemma hp_rand_run:
  assumes "rc4_ok r"
  shows "\<exists>w r'. hp_rand e r = Some (w, r') \<and> rc4_ok r' \<and> rc4_seedflag r'
    \<and> prga_run 4 (rc4_view (if rc4_seedflag r then r else hp_rand_init e r)) = (bytes32 w, rc4_view r')"
proof -
  let ?r = "if rc4_seedflag r then r else hp_rand_init e r"
  have ok: "rc4_ok ?r" "rc4_seedflag ?r" using assms rand_init_ok by (auto simp: hp_rand_init_def Let_def)
  obtain a r1 where 1: "rc4_byte ?r = Some (a, r1)" "rc4_ok r1" "rc4_seedflag r1" "prga (rc4_view ?r) = (a, rc4_view r1)"
    using rc4_byte_prga [OF ok(1)] ok(2) by auto
  obtain b r2 where 2: "rc4_byte r1 = Some (b, r2)" "rc4_ok r2" "rc4_seedflag r2" "prga (rc4_view r1) = (b, rc4_view r2)"
    using rc4_byte_prga [OF 1(2)] 1(3) by auto
  obtain c r3 where 3: "rc4_byte r2 = Some (c, r3)" "rc4_ok r3" "rc4_seedflag r3" "prga (rc4_view r2) = (c, rc4_view r3)"
    using rc4_byte_prga [OF 2(2)] 2(3) by auto
  obtain d r4 where 4: "rc4_byte r3 = Some (d, r4)" "rc4_ok r4" "rc4_seedflag r4" "prga (rc4_view r3) = (d, rc4_view r4)"
    using rc4_byte_prga [OF 3(2)] 3(3) by auto
  have "hp_rand e r = Some (le32 a b c d, r4)"
    unfolding hp_rand_def Let_def using 1(1) 2(1) 3(1) 4(1) by simp
  moreover have "prga_run 4 (rc4_view ?r) = ([a, b, c, d], rc4_view r4)"
    by (simp add: eval_nat_numeral 1(4) 2(4) 3(4) 4(4))
  ultimately show ?thesis using 4(2,3) by (simp add: bytes32_le32)
qed

section \<open>Properties\<close>



end
