(* ===== verification/Tool.thy ===== *)
theory Tool
  imports Complex_Main Rc4 Strings
begin

text \<open>
  The state of the command line tool: \<open>struct hping_config\<close>, \<open>struct hping_context\<close>,
  \<open>struct hping_stats\<close> (globals.h, globals.c), the clocks and the random source (clock.c), the
  delay table (rtt.c), the counters (statistics.c) and the id sequence of --rel (relid.c).

  The configuration has all the fields of the code; the context leaves out the sockets and the
  capture handle.  \<open>int\<close> fields are integers (the code does not
  guard against overflow of a signed integer, which C leaves undefined), \<open>unsigned int\<close> and
  smaller fields are words.  An address is the word as it is in memory (network order).  Static
  variables of a function are fields of \<open>tool\<close>, which also holds the environment: what the
  system clocks, the random device and \<open>sendto\<close> deliver at each call.  \<open>float\<close> and \<open>double\<close>
  values are rational numbers; their rounding is not modelled.
\<close>

section \<open>State\<close>

abbreviation (input) TABLESIZE :: nat where "TABLESIZE \<equiv> 400"
abbreviation (input) S_SENT :: int where "S_SENT \<equiv> 0"
abbreviation (input) S_RECV :: int where "S_RECV \<equiv> 1"
abbreviation (input) S_UNKNOWN :: int where "S_UNKNOWN \<equiv> -1"

datatype stop_reason = HPING_STOP_NONE | HPING_STOP_SIGNAL | HPING_STOP_COUNT | HPING_STOP_SENT
  | HPING_STOP_TRACEROUTE | HPING_STOP_EOF | HPING_STOP_ERROR

datatype bind_mode = BIND_NONE | BIND_DPORT | BIND_TTL

record hping_config =
  tcp_th_flags :: u32
  ip_tos :: u32
  set_seqnum :: bool
  tcp_seqnum :: u32
  set_ack :: bool
  tcp_ack :: u32
  virtual_mtu :: u32
  ip_frag_offset :: u32
  signlen :: u32
  lsr_length :: u32
  ssr_length :: u32
  data_size :: u16
  sending_wait :: int
  opt_rawipmode :: bool
  opt_icmpmode :: bool
  opt_udpmode :: bool
  opt_scanmode :: bool
  opt_listenmode :: bool
  opt_waitinusec :: bool
  opt_numeric :: bool
  opt_gethost :: bool
  opt_quiet :: bool
  opt_relid :: bool
  opt_fragment :: bool
  opt_df :: bool
  opt_mf :: bool
  opt_debug :: bool
  opt_verbose :: bool
  opt_winid_order :: bool
  opt_keepstill :: bool
  opt_datafromfile :: bool
  opt_hexdump :: bool
  opt_contdump :: bool
  opt_sign :: bool
  opt_safe :: bool
  opt_end :: bool
  opt_traceroute :: bool
  opt_seqnum :: bool
  opt_incdport :: bool
  opt_force_incdport :: bool
  opt_icmptype :: int
  opt_icmpcode :: int
  opt_rroute :: bool
  opt_tcpexitcode :: bool
  opt_badcksum :: bool
  opt_tr_keep_ttl :: bool
  opt_tcp_timestamp :: bool
  opt_clock_skew :: bool
  cs_window :: int
  cs_window_shift :: int
  cs_vector_len :: int
  opt_tr_stop :: bool
  opt_tr_no_rtt :: bool
  opt_rand_dest :: bool
  opt_rand_source :: bool
  opt_lsrr :: bool
  opt_ssrr :: bool
  opt_beep :: bool
  opt_flood :: bool
  opt_dry_run :: bool
  opt_json :: bool
  opt_force_icmp :: bool
  src_ttl :: int
  src_id :: int
  base_dst_port :: int
  dst_port :: int
  initsport :: int
  src_winsize :: int
  src_thoff :: int
  cfg_count :: int
  ctrlzbind :: bind_mode
  icmp_ip_version :: int
  icmp_ip_ihl :: int
  icmp_ip_tos :: int
  icmp_ip_tot_len :: int
  icmp_ip_id :: int
  icmp_ip_protocol :: int
  icmp_ip_srcport :: int
  icmp_ip_dstport :: int
  icmp_cksum :: int
  raw_ip_protocol :: int
  datafilename :: string
  targetname :: string
  ifname :: string
  spoofaddr :: string
  icmp_ip_srcip :: string
  icmp_ip_dstip :: string
  icmp_gwip :: string
  cfg_sign :: string
  opt_scanports :: string
  apd_send :: "string option"
  readfile :: "string option"
  lsr :: bytes
  ssr :: bytes
  usec_delay :: int

record delaytable_element =
  seq :: int
  src :: int
  sent_us :: int
  status :: int

text \<open>A clock or the random source of the context: the system's, or one that was installed, given
  by its successive values.\<close>

datatype 'a source = System | Installed "nat \<Rightarrow> 'a"

record hping_context =
  linkhdr_size :: u32
  h_if_mtu :: u32
  reason :: stop_reason
  next_send_us :: int
  end_deadline_us :: int
  icmp_ip_src :: u32
  icmp_ip_dst :: u32
  icmp_gw :: u32
  local_addr :: u32
  remote_addr :: u32
  rsign :: string
  src_port :: int
  sequence :: int
  eof_reached :: bool
  tcp_exitcode :: int
  ip_opt :: bytes
  ip_optlen :: u32
  hcmphdr_p :: bytes
  delaytable :: "delaytable_element list"
  delaytable_index :: int
  clock_monotonic :: "int source"
  clock_wall :: "int source"
  random_u32 :: "u32 source"

record hping_stats =
  sent :: u64
  received :: u64
  duplicates :: u64
  unmatched :: u64
  out_of_sequence :: u64
  rtt_samples :: u64
  rtt_min :: rat
  rtt_max :: rat
  rtt_avg :: rat

text \<open>What the system delivers: clock readings and random numbers of the device by call number,
  whether the \<open>n\<close>th \<open>sendto\<close> works (fails with \<open>EINTR\<close> counts as working), the process id,
  whether memory is available, the contents of the data file, what the capture delivers at its
  \<open>n\<close>th read, the result of the \<open>n\<close>th wait for it with a timeout, and the result of the \<open>n\<close>th
  write of so many bytes to the standard output.\<close>

datatype frame = No_frame | End_of_input | Frame bytes

record environment =
  sys_monotonic :: "nat \<Rightarrow> int"
  sys_wall :: "nat \<Rightarrow> int"
  seed :: seeding
  sendto_ok :: "nat \<Rightarrow> bool"
  pid :: nat
  mem :: allocator
  data_file :: "bytes option"
  frames :: "nat \<Rightarrow> frame"
  waits :: "nat \<Rightarrow> int \<Rightarrow> int"
  stdout_write :: "nat \<Rightarrow> nat \<Rightarrow> int"

record tool =
  cfg :: hping_config
  ctx :: hping_context
  stats :: hping_stats
  env :: environment
  clock_calls :: nat
  wall_calls :: nat
  rand_calls :: nat
  rc4_state :: rc4
  last_seq :: int
  last_id :: int
  last_press :: int
  icmp_seq :: int
  data_pos :: "nat option"
  old_src_addr :: u32
  old_th_seq :: u32
  first_tstamp :: u32
  first_mstime :: u64
  clock_deltas :: "(int \<times> int) list option"
  clock_samples :: "(int \<times> int) list option"
  old_rrlen :: nat
  old_rr :: bytes
  exp_id :: u16
  sig_stop :: int
  sig_tstp :: bool
  reads :: nat
  waits_done :: nat
  sends :: nat
  wire :: "bytes list"
  stdout_writes :: nat
  printed :: "bytes list"

definition delaytable_empty :: delaytable_element where
  "delaytable_empty = \<lparr>seq = -1, src = 0, sent_us = 0, status = 0\<rparr>"

definition hping_config_init :: hping_config where
  "hping_config_init = \<lparr>tcp_th_flags = 0, ip_tos = 0, set_seqnum = False, tcp_seqnum = 0, set_ack = False, tcp_ack = 0,
     virtual_mtu = 16, ip_frag_offset = 0, signlen = 0, lsr_length = 0, ssr_length = 0, data_size = 0, sending_wait = 1,
     opt_rawipmode = False, opt_icmpmode = False, opt_udpmode = False, opt_scanmode = False, opt_listenmode = False,
     opt_waitinusec = False, opt_numeric = False, opt_gethost = True, opt_quiet = False, opt_relid = False,
     opt_fragment = False, opt_df = False, opt_mf = False, opt_debug = False, opt_verbose = False, opt_winid_order = False,
     opt_keepstill = False, opt_datafromfile = False, opt_hexdump = False, opt_contdump = False, opt_sign = False,
     opt_safe = False, opt_end = False, opt_traceroute = False, opt_seqnum = False, opt_incdport = False,
     opt_force_incdport = False, opt_icmptype = 8, opt_icmpcode = 0, opt_rroute = False, opt_tcpexitcode = False,
     opt_badcksum = False, opt_tr_keep_ttl = False, opt_tcp_timestamp = False, opt_clock_skew = False, cs_window = 300,
     cs_window_shift = 5, cs_vector_len = 10, opt_tr_stop = False, opt_tr_no_rtt = False, opt_rand_dest = False,
     opt_rand_source = False, opt_lsrr = False, opt_ssrr = False, opt_beep = False, opt_flood = False, opt_dry_run = False,
     opt_json = False, opt_force_icmp = False, src_ttl = 64, src_id = -1, base_dst_port = 0, dst_port = 0, initsport = -1,
     src_winsize = 512, src_thoff = 5, cfg_count = -1, ctrlzbind = BIND_DPORT, icmp_ip_version = 4, icmp_ip_ihl = 5,
     icmp_ip_tos = 0, icmp_ip_tot_len = 0, icmp_ip_id = 0, icmp_ip_protocol = 6, icmp_ip_srcport = 0, icmp_ip_dstport = 0,
     icmp_cksum = -1, raw_ip_protocol = 6, datafilename = [], targetname = [], ifname = [], spoofaddr = [], icmp_ip_srcip = [],
     icmp_ip_dstip = [], icmp_gwip = [], cfg_sign = [], opt_scanports = [], apd_send = None, readfile = None,
     lsr = replicate 255 0, ssr = replicate 255 0, usec_delay = 0\<rparr>"

definition hping_clock_system :: "hping_context \<Rightarrow> hping_context" where
  "hping_clock_system x = x\<lparr>clock_monotonic := System, clock_wall := System, random_u32 := System\<rparr>"

definition hping_context_init :: hping_context where
  "hping_context_init = hping_clock_system \<lparr>linkhdr_size = 0, h_if_mtu = 0, reason = HPING_STOP_NONE, next_send_us = 0,
     end_deadline_us = -1, icmp_ip_src = 0, icmp_ip_dst = 0, icmp_gw = 0, local_addr = 0, remote_addr = 0, rsign = [],
     src_port = 0, sequence = 0, eof_reached = False, tcp_exitcode = 0, ip_opt = replicate 40 0, ip_optlen = 0, hcmphdr_p = [],
     delaytable = replicate TABLESIZE delaytable_empty, delaytable_index = 0, clock_monotonic = System, clock_wall = System,
     random_u32 = System\<rparr>"

definition hping_stats_init :: hping_stats where
  "hping_stats_init = \<lparr>sent = 0, received = 0, duplicates = 0, unmatched = 0, out_of_sequence = 0, rtt_samples = 0,
     rtt_min = 0, rtt_max = 0, rtt_avg = 0\<rparr>"

definition tool_init :: "environment \<Rightarrow> tool" where
  "tool_init e = \<lparr>cfg = hping_config_init, ctx = hping_context_init, stats = hping_stats_init, env = e, clock_calls = 0,
     wall_calls = 0, rand_calls = 0, rc4_state = rc4_static, last_seq = 0, last_id = -1, last_press = 0, icmp_seq = 0,
     data_pos = None, old_src_addr = 0, old_th_seq = 0, first_tstamp = 0, first_mstime = 0,
     clock_deltas = None, clock_samples = Some [], old_rrlen = 0, old_rr = replicate 40 0, exp_id = 0, sig_stop = 0, sig_tstp = False,
     reads = 0, waits_done = 0, sends = 0, wire = [], stdout_writes = 0, printed = []\<rparr>"

definition upd_cfg :: "(hping_config \<Rightarrow> hping_config) \<Rightarrow> tool \<Rightarrow> tool" where
  "upd_cfg f t = t\<lparr>cfg := f (cfg t)\<rparr>"

definition upd_ctx :: "(hping_context \<Rightarrow> hping_context) \<Rightarrow> tool \<Rightarrow> tool" where
  "upd_ctx f t = t\<lparr>ctx := f (ctx t)\<rparr>"

definition upd_stats :: "(hping_stats \<Rightarrow> hping_stats) \<Rightarrow> tool \<Rightarrow> tool" where
  "upd_stats f t = t\<lparr>stats := f (stats t)\<rparr>"

section \<open>Time and randomness\<close>

definition hping_clock_set :: "(nat \<Rightarrow> int) option \<Rightarrow> (nat \<Rightarrow> int) option \<Rightarrow> hping_context \<Rightarrow> hping_context" where
  "hping_clock_set monotonic wall x =
     x\<lparr>clock_monotonic := (case monotonic of None \<Rightarrow> clock_monotonic x | Some f \<Rightarrow> Installed f),
        clock_wall := (case wall of None \<Rightarrow> clock_wall x | Some f \<Rightarrow> Installed f)\<rparr>"

definition hping_random_set :: "(nat \<Rightarrow> u32) \<Rightarrow> hping_context \<Rightarrow> hping_context" where
  "hping_random_set f x = x\<lparr>random_u32 := Installed f\<rparr>"

definition hping_monotonic_us :: "tool \<Rightarrow> int \<times> tool" where
  "hping_monotonic_us t =
     ((case clock_monotonic (ctx t) of System \<Rightarrow> sys_monotonic (env t) | Installed f \<Rightarrow> f) (clock_calls t),
      t\<lparr>clock_calls := clock_calls t + 1\<rparr>)"

definition hping_wall_us :: "tool \<Rightarrow> int \<times> tool" where
  "hping_wall_us t =
     ((case clock_wall (ctx t) of System \<Rightarrow> sys_wall (env t) | Installed f \<Rightarrow> f) (wall_calls t),
      t\<lparr>wall_calls := wall_calls t + 1\<rparr>)"

text \<open>\<open>system_random_u32\<close> is the RC4 generator.\<close>

definition hping_rand :: "tool \<Rightarrow> (u32 \<times> tool) option" where
  "hping_rand t = (case random_u32 (ctx t) of
       System \<Rightarrow> map_option (apsnd (\<lambda>r. t\<lparr>rc4_state := r\<rparr>)) (hp_rand (seed (env t)) (rc4_state t))
     | Installed f \<Rightarrow> Some (f (rand_calls t), t\<lparr>rand_calls := rand_calls t + 1\<rparr>))"

text \<open>C's division truncates; the wall clock is not negative.\<close>

definition milliseconds :: "tool \<Rightarrow> int \<times> tool" where
  "milliseconds t = (case hping_wall_us t of (us, t) \<Rightarrow> (us div 1000000 mod 86400 * 1000 + us mod 1000000 div 1000, t))"

definition mstime :: "tool \<Rightarrow> int \<times> tool" where
  "mstime t = (case hping_monotonic_us t of (us, t) \<Rightarrow> (us div 1000, t))"

section \<open>Counters\<close>

definition hping_stats_on_sent :: "hping_stats \<Rightarrow> hping_stats" where
  "hping_stats_on_sent s = s\<lparr>sent := sent s + 1\<rparr>"

definition hping_stats_on_reply :: "int \<Rightarrow> hping_stats \<Rightarrow> hping_stats" where
  "hping_stats_on_reply what s =
     (let s = s\<lparr>received := received s + 1\<rparr>
      in if what = S_RECV then s\<lparr>duplicates := duplicates s + 1\<rparr>
         else if what = S_UNKNOWN then s\<lparr>unmatched := unmatched s + 1\<rparr> else s)"

definition hping_stats_rtt_sample :: "rat \<Rightarrow> hping_stats \<Rightarrow> hping_stats" where
  "hping_stats_rtt_sample ms s =
     (let s = (if rtt_samples s = 0 \<or> ms < rtt_min s then s\<lparr>rtt_min := ms\<rparr> else s);
          s = (if rtt_samples s = 0 \<or> ms > rtt_max s then s\<lparr>rtt_max := ms\<rparr> else s);
          s = s\<lparr>rtt_samples := rtt_samples s + 1\<rparr>
      in s\<lparr>rtt_avg := rtt_avg s + (ms - rtt_avg s) / of_nat (unat (rtt_samples s))\<rparr>)"

definition hping_stats_unique :: "hping_stats \<Rightarrow> u64" where
  "hping_stats_unique s =
     (let other = duplicates s + unmatched s
      in if received s > other then received s - other else 0)"

definition hping_stats_loss_percent :: "hping_stats \<Rightarrow> int" where
  "hping_stats_loss_percent s =
     (let unique = hping_stats_unique s
      in if sent s = 0 then 0 else if unique \<ge> sent s then 0
         else sint (ucast ((sent s - unique) * 100 div sent s) :: u32))"

definition hping_exit_code :: "tool \<Rightarrow> int" where
  "hping_exit_code t =
     (if opt_tcpexitcode (cfg t) then tcp_exitcode (ctx t)
      else if opt_dry_run (cfg t) then 0 else if received (stats t) \<noteq> 0 then 0 else 1)"

section \<open>Delay table\<close>

text \<open>The first slot from \<open>i\<close> on that satisfies \<open>P\<close>.\<close>

fun find_slot :: "(delaytable_element \<Rightarrow> bool) \<Rightarrow> delaytable_element list \<Rightarrow> nat \<Rightarrow> nat option" where
  "find_slot P [] i = None"
| "find_slot P (e # es) i = (if P e then Some i else find_slot P es (Suc i))"

text \<open>\<open>rtt\<close>: the status, \<open>*seqp\<close>, \<open>*ms_delay\<close> and the new state.\<close>

definition rtt :: "int \<Rightarrow> int \<Rightarrow> tool \<Rightarrow> int \<times> int \<times> rat \<times> tool" where
  "rtt seqn recvport t =
     (let table = delaytable (ctx t);
          tablepos = (if seqn \<noteq> 0 then find_slot (\<lambda>e. seq e = seqn) table 0 else find_slot (\<lambda>e. src e = recvport) table 0);
          seqn = (case tablepos of Some i \<Rightarrow> if seqn \<noteq> 0 then seqn else seq (table ! i) | None \<Rightarrow> seqn)
      in case tablepos of
           Some i \<Rightarrow>
             (let e = table ! i; t = upd_ctx (\<lambda>c. c\<lparr>delaytable := table[i := e\<lparr>status := S_RECV\<rparr>]\<rparr>) t
              in case hping_monotonic_us t of (now, t) \<Rightarrow>
                   (let ms = of_int (max 0 (now - sent_us e)) / 1000
                    in (status e, seqn, ms, upd_stats (hping_stats_rtt_sample ms) t)))
         | None \<Rightarrow> (S_UNKNOWN, seqn, 0, t))"

definition delaytable_add :: "int \<Rightarrow> int \<Rightarrow> int \<Rightarrow> tool \<Rightarrow> tool" where
  "delaytable_add sq sp what t =
     (case hping_monotonic_us t of (now, t) \<Rightarrow>
        upd_ctx (\<lambda>c. c\<lparr>delaytable := (delaytable c)[nat (delaytable_index c mod int TABLESIZE) :=
                          \<lparr>seq = sq, src = sp, sent_us = now, status = what\<rparr>],
                        delaytable_index := delaytable_index c + 1\<rparr>) t)"

section \<open>Identification numbers of a reply\<close>

text \<open>\<open>relativize_id\<close>: the return value, \<open>*ip_id\<close> and the new state.\<close>

definition relativize_id :: "int \<Rightarrow> int \<Rightarrow> tool \<Rightarrow> bool \<times> int \<times> tool" where
  "relativize_id seqnum ip_id t =
     (if last_id t = -1 then (False, ip_id, t\<lparr>last_id := ip_id, last_seq := seqnum\<rparr>)
      else let seq_diff = seqnum - last_seq t in
        if seq_diff > 0
        then (True, (if last_id t > ip_id then ((65535 - last_id t) + ip_id) div seq_diff else (ip_id - last_id t) div seq_diff),
              t\<lparr>last_id := ip_id, last_seq := seqnum\<rparr>)
        else (False, ip_id, upd_stats (\<lambda>s. s\<lparr>out_of_sequence := out_of_sequence s + 1\<rparr>) t))"

section \<open>Facts\<close>

lemma upd_fields [simp]:
  "cfg (upd_ctx f t) = cfg t" "stats (upd_ctx f t) = stats t" "ctx (upd_ctx f t) = f (ctx t)" "env (upd_ctx f t) = env t"
  "cfg (upd_stats g t) = cfg t" "stats (upd_stats g t) = g (stats t)" "ctx (upd_stats g t) = ctx t" "env (upd_stats g t) = env t"
  "cfg (upd_cfg h t) = h (cfg t)" "stats (upd_cfg h t) = stats t" "ctx (upd_cfg h t) = ctx t" "env (upd_cfg h t) = env t"
  "wire (upd_ctx f t) = wire t" "wire (upd_stats g t) = wire t" "wire (upd_cfg h t) = wire t"
  by (simp_all add: upd_ctx_def upd_stats_def upd_cfg_def)

lemma find_slot_Some:
  "find_slot P es i = Some k \<Longrightarrow> i \<le> k \<and> k < i + length es \<and> P (es ! (k - i)) \<and> (\<forall>m < k - i. \<not> P (es ! m))"
proof (induction es arbitrary: i)
  case (Cons e es)
  show ?case
  proof (cases "P e")
    case False
    then have "find_slot P es (Suc i) = Some k" using Cons.prems by simp
    note IH = Cons.IH [OF this]
    then have k: "k - i = Suc (k - Suc i)" by linarith
    show ?thesis using IH False unfolding k by (auto simp: All_less_Suc2)
  qed (use Cons.prems in simp)
qed simp

lemma find_slot_None: "find_slot P es i = None \<longleftrightarrow> (\<forall>e \<in> set es. \<not> P e)"
  by (induction es arbitrary: i) auto

text \<open>The delay table: the slots that still wait for a first answer.\<close>

definition waiting :: "delaytable_element list \<Rightarrow> nat" where
  "waiting es = length (filter (\<lambda>e. status e = S_SENT \<and> seq e \<noteq> -1) es)"

lemma length_filter_update:
  "i < length es \<Longrightarrow> length (filter P (es[i := e])) + (if P (es ! i) then 1 else 0) = length (filter P es) + (if P e then 1 else 0)"
proof (induction es arbitrary: i)
  case (Cons a es)
  then show ?case by (cases i) auto
qed simp

text \<open>What the two operations do to the table, and what \<open>rtt\<close> answers.\<close>

lemma rtt_cases:
  assumes "rtt seqn port t = (st', sq', ms, t')"
  obtains (unknown) "st' = S_UNKNOWN" "sq' = seqn" "ms = 0" "t' = t"
      "\<forall>e \<in> set (delaytable (ctx t)). (if seqn \<noteq> 0 then seq e \<noteq> seqn else src e \<noteq> port)"
    | (known) i now where "i < length (delaytable (ctx t))" "st' = status (delaytable (ctx t) ! i)" "sq' = seq (delaytable (ctx t) ! i)"
      "if seqn \<noteq> 0 then seq (delaytable (ctx t) ! i) = seqn else src (delaytable (ctx t) ! i) = port"
      "delaytable (ctx t') = (delaytable (ctx t))[i := (delaytable (ctx t) ! i)\<lparr>status := S_RECV\<rparr>]"
      "ms = of_int (max 0 (now - sent_us (delaytable (ctx t) ! i))) / 1000"
      "stats t' = hping_stats_rtt_sample ms (stats t)" "cfg t' = cfg t" "delaytable_index (ctx t') = delaytable_index (ctx t)"
proof -
  define P :: "delaytable_element \<Rightarrow> bool" where "P = (if seqn \<noteq> 0 then (\<lambda>e. seq e = seqn) else (\<lambda>e. src e = port))"
  let ?t = "delaytable (ctx t)"
  show thesis
  proof (cases "find_slot P ?t 0")
    case None
    then have "\<forall>e \<in> set ?t. \<not> P e" by (simp add: find_slot_None)
    then show thesis
      using None assms unknown by (cases "seqn = 0") (auto simp: P_def rtt_def Let_def)
  next
    case (Some i)
    note i = find_slot_Some [OF Some]
    let ?t1 = "upd_ctx (\<lambda>c. c\<lparr>delaytable := ?t[i := (?t ! i)\<lparr>status := S_RECV\<rparr>]\<rparr>) t"
    obtain now t2 where m: "hping_monotonic_us ?t1 = (now, t2)" by fastforce
    have r: "sq' = seq (?t ! i)" "st' = status (?t ! i)" "t' = upd_stats (hping_stats_rtt_sample ms) t2"
      "ms = of_int (max 0 (now - sent_us (?t ! i))) / 1000"
      using Some assms i m by (cases "seqn = 0"; simp add: P_def rtt_def Let_def)+
    have "ctx t2 = ctx ?t1" "stats t2 = stats t" "cfg t2 = cfg t" using m by (auto simp: hping_monotonic_us_def)
    then show thesis
      using known [of i now] i r by (simp add: P_def split: if_splits)
  qed
qed

text \<open>Events of a run: a probe is recorded, or a reply is looked up and counted.\<close>

datatype probe_event = Probe int int | Reply int int

fun probe_step :: "probe_event \<Rightarrow> tool \<Rightarrow> int \<times> tool" where
  "probe_step (Probe sq sp) t = (S_UNKNOWN, delaytable_add sq sp S_SENT t)"
| "probe_step (Reply seqn port) t = (case rtt seqn port t of (what, sq, ms, t) \<Rightarrow> (what, upd_stats (hping_stats_on_reply what) t))"

fun probe_run :: "probe_event list \<Rightarrow> tool \<Rightarrow> tool" where
  "probe_run [] t = t"
| "probe_run (e # es) t = probe_run es (snd (probe_step e t))"

text \<open>A slot that was never used has sequence number -1 and port 0.\<close>

definition table_ok :: "delaytable_element list \<Rightarrow> bool" where
  "table_ok es \<longleftrightarrow> length es = TABLESIZE \<and> (\<forall>e \<in> set es. status e \<in> {S_SENT, S_RECV} \<and> (seq e = -1 \<longrightarrow> src e = 0))"

text \<open>Recorded probes have a sequence number; a reply carries one, and when it is 0 the port of the
  reply or, with port 0 (ICMP), the slot of the first probe tells which probe is meant.\<close>

fun real_event :: "probe_event \<Rightarrow> tool \<Rightarrow> bool" where
  "real_event (Probe sq sp) t \<longleftrightarrow> 0 \<le> sq"
| "real_event (Reply seqn port) t \<longleftrightarrow> 0 \<le> seqn
     \<and> (seqn = 0 \<and> port = 0 \<longrightarrow> src (delaytable (ctx t) ! 0) = 0 \<and> seq (delaytable (ctx t) ! 0) \<noteq> -1)"

fun real_run :: "probe_event list \<Rightarrow> tool \<Rightarrow> bool" where
  "real_run [] t = True"
| "real_run (e # es) t \<longleftrightarrow> real_event e t \<and> real_run es (snd (probe_step e t))"

fun is_reply :: "probe_event \<Rightarrow> bool" where
  "is_reply (Reply seqn port) = True"
| "is_reply (Probe sq sp) = False"

definition replies :: "probe_event list \<Rightarrow> nat" where
  "replies es = length (filter is_reply es)"

definition probes :: "probe_event list \<Rightarrow> nat" where
  "probes es = length (filter (\<lambda>e. \<not> is_reply e) es)"

lemma event_counts [simp]:
  "replies [] = 0" "probes [] = 0"
  "replies (Reply sq sp # es) = Suc (replies es)" "replies (Probe sq sp # es) = replies es"
  "probes (Probe sq sp # es) = Suc (probes es)" "probes (Reply sq sp # es) = probes es"
  by (simp_all add: replies_def probes_def)

text \<open>\<open>u\<close> replies were first answers so far, of \<open>n\<close> replies and \<open>p\<close> probes.\<close>

definition accounted :: "nat \<Rightarrow> nat \<Rightarrow> nat \<Rightarrow> tool \<Rightarrow> bool" where
  "accounted u n p t \<longleftrightarrow> table_ok (delaytable (ctx t)) \<and> 0 \<le> delaytable_index (ctx t)
     \<and> unat (received (stats t)) = n \<and> unat (duplicates (stats t)) + unat (unmatched (stats t)) + u = n
     \<and> u + waiting (delaytable (ctx t)) \<le> p"

lemma delaytable_add_ctx:
  "\<exists>now. delaytable (ctx (delaytable_add sq sp what t)) = (delaytable (ctx t))[nat (delaytable_index (ctx t) mod int TABLESIZE) :=
      \<lparr>seq = sq, src = sp, sent_us = now, status = what\<rparr>]"
  "delaytable_index (ctx (delaytable_add sq sp what t)) = delaytable_index (ctx t) + 1"
  "stats (delaytable_add sq sp what t) = stats t" "cfg (delaytable_add sq sp what t) = cfg t"
  by (auto simp: delaytable_add_def hping_monotonic_us_def)

lemma waiting_update:
  assumes "i < length es"
  shows "waiting (es[i := e]) + (if status (es ! i) = S_SENT \<and> seq (es ! i) \<noteq> -1 then 1 else 0)
    = waiting es + (if status e = S_SENT \<and> seq e \<noteq> -1 then 1 else 0)"
  unfolding waiting_def using length_filter_update [OF assms, of "\<lambda>e. status e = S_SENT \<and> seq e \<noteq> -1" e] by simp

lemma table_ok_update:
  "table_ok es \<Longrightarrow> status e \<in> {S_SENT, S_RECV} \<Longrightarrow> (seq e = -1 \<longrightarrow> src e = 0) \<Longrightarrow> table_ok (es[i := e])"
  unfolding table_ok_def using set_update_subset_insert [of es i e] by auto

lemma table_ok_nth: "table_ok es \<Longrightarrow> i < length es \<Longrightarrow> status (es ! i) \<in> {S_SENT, S_RECV} \<and> (seq (es ! i) = -1 \<longrightarrow> src (es ! i) = 0)"
  by (simp add: table_ok_def)

lemma sample_counters [simp]:
  "received (hping_stats_rtt_sample ms s) = received s" "duplicates (hping_stats_rtt_sample ms s) = duplicates s"
  "unmatched (hping_stats_rtt_sample ms s) = unmatched s"
  by (simp_all add: hping_stats_rtt_sample_def Let_def)

lemma unat64_less: "unat (w :: u64) < 2 ^ 64"
  using unsigned_less [of w] by simp

lemma unat_Suc64: "unat (w :: u64) + 1 < 2 ^ 64 \<Longrightarrow> unat (w + 1) = unat w + 1"
  by (simp add: unat_word_ariths)

lemma unused_slot_not_found:
  assumes "table_ok es" "find_slot (\<lambda>e. src e = 0) es 0 = Some i" "src (es ! 0) = 0"
  shows "i = 0"
  using find_slot_Some [OF assms(2)] assms(3) by (metis diff_zero not_gr_zero)

lemma reply_counters:
  assumes "unat (received s) + 1 < 2 ^ 64" "unat (duplicates s) + unat (unmatched s) \<le> unat (received s)"
    "what \<in> {S_SENT, S_RECV, S_UNKNOWN}"
  shows "unat (received (hping_stats_on_reply what s)) = unat (received s) + 1"
    "unat (duplicates (hping_stats_on_reply what s)) + unat (unmatched (hping_stats_on_reply what s))
       = unat (duplicates s) + unat (unmatched s) + (if what = S_SENT then 0 else 1)"
proof -
  have "unat (duplicates s) + 1 < 2 ^ 64" "unat (unmatched s) + 1 < 2 ^ 64" using assms(1,2) by linarith+
  then show "unat (received (hping_stats_on_reply what s)) = unat (received s) + 1"
    "unat (duplicates (hping_stats_on_reply what s)) + unat (unmatched (hping_stats_on_reply what s))
       = unat (duplicates s) + unat (unmatched s) + (if what = S_SENT then 0 else 1)"
    using assms(1,3) by (auto simp: hping_stats_on_reply_def Let_def unat_Suc64)
qed

lemma accounted_probe:
  assumes "accounted u n p t" "0 \<le> sq"
  shows "accounted u n (p + 1) (delaytable_add sq sp S_SENT t)"
proof -
  let ?es = "delaytable (ctx t)" and ?i = "nat (delaytable_index (ctx t) mod int TABLESIZE)"
  obtain now where d: "delaytable (ctx (delaytable_add sq sp S_SENT t)) = ?es[?i := \<lparr>seq = sq, src = sp, sent_us = now, status = S_SENT\<rparr>]"
    using delaytable_add_ctx(1) by blast
  have "?i < length ?es" using assms(1) by (simp add: accounted_def table_ok_def nat_less_iff)
  note w = waiting_update [OF this, of "\<lparr>seq = sq, src = sp, sent_us = now, status = S_SENT\<rparr>"]
  have "table_ok (?es[?i := \<lparr>seq = sq, src = sp, sent_us = now, status = S_SENT\<rparr>])"
    using assms by (intro table_ok_update) (auto simp: accounted_def)
  then show ?thesis
    using assms w by (auto simp: accounted_def d delaytable_add_ctx(2-4) split: if_splits)
qed

lemma accounted_reply:
  assumes "accounted u n p t" "real_event (Reply seqn port) t" "n + 1 < 2 ^ 64"
  shows "\<exists>u'. accounted u' (n + 1) p (snd (probe_step (Reply seqn port) t)) \<and> u \<le> u'"
proof -
  let ?es = "delaytable (ctx t)"
  obtain what sq ms t' where r: "rtt seqn port t = (what, sq, ms, t')" by (metis prod_cases4)
  have ok: "table_ok ?es" and u: "unat (received (stats t)) = n" "unat (duplicates (stats t)) + unat (unmatched (stats t)) + u = n"
    "u + waiting ?es \<le> p" "0 \<le> delaytable_index (ctx t)"
    using assms(1) by (simp_all add: accounted_def)
  from r show ?thesis
  proof (cases rule: rtt_cases)
    case unknown
    note c = reply_counters [of "stats t" S_UNKNOWN]
    have "accounted u (n + 1) p (snd (probe_step (Reply seqn port) t))"
      using c u ok assms(3) unknown r by (simp add: accounted_def)
    then show ?thesis by blast
  next
    case (known i now)
    have st: "what \<in> {S_SENT, S_RECV}" using table_ok_nth [OF ok known(1)] known(2) by simp
    have used: "seq (?es ! i) \<noteq> -1"
    proof (cases "seqn = 0 \<and> port = 0")
      case True
      then have first: "src (?es ! 0) = 0" "seq (?es ! 0) \<noteq> -1" using assms(2) by auto
      have "find_slot (\<lambda>e. src e = 0) ?es 0 \<noteq> None"
        using known(1,4) True by (auto simp: find_slot_None)
      then obtain k where k: "find_slot (\<lambda>e. src e = 0) ?es 0 = Some k" by blast
      then have "k = 0" using unused_slot_not_found [OF ok k] first by simp
      then have "sq = seq (?es ! 0)" using r k True by (auto simp: rtt_def Let_def split: prod.splits)
      then show ?thesis using first(2) known(3) by simp
    next
      case False
      then show ?thesis using known(4) assms(2) table_ok_nth [OF ok known(1)] by (auto split: if_splits)
    qed
    let ?e = "(?es ! i)\<lparr>status := S_RECV\<rparr>"
    have ok': "table_ok (?es[i := ?e])"
      using ok table_ok_nth [OF ok known(1)] by (intro table_ok_update) auto
    note w = waiting_update [OF known(1), of ?e]
    have eqs: "received (stats t') = received (stats t)" "duplicates (stats t') = duplicates (stats t)"
      "unmatched (stats t') = unmatched (stats t)" by (simp_all add: known(7))
    have snd_step: "snd (probe_step (Reply seqn port) t) = upd_stats (hping_stats_on_reply what) t'" using r by simp
    have c: "unat (received (hping_stats_on_reply what (stats t'))) = n + 1"
      "unat (duplicates (hping_stats_on_reply what (stats t'))) + unat (unmatched (hping_stats_on_reply what (stats t')))
        = unat (duplicates (stats t)) + unat (unmatched (stats t)) + (if what = S_SENT then 0 else 1)"
      using reply_counters [of "stats t'" what] eqs u assms(3) st by auto
    let ?u = "if what = S_SENT then u + 1 else u"
    have "accounted ?u (n + 1) p (snd (probe_step (Reply seqn port) t))"
      using c u ok' assms(3) known(2,5,9) st w used eqs unfolding accounted_def snd_step
      by (cases "what = S_SENT") simp_all
    then show ?thesis by (metis le_add1 order_refl)
  qed
qed

lemma accounted_run:
  "accounted u n p t \<Longrightarrow> real_run es t \<Longrightarrow> n + replies es < 2 ^ 64 \<Longrightarrow>
    \<exists>u'. accounted u' (n + replies es) (p + probes es) (probe_run es t)"
proof (induction es arbitrary: u n p t)
  case (Cons e es)
  show ?case
  proof (cases e)
    case (Probe sq sp)
    then have "accounted u n (p + 1) (snd (probe_step e t))" using accounted_probe [OF Cons.prems(1)] Cons.prems(2) by simp
    from Cons.IH [OF this] Cons.prems Probe show ?thesis by simp
  next
    case (Reply seqn port)
    then obtain u' where "accounted u' (n + 1) p (snd (probe_step e t))"
      using accounted_reply [OF Cons.prems(1)] Cons.prems by auto
    from Cons.IH [OF this] Cons.prems Reply show ?thesis by simp
  qed
qed auto

lemma unique_accounted:
  assumes "accounted u n p t"
  shows "unat (hping_stats_unique (stats t)) = u"
proof -
  let ?s = "stats t"
  have s: "unat (duplicates ?s) + unat (unmatched ?s) + u = unat (received ?s)" using assms by (simp add: accounted_def)
  have "unat (duplicates ?s) + unat (unmatched ?s) < 2 ^ 64" using s unat64_less [of "received ?s"] by linarith
  then have o: "unat (duplicates ?s + unmatched ?s) = unat (duplicates ?s) + unat (unmatched ?s)" by (simp add: unat_word_ariths)
  show ?thesis
    using s o by (auto simp: hping_stats_unique_def Let_def word_less_nat_alt unat_sub word_le_nat_alt)
qed

lemma waiting_init: "waiting (replicate n delaytable_empty) = 0"
proof -
  have "filter (\<lambda>e. status e = S_SENT \<and> seq e \<noteq> -1) (replicate n delaytable_empty) = []"
    by (simp add: delaytable_empty_def)
  then show ?thesis by (simp only: waiting_def list.size)
qed

lemma accounted_init: "accounted 0 0 0 (tool_init e)"
  by (auto simp: accounted_def tool_init_def hping_context_init_def hping_clock_system_def hping_stats_init_def
      waiting_init [unfolded delaytable_empty_def] table_ok_def delaytable_empty_def)

text \<open>The loss in percent.\<close>

lemma loss_percent_eq:
  assumes "unat (sent s) * 100 < 2 ^ 64"
  shows "hping_stats_loss_percent s
    = int ((unat (sent s) - unat (hping_stats_unique s)) * 100 div unat (sent s))"
proof (cases "sent s = 0 \<or> hping_stats_unique s \<ge> sent s")
  case True
  then show ?thesis by (auto simp: hping_stats_loss_percent_def Let_def word_le_nat_alt)
next
  case False
  let ?u = "hping_stats_unique s" and ?n = "sent s"
  have lt: "unat ?u < unat ?n" using False by (simp add: word_less_nat_alt not_le)
  have sub: "unat (?n - ?u) = unat ?n - unat ?u" using lt by (simp add: unat_sub word_le_nat_alt)
  have "(unat ?n - unat ?u) * 100 < 2 ^ 64" using assms by (meson diff_le_self le_less_trans mult_le_mono1)
  then have mul: "unat ((?n - ?u) * 100) = (unat ?n - unat ?u) * 100"
    unfolding unat_word_ariths sub by simp
  let ?q = "(unat ?n - unat ?u) * 100 div unat ?n"
  have q: "unat ((?n - ?u) * 100 div ?n) = ?q" by (simp only: unat_div mul)
  have "(unat ?n - unat ?u) * 100 \<le> unat ?n * 100" by simp
  then have "?q \<le> unat ?n * 100 div unat ?n" by (rule div_le_mono)
  then have le: "?q \<le> 100" using lt by simp
  let ?w = "ucast ((?n - ?u) * 100 div ?n) :: u32"
  have uw: "unat ?w = ?q" unfolding unat_ucast_mod q using le by simp
  have "sint ?w = int (unat ?w)"
    using le uw by (simp add: sint_uint signed_take_bit_eq_if_positive uint_nat bit_iff_odd take_bit_int_eq_self_iff)
  then have "sint ?w = int ?q" by (simp only: uw)
  moreover have "hping_stats_loss_percent s = sint ?w"
    using False by (simp only: hping_stats_loss_percent_def Let_def de_Morgan_disj if_False simp_thms)
  ultimately show ?thesis by (simp only:)
qed

section \<open>Properties\<close>


text \<open>Three probes, then an answer, its duplicate, and an answer nobody waits for.\<close>

definition demo_env :: environment where
  "demo_env = \<lparr>sys_monotonic = (\<lambda>n. 1000 * int n), sys_wall = (\<lambda>_. 0), seed = \<lparr>urandom = [], tv = \<lambda>_. (0, 0)\<rparr>,
     sendto_ok = (\<lambda>_. True), pid = 4711, mem = (\<lambda>_. True), data_file = None, frames = (\<lambda>_. No_frame), waits = (\<lambda>_ _. 0), stdout_write = (\<lambda>_ n. int n)\<rparr>"

definition demo_events :: "probe_event list" where
  "demo_events = [Probe 1 2000, Probe 2 2001, Probe 3 2002, Reply 0 2001, Reply 2 0, Reply 9 0]"

lemma demo_real_run: "real_run demo_events (tool_init demo_env)"
  by (simp add: demo_events_def)


text \<open>C33. The packet loss that is reported is the share of the probes without a first answer, in
  percent and rounded down, and lies between 0 and 100, as long as a hundred times the number of
  probes fits into 64 bits.\<close>

theorem loss_percent_spec:
  assumes "unat (sent s) * 100 < 2 ^ 64" "sent s \<noteq> 0"
  shows "hping_stats_loss_percent s = (if unat (sent s) \<le> unat (hping_stats_unique s) then 0
      else int ((unat (sent s) - unat (hping_stats_unique s)) * 100 div unat (sent s)))
    \<and> 0 \<le> hping_stats_loss_percent s \<and> hping_stats_loss_percent s \<le> 100"
proof -
  let ?q = "(unat (sent s) - unat (hping_stats_unique s)) * 100 div unat (sent s)"
  have "?q \<le> unat (sent s) * 100 div unat (sent s)" by (intro div_le_mono mult_le_mono1) simp
  also have "\<dots> \<le> 100" by (cases "unat (sent s) = 0") auto
  finally show ?thesis
    using loss_percent_eq [OF assms(1)] by simp
qed

theorem loss_percent_spec_witness:
  "hping_stats_loss_percent (hping_stats_init\<lparr>sent := 3, received := 2\<rparr>) = 33"
proof -
  let ?s = "hping_stats_init\<lparr>sent := 3, received := 2\<rparr>"
  have "unat (hping_stats_unique ?s) = 2" "unat (sent ?s) = 3" by (simp_all add: hping_stats_unique_def hping_stats_init_def)
  then show ?thesis using loss_percent_spec [of ?s] by simp
qed

text \<open>C34. Relative ids (--rel): when the remote host's 16 bit id counter grows by \<open>d\<close> for each probe,
  a later reply shows \<open>d\<close>; when the counter wrapped around since the last reply, the value that
  is shown is one too small.\<close>

theorem relativize_id_step:
  assumes "0 \<le> last_id t" "last_id t \<le> 65535" "last_seq t < seqnum" "0 \<le> d" "d * (seqnum - last_seq t) < 65536"
  shows "fst (snd (relativize_id seqnum ((last_id t + d * (seqnum - last_seq t)) mod 65536) t))
    = (if last_id t + d * (seqnum - last_seq t) < 65536 then d else d - 1)"
proof -
  let ?n = "seqnum - last_seq t"
  let ?x = "last_id t + d * ?n"
  have n: "0 < ?n" "0 \<le> d * ?n" using assms(3,4) by simp_all
  show ?thesis
  proof (cases "?x < 65536")
    case True
    have m: "?x mod 65536 = ?x" using True n assms(1) by (intro mod_pos_pos_trivial) auto
    have "\<not> last_id t > ?x" "last_id t \<noteq> -1" using n assms(1) by linarith+
    moreover have "(?x - last_id t) div ?n = d" using n by simp
    ultimately show ?thesis using True n(1) by (simp only: relativize_id_def Let_def m if_False if_True fst_conv snd_conv)
  next
    case False
    have "?x mod 65536 = (?x - 65536) mod 65536" by simp
    also have "\<dots> = ?x - 65536" using False assms by (intro mod_pos_pos_trivial) auto
    finally have m: "?x mod 65536 = ?x - 65536" .
    have "(d * ?n - 1) div ?n = d - 1"
    proof -
      have "d * ?n - 1 = (d - 1) * ?n + (?n - 1)" by (simp add: algebra_simps)
      then have "(d * ?n - 1) div ?n = (d - 1) + (?n - 1) div ?n" using n by (simp only: div_mult_self3)
      then show ?thesis using n by (simp add: div_pos_pos_trivial)
    qed
    moreover have "65535 - last_id t + (?x - 65536) = d * ?n - 1" by simp
    ultimately show ?thesis using False m n assms by (simp only: relativize_id_def Let_def m) simp
  qed
qed

theorem relativize_id_step_witness:
  "fst (snd (relativize_id 8 4 (tool_init demo_env\<lparr>last_id := 65535, last_seq := 7\<rparr>))) = 4"
  using relativize_id_step [of "tool_init demo_env\<lparr>last_id := 65535, last_seq := 7\<rparr>" 8 5] by simp

end
