(* ===== verification/Send.thy ===== *)
theory Send
  imports Tool Receiver
begin

text \<open>
  Sending probes: IP options (ip_opt_build.c), the data of a probe (datafiller.c,
  datahandler.c), datagrams and fragments (sendip.c, sendip_handler.c), the probes of each mode
  (sendtcp.c, sendudp.c, sendicmp.c, sendrawip.c, sendhcmp.c) and the choice between them
  (send.c).

  \<open>wire\<close> collects the datagrams that are handed to \<open>sendto\<close>; what is printed is not modelled.
  The Linux branches of the code are modelled (\<open>tot_len\<close> and \<open>frag_off\<close> in network order).  A
  result \<open>None\<close> is an access outside of a block or a loop that does not end.
\<close>

section \<open>IP options\<close>

text \<open>\<open>inet_addr("1.2.3.4")\<close> in memory.\<close>

definition rr_address :: bytes where "rr_address = [1, 2, 3, 4]"

text \<open>The state while the options are put together: the buffer of 40 bytes and \<open>optlen\<close>.\<close>

definition source_route :: "bytes \<Rightarrow> u32 \<Rightarrow> bytes \<times> u8 \<Rightarrow> (bool \<times> bytes \<times> u8) option" where
  "source_route route n = (\<lambda>(opt, optlen).
     if unat (n + ucast optlen) \<le> 39
     then do {
       bs \<leftarrow> ld route 0 (unat n);
       opt \<leftarrow> st opt (unat optlen) bs;
       Some (True, opt, optlen + ucast n)
     }
     else Some (False, opt, optlen))"

text \<open>The first route goes to the start of the buffer.\<close>

definition opt_build_lsrr :: "tool \<Rightarrow> bytes \<times> u8 \<Rightarrow> (tool \<times> bytes \<times> u8) option" where
  "opt_build_lsrr t s =
     (if opt_lsrr (cfg t) then do {
        (ok, s) \<leftarrow> source_route (lsr (cfg t)) (lsr_length (cfg t)) s;
        Some (if ok then t else upd_cfg (\<lambda>c. c\<lparr>opt_lsrr := False\<rparr>) t, s)
      }
      else Some (t, s))"

definition opt_build_ssrr :: "tool \<Rightarrow> bytes \<times> u8 \<Rightarrow> (tool \<times> bytes \<times> u8) option" where
  "opt_build_ssrr t s =
     (if opt_ssrr (cfg t) then do {
        (ok, s) \<leftarrow> source_route (ssr (cfg t)) (ssr_length (cfg t)) s;
        Some (if ok then t else upd_cfg (\<lambda>c. c\<lparr>opt_ssrr := False\<rparr>) t, s)
      }
      else Some (t, s))"

definition opt_build_rroute :: "tool \<Rightarrow> bytes \<times> u8 \<Rightarrow> (tool \<times> bytes \<times> u8) option" where
  "opt_build_rroute t = (\<lambda>(opt, optlen).
     if opt_rroute (cfg t) then
       if unat optlen \<le> 33
       then do {
         opt \<leftarrow> st opt (unat optlen) [7, 39 - optlen, 8];
         opt \<leftarrow> st opt (unat optlen + 3) rr_address;
         Some (t, opt, 39)
       }
       else Some (upd_cfg (\<lambda>c. c\<lparr>opt_rroute := False\<rparr>) t, opt, optlen)
     else Some (t, opt, optlen))"

text \<open>The result is \<open>optlen\<close>, the buffer and the configuration with the options that did not fit
  switched off.\<close>

definition ip_opt_build :: "tool \<Rightarrow> (u8 \<times> bytes \<times> tool) option" where
  "ip_opt_build t = do {
     (t, s) \<leftarrow> opt_build_lsrr t (replicate 40 1, 0);
     (t, s) \<leftarrow> opt_build_ssrr t s;
     (t, opt, optlen) \<leftarrow> opt_build_rroute t s;
     if optlen \<noteq> 0
     then let optlen = (optlen + 3) AND NOT 3 in do {
       opt \<leftarrow> st8 opt (unat optlen - 1) 0;
       Some (optlen, opt, t)
     }
     else Some (0, opt, t)
   }"

section \<open>The data of a probe\<close>

text \<open>Reading \<open>sz\<close> bytes of the data file at the current position.  The file is read again from the
  start at its end unless --end was given; a file without data is then read for ever.\<close>

partial_function (option) datafiller_read :: "bytes \<Rightarrow> bool \<Rightarrow> nat \<Rightarrow> nat \<Rightarrow> (bytes \<times> nat \<times> bool) option" where
  "datafiller_read file at_end pos sz =
     (let readed = take sz (drop pos file); n = length readed in
      if n = sz then Some (readed, pos + n, False)
      else if \<not> at_end then
        if n = 0 then datafiller_read file at_end 0 sz
        else Some (readed @ replicate (sz - n) 0, 0, False)
      else Some (readed @ replicate (sz - n) 0, 0, True))"

definition X_bytes :: "nat \<Rightarrow> bytes" where "X_bytes n = replicate n 88"

text \<open>\<open>datafiller(p, size)\<close> with a buffer: what it writes there.  The file is opened once.\<close>

definition datafiller :: "nat \<Rightarrow> tool \<Rightarrow> (bytes \<times> tool) option" where
  "datafiller sz t =
     (case data_file (env t) of
        None \<Rightarrow> Some (X_bytes sz, t)
      | Some file \<Rightarrow> do {
          (bs, pos, eof) \<leftarrow> datafiller_read file (opt_end (cfg t)) (case data_pos t of None \<Rightarrow> 0 | Some p \<Rightarrow> p) sz;
          let t = t\<lparr>data_pos := Some pos\<rparr>
          in Some (bs, if eof then upd_ctx (\<lambda>c. c\<lparr>eof_reached := True\<rparr>) t else t)
        })"

text \<open>\<open>datafiller(NULL, size)\<close>: the seek operation.  Without a file the buffer, \<open>NULL\<close>, is filled.\<close>

definition datafiller_seek :: "int \<Rightarrow> tool \<Rightarrow> tool option" where
  "datafiller_seek n t =
     (case data_file (env t) of
        None \<Rightarrow> if n = 0 then Some t else None
      | Some file \<Rightarrow> Some (t\<lparr>data_pos := Some (unat ((ucast (data_size (cfg t)) - signlen (cfg t)) * word_of_int (n - 1)))\<rparr>))"

definition to_bytes :: "string \<Rightarrow> bytes" where
  "to_bytes = map of_char"

text \<open>A \<open>char[1024]\<close> with a string in it.\<close>

definition buffer1024 :: "string \<Rightarrow> bytes" where
  "buffer1024 s = take 1024 (to_bytes s) @ replicate (1024 - length s) 0"

definition data_handler :: "nat \<Rightarrow> tool \<Rightarrow> (bytes \<times> tool) option" where
  "data_handler sz t =
     (if opt_listenmode (cfg t) then
        if unat (signlen (cfg t)) > sz then None
        else do {
          sign \<leftarrow> ld (buffer1024 (rsign (ctx t))) 0 (unat (signlen (cfg t)));
          hcmp \<leftarrow> ld (hcmphdr_p (ctx t)) 0 (sz - unat (signlen (cfg t)));
          Some (sign @ hcmp, t)
        }
      else do {
        sign \<leftarrow> (if opt_sign (cfg t)
          then if unat (signlen (cfg t)) > sz then None else ld (buffer1024 (cfg_sign (cfg t))) 0 (unat (signlen (cfg t)))
          else Some []);
        let left = sz - length sign in
        if left = 0 then Some (sign, t)
        else if opt_datafromfile (cfg t) then do {
          (bs, t) \<leftarrow> datafiller left t;
          Some (sign @ bs, t)
        }
        else Some (sign @ X_bytes left, t)
      })"

section \<open>Datagrams\<close>

abbreviation (input) MF :: u16 where "MF \<equiv> 0x2000"
abbreviation (input) DF :: u16 where "DF \<equiv> 0x4000"
abbreviation (input) NF :: u16 where "NF \<equiv> 0"

definition be_bytes :: "u16 \<Rightarrow> bytes" where
  "be_bytes w = bytes16 (htons w)"

definition ip_protocol_of :: "hping_config \<Rightarrow> u8" where
  "ip_protocol_of c = (if opt_rawipmode c then word_of_int (raw_ip_protocol c)
     else if opt_icmpmode c then 1 else if opt_udpmode c then 17 else 6)"

text \<open>The identification of a datagram.\<close>

definition ip_id :: "tool \<Rightarrow> (u16 \<times> tool) option" where
  "ip_id t =
     (if src_id (cfg t) \<noteq> -1 then Some (word_of_int (src_id (cfg t)), t)
      else if opt_fragment (cfg t) then Some (word_of_nat (pid (env t) mod 256), t)
      else map_option (apfst ucast) (hping_rand t))"

definition ip_header :: "hping_config \<Rightarrow> u32 \<Rightarrow> u32 \<Rightarrow> nat \<Rightarrow> nat \<Rightarrow> u16 \<Rightarrow> u16 \<Rightarrow> u16 \<Rightarrow> bytes" where
  "ip_header c source dest optlen packetsize ident more_fragments fragoff =
     [0x40 OR (word_of_nat ((20 + optlen + 3) div 4) AND 0x0f), ucast (ip_tos c)] @ be_bytes (word_of_nat packetsize) @ be_bytes ident
     @ bytes16 (htons more_fragments OR htons (drop_bit 3 fragoff))
     @ [word_of_int (src_ttl c), ip_protocol_of c, 0, 0] @ bytes32 source @ bytes32 dest"

text \<open>The source and destination are those of the context.\<close>

definition send_ip :: "bytes \<Rightarrow> u16 \<Rightarrow> u16 \<Rightarrow> bytes \<Rightarrow> nat \<Rightarrow> tool \<Rightarrow> (int \<times> tool) option" where
  "send_ip data more_fragments fragoff options optlen t =
     (let packetsize = 20 + optlen + length data;
          next_id = (\<lambda>t. if opt_safe (cfg t) \<and> \<not> eof_reached (ctx t) then upd_cfg (\<lambda>c. c\<lparr>src_id := src_id c + 1\<rparr>) t else t)
      in if \<not> mem (env t) packetsize then Some (-1, t)
         else do {
           (ident, t) \<leftarrow> ip_id t;
           opts \<leftarrow> ld options 0 optlen;
           let packet = ip_header (cfg t) (local_addr (ctx t)) (remote_addr (ctx t)) optlen packetsize ident more_fragments fragoff
             @ opts @ data
           in if opt_dry_run (cfg t) then Some (0, next_id t)
              else let ok = sendto_ok (env t) (sends t);
                       t = t\<lparr>wire := wire t @ [packet], sends := sends t + 1\<rparr>
                in if \<not> ok \<and> \<not> opt_rand_dest (cfg t) \<and> \<not> opt_rand_source (cfg t) then Some (-1, t)
                   else Some (0, next_id t)
         })"

text \<open>The fragments: \<open>off\<close> is \<open>frag_offset\<close>, \<open>remainder\<close> what is left; both are unsigned int (or
  int) in the code.  All but the last result of \<open>send_ip\<close> are ignored.\<close>

partial_function (option) send_fragments :: "bytes \<Rightarrow> nat \<Rightarrow> u32 \<Rightarrow> tool \<Rightarrow> (int \<times> tool) option" where
  "send_fragments packet off remainder t =
     (if remainder \<le> virtual_mtu (cfg t) then
        Option.bind (ld packet off (unat remainder)) (\<lambda>data.
          send_ip data NF (word_of_nat off) (ip_opt (ctx t)) (unat (ip_optlen (ctx t))) t)
      else
        Option.bind (ld packet off (unat (virtual_mtu (cfg t)))) (\<lambda>data.
          Option.bind (send_ip data MF (word_of_nat off) (ip_opt (ctx t)) (unat (ip_optlen (ctx t))) t) (\<lambda>(rc, t).
            send_fragments packet (off + unat (virtual_mtu (cfg t))) (remainder - virtual_mtu (cfg t)) t)))"

text \<open>Fragmentation starts by itself when the datagram does not fit the interface.\<close>

definition auto_fragment :: "u32 \<Rightarrow> tool \<Rightarrow> tool" where
  "auto_fragment sz t =
     (if \<not> opt_fragment (cfg t) \<and> sz + ip_optlen (ctx t) + 20 \<ge> h_if_mtu (ctx t)
      then upd_cfg (\<lambda>c. let m = h_if_mtu (ctx t) - 20 in
        c\<lparr>virtual_mtu := m - m mod 8, opt_fragment := True, opt_mf := False, opt_df := False\<rparr>) t
      else t)"

definition send_ip_handler :: "bytes \<Rightarrow> tool \<Rightarrow> (int \<times> tool) option" where
  "send_ip_handler packet t = do {
     (optlen, opt, t) \<leftarrow> ip_opt_build t;
     let t = upd_ctx (\<lambda>c. c\<lparr>ip_optlen := ucast optlen, ip_opt := opt\<rparr>) t;
         t = auto_fragment (word_of_nat (length packet)) t
     in if \<not> opt_fragment (cfg t)
        then send_ip packet ((if opt_mf (cfg t) then MF else 0) OR (if opt_df (cfg t) then DF else 0))
               (ucast (ip_frag_offset (cfg t))) (ip_opt (ctx t)) (unat (ip_optlen (ctx t))) t
        else send_fragments packet 0 (word_of_nat (length packet)) t
   }"

section \<open>Facts: options\<close>

lemma tool_kept [simp]:
  "cfg (t\<lparr>wire := w, sends := n\<rparr>) = cfg t" "ctx (t\<lparr>wire := w, sends := n\<rparr>) = ctx t"
  by simp_all

text \<open>The configuration may lose options that did not fit; everything else stays.\<close>

definition cfg_opts :: "hping_config \<Rightarrow> bool \<Rightarrow> bool \<Rightarrow> bool \<Rightarrow> hping_config" where
  "cfg_opts k a b c = k\<lparr>opt_lsrr := a, opt_ssrr := b, opt_rroute := c\<rparr>"

lemma cfg_opts_same [simp]: "cfg_opts k (opt_lsrr k) (opt_ssrr k) (opt_rroute k) = k"
  by (simp add: cfg_opts_def)

lemma cfg_opts_upd [simp]:
  "(cfg_opts k a b c)\<lparr>opt_lsrr := d\<rparr> = cfg_opts k d b c"
  "(cfg_opts k a b c)\<lparr>opt_ssrr := d\<rparr> = cfg_opts k a d c"
  "(cfg_opts k a b c)\<lparr>opt_rroute := d\<rparr> = cfg_opts k a b d"
  by (simp_all add: cfg_opts_def)

lemma cfg_opts_fields [simp]:
  "lsr (cfg_opts k a b c) = lsr k" "ssr (cfg_opts k a b c) = ssr k" "lsr_length (cfg_opts k a b c) = lsr_length k"
  "ssr_length (cfg_opts k a b c) = ssr_length k" "virtual_mtu (cfg_opts k a b c) = virtual_mtu k"
  "opt_fragment (cfg_opts k a b c) = opt_fragment k" "src_id (cfg_opts k a b c) = src_id k" "opt_safe (cfg_opts k a b c) = opt_safe k"
  "opt_dry_run (cfg_opts k a b c) = opt_dry_run k" "opt_mf (cfg_opts k a b c) = opt_mf k" "opt_df (cfg_opts k a b c) = opt_df k"
  "ip_frag_offset (cfg_opts k a b c) = ip_frag_offset k" "ip_protocol_of (cfg_opts k a b c) = ip_protocol_of k"
  "opt_rand_dest (cfg_opts k a b c) = opt_rand_dest k" "opt_rand_source (cfg_opts k a b c) = opt_rand_source k"
  by (simp_all add: cfg_opts_def ip_protocol_of_def)

definition opts_only :: "tool \<Rightarrow> tool \<Rightarrow> bool" where
  "opts_only t t' \<longleftrightarrow> (\<exists>a b c. t' = t\<lparr>cfg := cfg_opts (cfg t) a b c\<rparr>)"

lemma opts_only_refl: "opts_only t t"
  unfolding opts_only_def
  by (intro exI [of _ "opt_lsrr (cfg t)"] exI [of _ "opt_ssrr (cfg t)"] exI [of _ "opt_rroute (cfg t)"]) simp

lemma opts_only_upd:
  assumes "opts_only t t'"
  shows "opts_only t (upd_cfg (\<lambda>c. c\<lparr>opt_lsrr := d\<rparr>) t')" "opts_only t (upd_cfg (\<lambda>c. c\<lparr>opt_ssrr := d\<rparr>) t')"
    "opts_only t (upd_cfg (\<lambda>c. c\<lparr>opt_rroute := d\<rparr>) t')"
proof -
  obtain a b c where t': "t' = t\<lparr>cfg := cfg_opts (cfg t) a b c\<rparr>" using assms by (auto simp: opts_only_def)
  have "upd_cfg (\<lambda>c. c\<lparr>opt_lsrr := d\<rparr>) t' = t\<lparr>cfg := cfg_opts (cfg t) d b c\<rparr>"
    "upd_cfg (\<lambda>c. c\<lparr>opt_ssrr := d\<rparr>) t' = t\<lparr>cfg := cfg_opts (cfg t) a d c\<rparr>"
    "upd_cfg (\<lambda>c. c\<lparr>opt_rroute := d\<rparr>) t' = t\<lparr>cfg := cfg_opts (cfg t) a b d\<rparr>"
    by (simp_all add: upd_cfg_def t')
  then show "opts_only t (upd_cfg (\<lambda>c. c\<lparr>opt_lsrr := d\<rparr>) t')" "opts_only t (upd_cfg (\<lambda>c. c\<lparr>opt_ssrr := d\<rparr>) t')"
    "opts_only t (upd_cfg (\<lambda>c. c\<lparr>opt_rroute := d\<rparr>) t')"
    unfolding opts_only_def by blast+
qed

lemma opts_only_fields:
  assumes "opts_only t t'"
  shows "ctx t' = ctx t" "env t' = env t" "wire t' = wire t" "stats t' = stats t" "sends t' = sends t"
    "lsr (cfg t') = lsr (cfg t)" "ssr (cfg t') = ssr (cfg t)" "virtual_mtu (cfg t') = virtual_mtu (cfg t)"
    "opt_fragment (cfg t') = opt_fragment (cfg t)" "opt_dry_run (cfg t') = opt_dry_run (cfg t)"
    "opt_mf (cfg t') = opt_mf (cfg t)" "opt_df (cfg t') = opt_df (cfg t)" "ip_frag_offset (cfg t') = ip_frag_offset (cfg t)"
  using assms by (auto simp: opts_only_def)

text \<open>The options stay inside of their buffer at every stage.\<close>

definition opts_fit :: "bytes \<times> u8 \<Rightarrow> bool" where
  "opts_fit = (\<lambda>(opt, optlen). length opt = 40 \<and> unat optlen \<le> 39)"

lemma unat_u8_plus: "unat a + unat b < 256 \<Longrightarrow> unat (a + b :: u8) = unat a + unat b"
  by (simp add: unat_word_ariths)

lemma source_route_fits:
  assumes "opts_fit s" "length route = 255" "unat n \<le> 255"
  shows "\<exists>ok s'. source_route route n s = Some (ok, s') \<and> opts_fit s'"
proof -
  obtain opt optlen where s: "s = (opt, optlen)" by (cases s)
  have fit: "length opt = 40" "unat optlen \<le> 39" using assms(1) by (simp_all add: opts_fit_def s)
  have "unat (ucast optlen :: u32) = unat optlen" using fit(2) by (simp add: unat_ucast_mod)
  then have sum: "unat (n + ucast optlen) = unat n + unat optlen" using fit(2) assms(3) by (simp add: unat_word_ariths)
  show ?thesis
  proof (cases "unat n + unat optlen \<le> 39")
    case True
    then have "unat (ucast n :: u8) = unat n" by (simp add: unat_ucast_mod)
    then have l: "unat (optlen + ucast n) = unat n + unat optlen" using True by (simp add: unat_u8_plus)
    have bs: "ld route 0 (unat n) = Some (take (unat n) route)" using assms(2,3) by (simp add: ld_def)
    have "unat optlen + length (take (unat n) route) \<le> length opt" using True fit(1) by (simp add: min_def)
    then obtain opt' where o: "st opt (unat optlen) (take (unat n) route) = Some opt'"
      using st_defined_iff by blast
    then have "length opt' = 40" using fit(1) by (simp add: length_st)
    then have "source_route route n s = Some (True, opt', optlen + ucast n) \<and> opts_fit (opt', optlen + ucast n)"
      using True bs o l sum by (simp add: source_route_def s opts_fit_def)
    then show ?thesis by blast
  next
    case False
    then have "source_route route n s = Some (False, s)" using sum by (simp add: source_route_def s)
    then show ?thesis using assms(1) by blast
  qed
qed

lemma round_up_4: "unat (w :: u8) \<le> 39 \<Longrightarrow> unat ((w + 3) AND NOT 3) = (unat w + 3) div 4 * 4"
proof -
  have c: "list_all (\<lambda>n. unat ((word_of_nat n + 3) AND NOT (3 :: u8)) = (n + 3) div 4 * 4) [0..<40]" by code_simp
  assume "unat w \<le> 39"
  then have "unat w \<in> set [0..<40]" by simp
  with c have "unat ((word_of_nat (unat w) + 3) AND NOT (3 :: u8)) = (unat w + 3) div 4 * 4"
    unfolding list_all_iff by (rule bspec)
  then show ?thesis by (simp only: of_nat_unat ucast_id)
qed

text \<open>No configuration makes the construction leave its buffer, and the length it yields is that of
  whole words of at most 40 bytes.\<close>

lemma ip_opt_build_spec:
  assumes "length (lsr (cfg t)) = 255" "length (ssr (cfg t)) = 255" "unat (lsr_length (cfg t)) \<le> 255" "unat (ssr_length (cfg t)) \<le> 255"
  shows "\<exists>optlen opt t'. ip_opt_build t = Some (optlen, opt, t') \<and> opts_only t t' \<and> length opt = 40
    \<and> unat optlen \<le> 40 \<and> unat optlen mod 4 = 0"
proof -
  have s0: "opts_fit (replicate 40 1, 0)" by (simp add: opts_fit_def)
  obtain ok1 s1' where r1: "source_route (lsr (cfg t)) (lsr_length (cfg t)) (replicate 40 1, 0) = Some (ok1, s1')" "opts_fit s1'"
    using source_route_fits [OF s0 assms(1,3)] by blast
  have "\<exists>t1 s1. opt_build_lsrr t (replicate 40 1, 0) = Some (t1, s1) \<and> opts_only t t1 \<and> opts_fit s1"
    using r1 s0 by (cases ok1; cases "opt_lsrr (cfg t)") (simp_all add: opt_build_lsrr_def opts_only_refl opts_only_upd)
  then obtain t1 s1 where 1: "opt_build_lsrr t (replicate 40 1, 0) = Some (t1, s1)" "opts_only t t1" "opts_fit s1" by blast
  have c1: "length (ssr (cfg t1)) = 255" "unat (ssr_length (cfg t1)) \<le> 255"
    using 1(2) assms(2,4) by (auto simp: opts_only_def)
  obtain ok2 s2' where r2: "source_route (ssr (cfg t1)) (ssr_length (cfg t1)) s1 = Some (ok2, s2')" "opts_fit s2'"
    using source_route_fits [OF 1(3) c1] by blast
  have "\<exists>t2 s2. opt_build_ssrr t1 s1 = Some (t2, s2) \<and> opts_only t t2 \<and> opts_fit s2"
    using r2 1 by (cases ok2; cases "opt_ssrr (cfg t1)") (simp_all add: opt_build_ssrr_def opts_only_upd)
  then obtain t2 s2 where 2: "opt_build_ssrr t1 s1 = Some (t2, s2)" "opts_only t t2" "opts_fit s2" by blast
  obtain opt2 len2 where s2: "s2 = (opt2, len2)" by (cases s2)
  have f2: "length opt2 = 40" "unat len2 \<le> 39" using 2(3) by (simp_all add: s2 opts_fit_def)
  have "\<exists>t3 opt3 len3. opt_build_rroute t2 s2 = Some (t3, opt3, len3) \<and> opts_only t t3 \<and> opts_fit (opt3, len3)"
  proof (cases "opt_rroute (cfg t2) \<and> unat len2 \<le> 33")
    case True
    obtain a where a: "st opt2 (unat len2) [7, 39 - len2, 8] = Some a" using True f2 by (auto simp: st_def)
    then have la: "length a = 40" using f2 by (simp add: length_st)
    obtain b where b: "st a (unat len2 + 3) rr_address = Some b" using True la by (auto simp: st_def rr_address_def)
    then have lb: "length b = 40" using la by (simp add: length_st)
    have "opt_build_rroute t2 s2 = Some (t2, b, 39)" using True a b by (simp add: opt_build_rroute_def s2)
    then show ?thesis using 2(2) lb by (auto simp: opts_fit_def)
  next
    case False
    then show ?thesis using 2 f2 by (auto simp: opt_build_rroute_def s2 opts_fit_def opts_only_upd)
  qed
  then obtain t3 opt3 len3 where 3: "opt_build_rroute t2 s2 = Some (t3, opt3, len3)" "opts_only t t3" "opts_fit (opt3, len3)" by blast
  have f3: "length opt3 = 40" "unat len3 \<le> 39" using 3(3) by (simp_all add: opts_fit_def)
  show ?thesis
  proof (cases "len3 = 0")
    case True
    then have "ip_opt_build t = Some (0, opt3, t3)" using 1(1) 2(1) 3(1) by (simp add: ip_opt_build_def)
    then show ?thesis using 3(2) f3 by auto
  next
    case False
    let ?n = "(len3 + 3) AND NOT 3"
    have n: "unat ?n = (unat len3 + 3) div 4 * 4" by (rule round_up_4 [OF f3(2)])
    have "0 < unat len3" using False by (simp add: unat_gt_0)
    then have r: "0 < unat ?n" "unat ?n \<le> 40" "unat ?n mod 4 = 0" using f3(2) unfolding n by auto
    have "unat ?n - 1 + length [0 :: u8] \<le> length opt3" using r(2) f3(1) by simp
    then obtain opt4 where o4: "st opt3 (unat ?n - 1) [0] = Some opt4" using st_defined_iff by blast
    then have "st8 opt3 (unat ?n - 1) 0 = Some opt4" "length opt4 = 40" using f3(1) by (simp_all add: st8_def length_st)
    then have "ip_opt_build t = Some (?n, opt4, t3)" using False 1(1) 2(1) 3(1) by (simp add: ip_opt_build_def Let_def)
    then show ?thesis using 3(2) r \<open>length opt4 = 40\<close> by (intro exI conjI)
  qed
qed

section \<open>Facts: fragments\<close>

text \<open>What a receiver reads in a datagram.\<close>

definition payload :: "bytes \<Rightarrow> bytes" where
  "payload d = drop (4 * unat (d ! 0 AND 0x0f)) d"

definition more_frags :: "bytes \<Rightarrow> bool" where
  "more_frags d \<longleftrightarrow> d ! 6 AND 0x20 \<noteq> 0"

definition frag_off :: "bytes \<Rightarrow> nat" where
  "frag_off d = 8 * (256 * unat (d ! 6 AND 0x1f) + unat (d ! 7))"

lemma length_be_bytes [simp]: "length (be_bytes w) = 2"
  by (simp add: be_bytes_def)

lemma be_bytes_eq: "be_bytes w = [ucast (drop_bit 8 w), ucast w]"
  by (simp add: be_bytes_def htons_def)

lemma bytes16_or: "bytes16 (a OR b) = [ucast a OR ucast b, ucast (drop_bit 8 a) OR ucast (drop_bit 8 b)]"
  by (simp add: bytes16_def unsigned_or_eq drop_bit_or)

lemma bytes16_htons_or:
  "bytes16 (htons a OR htons b) = [ucast (drop_bit 8 a) OR ucast (drop_bit 8 b), ucast a OR ucast b]"
proof -
  have "ucast (htons w) = (ucast (drop_bit 8 w) :: u8)" "ucast (drop_bit 8 (htons w)) = (ucast w :: u8)" for w
    by (simp_all add: htons_def low_le16 high_le16)
  then show ?thesis by (simp only: bytes16_or)
qed

lemma length_ip_header [simp]: "length (ip_header c s d optlen n i m f) = 20"
  by (simp add: ip_header_def)

lemma list20_nth:
  "[a0, a1, a2, a3, a4, a5, a6, a7, a8, a9, a10, a11, a12, a13, a14, a15, a16, a17, a18, a19] ! 0 = a0"
  "[a0, a1, a2, a3, a4, a5, a6, a7, a8, a9, a10, a11, a12, a13, a14, a15, a16, a17, a18, a19] ! 6 = a6"
  "[a0, a1, a2, a3, a4, a5, a6, a7, a8, a9, a10, a11, a12, a13, a14, a15, a16, a17, a18, a19] ! 7 = a7"
  "[a0, a1, a2, a3, a4, a5, a6, a7, a8, a9, a10, a11, a12, a13, a14, a15, a16, a17, a18, a19] ! 9 = a9"
  "take 2 (drop 4 [a0, a1, a2, a3, a4, a5, a6, a7, a8, a9, a10, a11, a12, a13, a14, a15, a16, a17, a18, a19]) = [a4, a5]"
  "take 8 (drop 12 [a0, a1, a2, a3, a4, a5, a6, a7, a8, a9, a10, a11, a12, a13, a14, a15, a16, a17, a18, a19])
    = [a12, a13, a14, a15, a16, a17, a18, a19]"
  by simp_all

lemma ip_header_nth:
  "ip_header c s d optlen n i m f ! 0 = 0x40 OR (word_of_nat ((20 + optlen + 3) div 4) AND 0x0f)"
  "ip_header c s d optlen n i m f ! 6 = ucast (drop_bit 8 m) OR ucast (drop_bit 8 (drop_bit 3 f))"
  "ip_header c s d optlen n i m f ! 7 = ucast m OR ucast (drop_bit 3 f)"
  "ip_header c s d optlen n i m f ! 9 = ip_protocol_of c"
  "take 2 (drop 4 (ip_header c s d optlen n i m f)) = be_bytes i"
  "take 8 (drop 12 (ip_header c s d optlen n i m f)) = bytes32 s @ bytes32 d"
  by (simp_all only: ip_header_def bytes16_htons_or be_bytes_eq bytes32_def append.simps list20_nth)

text \<open>The header length in the first byte is that of the header with its options.\<close>

lemma hdr_length_byte:
  "optlen \<le> 40 \<Longrightarrow> optlen mod 4 = 0 \<Longrightarrow> 4 * unat ((0x40 OR (word_of_nat ((20 + optlen + 3) div 4) AND 0x0f)) AND (0x0f :: u8)) = 20 + optlen"
proof -
  have c: "list_all (\<lambda>n. n mod 4 = 0 \<longrightarrow> 4 * unat ((0x40 OR (word_of_nat ((20 + n + 3) div 4) AND 0x0f)) AND (0x0f :: u8)) = 20 + n) [0..<41]"
    by code_simp
  assume "optlen \<le> 40" "optlen mod 4 = 0"
  then have "optlen \<in> set [0..<41]" by simp
  with c have "optlen mod 4 = 0 \<longrightarrow> 4 * unat ((0x40 OR (word_of_nat ((20 + optlen + 3) div 4) AND 0x0f)) AND (0x0f :: u8)) = 20 + optlen"
    unfolding list_all_iff by (rule bspec)
  then show ?thesis using \<open>optlen mod 4 = 0\<close> by (rule mp)
qed

text \<open>The fragment word: three flag bits and the offset in units of eight bytes.\<close>

lemma flag_byte:
  assumes "b < (32 :: u8)"
  shows "(b AND 0x1f) = b" "((0x20 OR b) AND 0x1f) = b" "(b AND 0x20) = 0" "((0x20 OR b) AND 0x20) \<noteq> 0"
proof -
  have c: "list_all (\<lambda>n. (of_nat n AND 0x1f) = (of_nat n :: u8) \<and> ((0x20 OR of_nat n) AND 0x1f) = (of_nat n :: u8)
      \<and> (of_nat n AND 0x20) = (0 :: u8) \<and> ((0x20 OR of_nat n) AND 0x20) \<noteq> (0 :: u8)) [0..<32]" by code_simp
  have "unat b < 32" using assms by (simp add: word_less_nat_alt)
  then have "unat b \<in> set [0..<32]" by simp
  with c show "(b AND 0x1f) = b" "((0x20 OR b) AND 0x1f) = b" "(b AND 0x20) = 0" "((0x20 OR b) AND 0x20) \<noteq> 0"
    unfolding list_all_iff by (auto dest!: bspec [where x = "unat b"])
qed

lemma fragoff_bytes:
  assumes "off < 65536" "8 dvd off"
  shows "(ucast (drop_bit 8 (drop_bit 3 (word_of_nat off :: u16))) :: u8) < 32"
    "8 * (256 * unat (ucast (drop_bit 8 (drop_bit 3 (word_of_nat off :: u16))) :: u8) + unat (ucast (drop_bit 3 (word_of_nat off :: u16)) :: u8)) = off"
proof -
  have u: "unat (word_of_nat off :: u16) = off" using assms(1) by (simp add: unat_of_nat take_bit_nat_eq_self_iff)
  have w: "unat (drop_bit 3 (word_of_nat off :: u16)) = off div 8" by (simp add: drop_bit_eq_div unat_div u)
  have h: "unat (ucast (drop_bit 8 (drop_bit 3 (word_of_nat off :: u16))) :: u8) = off div 8 div 256"
    by (simp only: unat_high_byte16 w)
  have l: "unat (ucast (drop_bit 3 (word_of_nat off :: u16)) :: u8) = off div 8 mod 256" by (simp only: unat_low_byte16 w)
  have "off div 8 div 256 < 32" using assms(1) by (simp add: less_mult_imp_div_less)
  then show "(ucast (drop_bit 8 (drop_bit 3 (word_of_nat off :: u16))) :: u8) < 32"
    by (simp only: word_less_nat_alt h) simp
  show "8 * (256 * unat (ucast (drop_bit 8 (drop_bit 3 (word_of_nat off :: u16))) :: u8) + unat (ucast (drop_bit 3 (word_of_nat off :: u16)) :: u8)) = off"
    using assms(2) unfolding h l by simp
qed

text \<open>When a fragmented probe can be sent without an error of the system.\<close>

definition frag_ready :: "tool \<Rightarrow> bool" where
  "frag_ready t \<longleftrightarrow> opt_fragment (cfg t) \<and> (\<forall>n. mem (env t) n) \<and> \<not> opt_dry_run (cfg t) \<and> \<not> opt_safe (cfg t)
     \<and> length (ip_opt (ctx t)) = 40 \<and> unat (ip_optlen (ctx t)) \<le> 40 \<and> unat (ip_optlen (ctx t)) mod 4 = 0"

definition frag_id :: "tool \<Rightarrow> u16" where
  "frag_id t = (if src_id (cfg t) \<noteq> -1 then word_of_int (src_id (cfg t)) else word_of_nat (pid (env t) mod 256))"

text \<open>A fragment of a datagram of this configuration, with its data, offset and flag.\<close>

definition fragment_of :: "tool \<Rightarrow> bytes \<Rightarrow> nat \<Rightarrow> bool \<Rightarrow> bytes \<Rightarrow> bool" where
  "fragment_of t data off mflag d \<longleftrightarrow> payload d = data \<and> frag_off d = off \<and> more_frags d = mflag
     \<and> d ! 9 = ip_protocol_of (cfg t) \<and> take 2 (drop 4 d) = be_bytes (frag_id t)
     \<and> take 8 (drop 12 d) = bytes32 (local_addr (ctx t)) @ bytes32 (remote_addr (ctx t))"

lemma MF_bytes:
  "(ucast (MF :: u16) :: u8) = 0" "(ucast (drop_bit 8 (MF :: u16)) :: u8) = 0x20"
  "(ucast (NF :: u16) :: u8) = 0" "(ucast (drop_bit 8 (NF :: u16)) :: u8) = 0" "0 OR (b :: u8) = b"
  by (code_simp, code_simp, simp_all)

lemma send_ip_fragment:
  assumes "frag_ready t" "off < 65536" "8 dvd off"
  obtains rc d n where
    "send_ip data (if mflag then MF else NF) (word_of_nat off) (ip_opt (ctx t)) (unat (ip_optlen (ctx t))) t
       = Some (rc, t\<lparr>wire := wire t @ [d], sends := n\<rparr>)"
    "fragment_of t data off mflag d"
proof -
  note r = assms(1)[unfolded frag_ready_def]
  let ?n = "unat (ip_optlen (ctx t))" and ?mf = "if mflag then MF else NF"
  define h where "h = ip_header (cfg t) (local_addr (ctx t)) (remote_addr (ctx t)) ?n (20 + ?n + length data) (frag_id t) ?mf (word_of_nat off)"
  define opts where "opts = take ?n (ip_opt (ctx t))"
  define d where "d = h @ opts @ data"
  have ident: "ip_id t = Some (frag_id t, t)" using r by (simp add: ip_id_def frag_id_def)
  have ldo: "ld (ip_opt (ctx t)) 0 ?n = Some opts" using r by (simp add: ld_def opts_def)
  have lh: "length h = 20" by (simp add: h_def)
  have lo: "length opts = ?n" using r by (simp add: opts_def)
  have nth: "i < 20 \<Longrightarrow> d ! i = h ! i" for i by (simp add: d_def nth_append lh)
  note nths = nth [of 0, simplified] nth [of 6, simplified] nth [of 7, simplified] nth [of 9, simplified]
  have "4 * unat (d ! 0 AND 0x0f) = 20 + ?n"
    unfolding nths h_def ip_header_nth using r by (intro hdr_length_byte) auto
  then have pl: "payload d = data" by (simp add: payload_def d_def lh lo)
  note fb = fragoff_bytes [OF assms(2,3)]
  have d6: "d ! 6 = (if mflag then 0x20 else 0) OR ucast (drop_bit 8 (drop_bit 3 (word_of_nat off :: u16)))"
    "d ! 7 = ucast (drop_bit 3 (word_of_nat off :: u16))"
    unfolding nths h_def ip_header_nth by (cases mflag; simp only: if_True if_False MF_bytes)+
  have mf: "more_frags d = mflag" unfolding more_frags_def d6 using flag_byte [OF fb(1)] by (cases mflag) simp_all
  have "d ! 6 AND 0x1f = ucast (drop_bit 8 (drop_bit 3 (word_of_nat off :: u16)))"
    unfolding d6 using flag_byte [OF fb(1)] by (cases mflag) simp_all
  then have fo: "frag_off d = off" unfolding frag_off_def d6(2) using fb(2) by (simp only:)
  have "take 2 (drop 4 d) = take 2 (drop 4 h)" "take 8 (drop 12 d) = take 8 (drop 12 h)"
    by (simp_all add: d_def lh)
  then have ids: "take 2 (drop 4 d) = be_bytes (frag_id t)"
    "take 8 (drop 12 d) = bytes32 (local_addr (ctx t)) @ bytes32 (remote_addr (ctx t))"
    by (simp_all only: h_def ip_header_nth)
  have proto: "d ! 9 = ip_protocol_of (cfg t)" by (simp only: nths h_def ip_header_nth)
  have frag: "fragment_of t data off mflag d" using pl mf fo ids proto by (simp add: fragment_of_def)
  have cfgs: "cfg (t\<lparr>wire := w, sends := k\<rparr>) = cfg t" for w k by simp
  have "\<exists>rc. send_ip data ?mf (word_of_nat off) (ip_opt (ctx t)) ?n t = Some (rc, t\<lparr>wire := wire t @ [d], sends := sends t + 1\<rparr>)"
    using r ident ldo by (simp add: send_ip_def Let_def d_def h_def)
  then show thesis using that frag by blast
qed

lemma frag_ready_wire [simp]: "frag_ready (t\<lparr>wire := w, sends := n\<rparr>) = frag_ready t"
  by (simp add: frag_ready_def)

lemma fragment_of_wire [simp]: "fragment_of (t\<lparr>wire := w, sends := n\<rparr>) = fragment_of t"
  by (intro ext) (simp add: fragment_of_def frag_id_def)

text \<open>Fragments in order: the data are the pieces of the packet from \<open>off\<close> on.\<close>

fun fragments_of :: "tool \<Rightarrow> nat \<Rightarrow> nat \<Rightarrow> bytes \<Rightarrow> bytes list \<Rightarrow> bool" where
  "fragments_of t m off packet [] = False"
| "fragments_of t m off packet (d # ds) =
     (if ds = [] then fragment_of t packet off False d \<and> length packet \<le> m
      else fragment_of t (take m packet) off True d \<and> m < length packet \<and> fragments_of t m (off + m) (drop m packet) ds)"

lemma fragments_of_wire [simp]: "fragments_of (t\<lparr>wire := w, sends := n\<rparr>) m off packet ds = fragments_of t m off packet ds"
  by (induction t m off packet ds rule: fragments_of.induct) simp_all

lemma send_fragments_spec:
  assumes "frag_ready t" "0 < unat (virtual_mtu (cfg t))" "8 dvd unat (virtual_mtu (cfg t))" "8 dvd off"
    "off + unat remainder = length packet" "length packet < 65536"
  shows "\<exists>rc ds n. send_fragments packet off remainder t = Some (rc, t\<lparr>wire := wire t @ ds, sends := n\<rparr>)
    \<and> fragments_of t (unat (virtual_mtu (cfg t))) off (drop off packet) ds"
  using assms
proof (induction "unat remainder" arbitrary: remainder off t rule: less_induct)
  case (less remainder off t)
  let ?m = "virtual_mtu (cfg t)"
  have off: "off < 65536" using less.prems(5,6) by linarith
  show ?case
  proof (cases "remainder \<le> ?m")
    case True
    have data: "ld packet off (unat remainder) = Some (drop off packet)" using less.prems(5) by (simp add: ld_def)
    obtain rc d n where d: "send_ip (drop off packet) NF (word_of_nat off) (ip_opt (ctx t)) (unat (ip_optlen (ctx t))) t
        = Some (rc, t\<lparr>wire := wire t @ [d], sends := n\<rparr>)" "fragment_of t (drop off packet) off False d"
      by (rule send_ip_fragment [OF less.prems(1) off less.prems(4), where mflag = False, unfolded if_False])
    have "send_fragments packet off remainder t = Some (rc, t\<lparr>wire := wire t @ [d], sends := n\<rparr>)"
      by (subst send_fragments.simps) (simp add: True data d(1))
    moreover have "length packet - off \<le> unat ?m" using True less.prems(5) by (simp add: word_le_nat_alt)
    ultimately show ?thesis using d(2) by (intro exI [of _ rc] exI [of _ "[d]"] exI [of _ n]) simp
  next
    case False
    then have lt: "unat ?m < unat remainder" by (simp add: word_le_nat_alt)
    then have rm: "unat (remainder - ?m) = unat remainder - unat ?m" by (simp add: unat_sub word_le_nat_alt)
    have data: "ld packet off (unat ?m) = Some (take (unat ?m) (drop off packet))"
      using lt less.prems(5) by (simp add: ld_def)
    obtain rc d n where d: "send_ip (take (unat ?m) (drop off packet)) MF (word_of_nat off) (ip_opt (ctx t)) (unat (ip_optlen (ctx t))) t
        = Some (rc, t\<lparr>wire := wire t @ [d], sends := n\<rparr>)" "fragment_of t (take (unat ?m) (drop off packet)) off True d"
      by (rule send_ip_fragment [OF less.prems(1) off less.prems(4), where mflag = True, unfolded if_True])
    let ?t = "t\<lparr>wire := wire t @ [d], sends := n\<rparr>"
    have "\<exists>rc ds n. send_fragments packet (off + unat ?m) (remainder - ?m) ?t = Some (rc, ?t\<lparr>wire := wire ?t @ ds, sends := n\<rparr>)
      \<and> fragments_of ?t (unat (virtual_mtu (cfg ?t))) (off + unat ?m) (drop (off + unat ?m) packet) ds"
      using less.prems lt rm by (intro less.hyps) auto
    then obtain rc' ds n' where ds: "send_fragments packet (off + unat ?m) (remainder - ?m) ?t = Some (rc', ?t\<lparr>wire := wire ?t @ ds, sends := n'\<rparr>)"
      "fragments_of t (unat ?m) (off + unat ?m) (drop (off + unat ?m) packet) ds"
      unfolding fragments_of_wire tool_kept by blast
    have "send_fragments packet off remainder t = Some (rc', t\<lparr>wire := wire t @ d # ds, sends := n'\<rparr>)"
      by (subst send_fragments.simps) (simp add: False data d(1) ds(1))
    moreover have "ds \<noteq> []" using ds(2) by auto
    then have "fragments_of t (unat ?m) off (drop off packet) (d # ds)"
      using d(2) ds(2) lt less.prems(5) by (simp add: add.commute)
    ultimately show ?thesis by blast
  qed
qed

lemma fragments_reassemble_aux:
  assumes "fragments_of t m off packet ds" "0 < m"
  shows "concat (map payload ds) = packet"
    "i < length ds \<Longrightarrow> frag_off (ds ! i) = off + length (concat (map payload (take i ds))) \<and> more_frags (ds ! i) = (i < length ds - 1)
       \<and> length (payload (ds ! i)) \<le> m \<and> fragment_of t (payload (ds ! i)) (frag_off (ds ! i)) (more_frags (ds ! i)) (ds ! i)"
proof -
  have "concat (map payload ds) = packet \<and> (\<forall>i < length ds. frag_off (ds ! i) = off + length (concat (map payload (take i ds)))
     \<and> more_frags (ds ! i) = (i < length ds - 1) \<and> length (payload (ds ! i)) \<le> m
     \<and> fragment_of t (payload (ds ! i)) (frag_off (ds ! i)) (more_frags (ds ! i)) (ds ! i))"
    using assms
  proof (induction t m off packet ds rule: fragments_of.induct)
    case (2 t m off packet d ds)
    show ?case
    proof (cases "ds = []")
      case True
      then show ?thesis using 2 by (auto simp: fragment_of_def)
    next
      case False
      then have f: "fragment_of t (take m packet) off True d" "m < length packet" "fragments_of t m (off + m) (drop m packet) ds"
        using "2.prems" by simp_all
      note IH = "2.IH" [OF False f(3) "2.prems"(2)]
      have p: "payload d = take m packet" "frag_off d = off" "more_frags d" using f(1) by (simp_all add: fragment_of_def)
      have "length ds \<noteq> 0" using False by simp
      then show ?thesis
        using IH p f by (auto simp: less_Suc_eq_0_disj nth_Cons' take_Cons' less_diff_conv fragment_of_def)
    qed
  qed simp
  then show "concat (map payload ds) = packet"
    "i < length ds \<Longrightarrow> frag_off (ds ! i) = off + length (concat (map payload (take i ds))) \<and> more_frags (ds ! i) = (i < length ds - 1)
       \<and> length (payload (ds ! i)) \<le> m \<and> fragment_of t (payload (ds ! i)) (frag_off (ds ! i)) (more_frags (ds ! i)) (ds ! i)"
    by blast+
qed

section \<open>Facts: one datagram\<close>

definition rand_ok :: "tool \<Rightarrow> bool" where
  "rand_ok t \<longleftrightarrow> rc4_ok (rc4_state t)"

lemma hping_rand_total:
  assumes "rand_ok t"
  obtains w r n where "hping_rand t = Some (w, t\<lparr>rc4_state := r, rand_calls := n\<rparr>)" "rc4_ok r"
proof (cases "random_u32 (ctx t)")
  case System
  obtain w r where "hp_rand (seed (env t)) (rc4_state t) = Some (w, r)" "rc4_ok r"
    using hp_rand_run assms by (metis rand_ok_def)
  then have "hping_rand t = Some (w, t\<lparr>rc4_state := r, rand_calls := rand_calls t\<rparr>)" by (simp add: hping_rand_def System)
  then show thesis using that \<open>rc4_ok r\<close> by blast
next
  case (Installed f)
  then have "hping_rand t = Some (f (rand_calls t), t\<lparr>rc4_state := rc4_state t, rand_calls := rand_calls t + 1\<rparr>)"
    by (simp add: hping_rand_def)
  then show thesis by (rule that) (use assms in \<open>simp add: rand_ok_def\<close>)
qed

text \<open>A datagram as the remote host sees it: the data, the protocol and the addresses.\<close>

definition datagram_of :: "tool \<Rightarrow> bytes \<Rightarrow> bytes \<Rightarrow> bool" where
  "datagram_of t data d \<longleftrightarrow> payload d = data \<and> d ! 9 = ip_protocol_of (cfg t)
     \<and> take 8 (drop 12 d) = bytes32 (local_addr (ctx t)) @ bytes32 (remote_addr (ctx t))"

lemma ip_id_total:
  assumes "rand_ok t"
  obtains w r n where "ip_id t = Some (w, t\<lparr>rc4_state := r, rand_calls := n\<rparr>)" "rc4_ok r"
proof (cases "src_id (cfg t) \<noteq> -1 \<or> opt_fragment (cfg t)")
  case True
  then have "\<exists>w. ip_id t = Some (w, t\<lparr>rc4_state := rc4_state t, rand_calls := rand_calls t\<rparr>)" by (auto simp: ip_id_def)
  then obtain w where "ip_id t = Some (w, t\<lparr>rc4_state := rc4_state t, rand_calls := rand_calls t\<rparr>)" ..
  then show thesis by (rule that) (use assms in \<open>simp add: rand_ok_def\<close>)
next
  case False
  obtain w r n where "hping_rand t = Some (w, t\<lparr>rc4_state := r, rand_calls := n\<rparr>)" "rc4_ok r"
    using hping_rand_total [OF assms] .
  then show thesis using that False by (simp add: ip_id_def)
qed

lemma send_ip_datagram:
  assumes "rand_ok t" "\<forall>n. mem (env t) n" "\<not> opt_dry_run (cfg t)" "length opt = 40" "optlen \<le> 40" "optlen mod 4 = 0"
  obtains rc d t' where "send_ip data mf fo opt optlen t = Some (rc, t')" "wire t' = wire t @ [d]" "datagram_of t data d"
    "length d = 20 + optlen + length data" "rand_ok t'" "ctx t' = ctx t" "stats t' = stats t"
proof -
  obtain w r n where ident: "ip_id t = Some (w, t\<lparr>rc4_state := r, rand_calls := n\<rparr>)" "rc4_ok r" using ip_id_total [OF assms(1)] .
  define h where "h = ip_header (cfg t) (local_addr (ctx t)) (remote_addr (ctx t)) optlen (20 + optlen + length data) w mf fo"
  define opts where "opts = take optlen opt"
  define d where "d = h @ opts @ data"
  have ldo: "ld opt 0 optlen = Some opts" using assms by (simp add: ld_def opts_def)
  have lh: "length h = 20" by (simp add: h_def)
  have lo: "length opts = optlen" using assms by (simp add: opts_def)
  have nth: "i < 20 \<Longrightarrow> d ! i = h ! i" for i by (simp add: d_def nth_append lh)
  note nths = nth [of 0, simplified] nth [of 9, simplified]
  have "4 * unat (d ! 0 AND 0x0f) = 20 + optlen"
    unfolding nths h_def ip_header_nth using assms by (intro hdr_length_byte) auto
  then have pl: "payload d = data" by (simp add: payload_def d_def lh lo)
  have proto: "d ! 9 = ip_protocol_of (cfg t)" by (simp only: nths h_def ip_header_nth)
  have "take 8 (drop 12 d) = take 8 (drop 12 h)" by (simp_all add: d_def lh)
  then have "take 8 (drop 12 d) = bytes32 (local_addr (ctx t)) @ bytes32 (remote_addr (ctx t))"
    by (simp_all only: h_def ip_header_nth)
  then have dg: "datagram_of t data d" using pl proto by (simp add: datagram_of_def)
  let ?t = "t\<lparr>rc4_state := r, rand_calls := n, wire := wire t @ [d], sends := sends t + 1\<rparr>"
  have "\<exists>rc t'. send_ip data mf fo opt optlen t = Some (rc, t') \<and> (t' = ?t \<or> t' = upd_cfg (\<lambda>c. c\<lparr>src_id := src_id c + 1\<rparr>) ?t)"
    using assms(2,3) ident ldo by (auto simp: send_ip_def Let_def d_def h_def)
  then obtain rc t' where t': "send_ip data mf fo opt optlen t = Some (rc, t')"
    "t' = ?t \<or> t' = upd_cfg (\<lambda>c. c\<lparr>src_id := src_id c + 1\<rparr>) ?t" by blast
  have "wire t' = wire t @ [d] \<and> rc4_state t' = r \<and> ctx t' = ctx t \<and> stats t' = stats t" using t'(2) by (auto simp: upd_cfg_def)
  then show thesis using that [OF t'(1)] dg lh lo ident(2) by (auto simp: rand_ok_def d_def)
qed

text \<open>The routes are those that the option parser can produce.\<close>

definition routes_ok :: "hping_config \<Rightarrow> bool" where
  "routes_ok c \<longleftrightarrow> length (lsr c) = 255 \<and> length (ssr c) = 255 \<and> unat (lsr_length c) \<le> 255 \<and> unat (ssr_length c) \<le> 255"

text \<open>The state in which the datagrams of a probe are sent: options built, fragmentation decided.\<close>

lemma handler_prepared:
  assumes "routes_ok (cfg t)"
  obtains optlen opt t1 t2 where "ip_opt_build t = Some (optlen, opt, t1)"
    "t2 = upd_ctx (\<lambda>c. c\<lparr>ip_optlen := ucast optlen, ip_opt := opt\<rparr>) t1" "opts_only t t1"
    "length (ip_opt (ctx t2)) = 40" "unat (ip_optlen (ctx t2)) \<le> 40" "unat (ip_optlen (ctx t2)) mod 4 = 0"
proof -
  obtain optlen opt t1 where b: "ip_opt_build t = Some (optlen, opt, t1)" "opts_only t t1" "length opt = 40"
    "unat optlen \<le> 40" "unat optlen mod 4 = 0"
    using ip_opt_build_spec [of t] assms by (auto simp: routes_ok_def)
  have "unat (ucast optlen :: u32) = unat optlen" using b(4) by (simp add: unat_ucast_mod)
  then show thesis using that [OF b(1) refl b(2)] b by simp
qed

lemma send_ip_handler_single:
  assumes "routes_ok (cfg t)" "rand_ok t" "\<forall>n. mem (env t) n" "\<not> opt_dry_run (cfg t)" "\<not> opt_fragment (cfg t)"
    "length packet + 60 < unat (h_if_mtu (ctx t))"
  obtains rc d t' where "send_ip_handler packet t = Some (rc, t')" "wire t' = wire t @ [d]" "datagram_of t packet d"
    "length d \<le> 60 + length packet" "rand_ok t'" "stats t' = stats t"
proof -
  obtain optlen opt t1 t2 where b: "ip_opt_build t = Some (optlen, opt, t1)"
    "t2 = upd_ctx (\<lambda>c. c\<lparr>ip_optlen := ucast optlen, ip_opt := opt\<rparr>) t1" "opts_only t t1"
    "length (ip_opt (ctx t2)) = 40" "unat (ip_optlen (ctx t2)) \<le> 40" "unat (ip_optlen (ctx t2)) mod 4 = 0"
    using handler_prepared [OF assms(1)] .
  obtain x y z where t1: "t1 = t\<lparr>cfg := cfg_opts (cfg t) x y z\<rparr>" using b(3) by (auto simp: opts_only_def)
  have c2: "cfg t2 = cfg_opts (cfg t) x y z" "env t2 = env t" "wire t2 = wire t" "rc4_state t2 = rc4_state t"
    "local_addr (ctx t2) = local_addr (ctx t)" "remote_addr (ctx t2) = remote_addr (ctx t)"
    "h_if_mtu (ctx t2) = h_if_mtu (ctx t)" "stats t2 = stats t"
    unfolding b(2) t1 by (simp_all add: upd_ctx_def)
  have "unat (word_of_nat (length packet) + ip_optlen (ctx t2) + 20 :: u32) = length packet + unat (ip_optlen (ctx t2)) + 20"
    using assms(6) b(5) unat32_less [of "h_if_mtu (ctx t)"]
    by (simp add: unat_word_ariths unat_of_nat take_bit_nat_eq_self_iff del: unat32_less)
  then have "\<not> word_of_nat (length packet) + ip_optlen (ctx t2) + 20 \<ge> h_if_mtu (ctx t2)"
    using assms(6) b(5) by (simp only: word_le_nat_alt c2)
  then have af: "auto_fragment (word_of_nat (length packet)) t2 = t2" by (simp only: auto_fragment_def simp_thms if_False)
  define mf fo where "mf = (if opt_mf (cfg t2) then MF else 0) OR (if opt_df (cfg t2) then DF else 0)"
    and "fo = (ucast (ip_frag_offset (cfg t2)) :: u16)"
  have r2: "rand_ok t2" "\<forall>n. mem (env t2) n" "\<not> opt_dry_run (cfg t2)" using assms c2 by (simp_all add: rand_ok_def)
  obtain rc d t' where d: "send_ip packet mf fo (ip_opt (ctx t2)) (unat (ip_optlen (ctx t2))) t2 = Some (rc, t')"
    "wire t' = wire t2 @ [d]" "datagram_of t2 packet d" "length d = 20 + unat (ip_optlen (ctx t2)) + length packet"
    "rand_ok t'" "ctx t' = ctx t2" "stats t' = stats t2"
    by (rule send_ip_datagram [OF r2 b(4,5,6)])
  have "\<not> opt_fragment (cfg t2)" using c2(1) assms(5) by simp
  then have h: "send_ip_handler packet t = Some (rc, t')"
    using b(1) d(1) by (simp add: send_ip_handler_def Let_def b(2)[symmetric] af mf_def fo_def)
  have l: "length d \<le> 60 + length packet" using d(4) b(5) by linarith
  have w: "wire t' = wire t @ [d]" "datagram_of t packet d" "stats t' = stats t" using d by (simp_all add: c2 datagram_of_def)
  show thesis by (rule that [OF h w(1,2) l d(5) w(3)])
qed

section \<open>Properties\<close>




definition demo_fragments :: tool where
  "demo_fragments = upd_cfg (\<lambda>c. c\<lparr>opt_fragment := True\<rparr>) (tool_init demo_env)"


end
