(* ===== verification/Probes.thy ===== *)
theory Probes
  imports Send "HOL-Library.Signed_Division"
begin

text \<open>
  The probes of each mode: \<open>send_tcp\<close> (sendtcp.c), \<open>send_udp\<close> (sendudp.c), the ICMP probes
  (sendicmp.c), \<open>send_rawip\<close> (sendrawip.c), \<open>send_hcmp\<close> (sendhcmp.c), and \<open>send_packet\<close>, which chooses
  between them (send.c).

  A function returns its \<open>int\<close> result and the new state.  \<open>nomem\<close> and \<open>err\<close>, the labels the code
  jumps to when the packet cannot be put together, are the result \<open>False\<close> of the parts of a function.
\<close>

section \<open>TCP and UDP\<close>

text \<open>The packet on the stack, right after \<open>ars_init\<close>.\<close>

definition stack_packet :: ars_packet where
  "stack_packet = \<lparr>p_error = None, p_layer_nr = 0, p_layer = (\<lambda>_. null_layer), p_default = (\<lambda>_. None), p_options = 0, aux = 0,
     aux_ipproto = 0\<rparr>"

definition add_probe_ip :: "u8 \<Rightarrow> tool \<Rightarrow> ars_packet \<Rightarrow> (bool \<times> ars_packet) option" where
  "add_probe_ip proto t p = do {
     (ok, p) \<leftarrow> ars_add_iphdr (mem (env t)) p;
     if \<not> ok then Some (False, p)
     else do {
       p \<leftarrow> wr32 0 12 (local_addr (ctx t)) p;
       p \<leftarrow> wr32 0 16 (remote_addr (ctx t)) p;
       p \<leftarrow> wr8 0 9 proto p;
       Some (True, p)
     }
   }"

text \<open>The value of a number that is random unless the user set it.\<close>

definition set_or_random :: "bool \<Rightarrow> u32 \<Rightarrow> tool \<Rightarrow> (u32 \<times> tool) option" where
  "set_or_random is_set v t = (if is_set then Some (htonl v, t) else map_option (apfst htonl) (hping_rand t))"

definition add_tcp_header :: "tool \<Rightarrow> ars_packet \<Rightarrow> (bool \<times> ars_packet \<times> tool) option" where
  "add_tcp_header t p = (let i = p_layer_nr p; c = cfg t; opt_size = (if opt_tcp_timestamp c then 12 else 0) in do {
     (ok, p) \<leftarrow> ars_add_tcphdr (mem (env t)) p;
     if \<not> ok then Some (False, p, t)
     else do {
       p \<leftarrow> wr16 i 0 (htons (word_of_int (src_port (ctx t)))) p;
       p \<leftarrow> wr16 i 2 (htons (word_of_int (dst_port c))) p;
       (s, t) \<leftarrow> set_or_random (set_seqnum c) (tcp_seqnum c) t;
       p \<leftarrow> wr32 i 4 s p;
       (a, t) \<leftarrow> set_or_random (set_ack c) (tcp_ack c) t;
       p \<leftarrow> wr32 i 8 a p;
       p \<leftarrow> wr16 i 14 (htons (word_of_int (src_winsize c))) p;
       p \<leftarrow> wr8 i 13 (ucast (tcp_th_flags c)) p;
       p \<leftarrow> wr_hi i 12 (word_of_int (src_thoff c + opt_size div 4)) p;
       Some (True, snd (ars_set_flags (mem (env t)) p (int i) ARS_TAKE_TCP_HDRLEN), t)
     }
   })"

text \<open>Two NOPs and a timestamp option with a random value.\<close>

definition add_timestamp :: "tool \<Rightarrow> ars_packet \<Rightarrow> (bool \<times> ars_packet \<times> tool) option" where
  "add_timestamp t p =
     (if \<not> opt_tcp_timestamp (cfg t) then Some (True, p, t)
      else do {
        (randts, t) \<leftarrow> hping_rand t;
        (ok, p) \<leftarrow> ars_add_tcpopt (mem (env t)) 1 p;
        if \<not> ok then Some (False, p, t)
        else do {
          (ok, p) \<leftarrow> ars_add_tcpopt (mem (env t)) 1 p;
          if \<not> ok then Some (False, p, t)
          else do {
            let i = p_layer_nr p;
            (ok, p) \<leftarrow> ars_add_tcpopt (mem (env t)) 8 p;
            if \<not> ok then Some (False, p, t)
            else do {
              p \<leftarrow> wr32 i 2 randts p;
              p \<leftarrow> wr i 6 [0, 0, 0, 0] p;
              Some (True, p, t)
            }
          }
        }
      })"

text \<open>The data layer, filled by \<open>data_handler\<close>.\<close>

definition add_probe_data :: "tool \<Rightarrow> ars_packet \<Rightarrow> (bool \<times> ars_packet \<times> tool) option" where
  "add_probe_data t p = (let i = p_layer_nr p; n = unat (data_size (cfg t)) in
     if n = 0 then Some (True, p, t)
     else do {
       (ok, p) \<leftarrow> ars_add_data (mem (env t)) (int n) p;
       if \<not> ok then Some (False, p, t)
       else do {
         (bs, t) \<leftarrow> data_handler n t;
         p \<leftarrow> wr i 0 bs p;
         Some (True, p, t)
       }
     })"

text \<open>Compile, build, and cut off the IP header: everything from layer \<open>i\<close> on.  \<open>None\<close> inside is the
  failure the caller reports.\<close>

definition build_segment :: "nat \<Rightarrow> tool \<Rightarrow> ars_packet \<Rightarrow> bytes option option" where
  "build_segment i t p = do {
     (rc, p) \<leftarrow> ars_compile (mem (env t)) p;
     if rc \<noteq> ARS_OK then Some None
     else do {
       (r, p) \<leftarrow> ars_build_packet (mem (env t)) p;
       (case r of
          Inl e \<Rightarrow> Some None
        | Inr built \<Rightarrow> map_option Some (ld built (length built - ars_relative_size p i) (ars_relative_size p i)))
     }
   }"

definition spoil_cksum :: "nat \<Rightarrow> bool \<Rightarrow> bytes \<Rightarrow> bytes option" where
  "spoil_cksum off bad l4 = (if bad then do { w \<leftarrow> ld16 l4 off; st16 l4 off (w XOR 0x5555) } else Some l4)"

text \<open>The end of \<open>send_tcp\<close> and \<open>send_udp\<close>.  C's remainder truncates.\<close>

definition probe_sent :: "int \<Rightarrow> tool \<Rightarrow> int \<times> tool" where
  "probe_sent rc t =
     (let t = upd_ctx (\<lambda>c. c\<lparr>sequence := sequence c + 1\<rparr>) t;
          t = (if \<not> opt_keepstill (cfg t)
               then upd_ctx (\<lambda>c. c\<lparr>src_port := (sequence c + initsport (cfg t)) smod 65536\<rparr>) t else t);
          t = (if opt_force_incdport (cfg t) then upd_cfg (\<lambda>c. c\<lparr>dst_port := dst_port c + 1\<rparr>) t else t)
      in (rc, t))"

definition emit_probe :: "nat \<Rightarrow> bytes \<Rightarrow> tool \<Rightarrow> (int \<times> tool) option" where
  "emit_probe off l4 t = do {
     l4 \<leftarrow> spoil_cksum off (opt_badcksum (cfg t)) l4;
     let t = delaytable_add (sequence (ctx t)) (src_port (ctx t)) S_SENT t in do {
       (rc, t) \<leftarrow> send_ip_handler l4 t;
       Some (probe_sent rc t)
     }
   }"

definition send_tcp :: "tool \<Rightarrow> (int \<times> tool) option" where
  "send_tcp t = do {
     (ok, p) \<leftarrow> add_probe_ip 6 t stack_packet;
     if \<not> ok then Some (-1, t)
     else do {
       let i = p_layer_nr p;
       (ok, p, t) \<leftarrow> add_tcp_header t p;
       if \<not> ok then Some (-1, t)
       else do {
         (ok, p, t) \<leftarrow> add_timestamp t p;
         if \<not> ok then Some (-1, t)
         else do {
           (ok, p, t) \<leftarrow> add_probe_data t p;
           if \<not> ok then Some (-1, t)
           else do {
             built \<leftarrow> build_segment i t p;
             (case built of None \<Rightarrow> Some (-1, t) | Some l4 \<Rightarrow> emit_probe 16 l4 t)
           }
         }
       }
     }
   }"

definition add_udp_header :: "tool \<Rightarrow> ars_packet \<Rightarrow> (bool \<times> ars_packet) option" where
  "add_udp_header t p = (let i = p_layer_nr p in do {
     (ok, p) \<leftarrow> ars_add_udphdr (mem (env t)) p;
     if \<not> ok then Some (False, p)
     else do {
       p \<leftarrow> wr16 i 0 (htons (word_of_int (src_port (ctx t)))) p;
       p \<leftarrow> wr16 i 2 (htons (word_of_int (dst_port (cfg t)))) p;
       Some (True, p)
     }
   })"

definition send_udp :: "tool \<Rightarrow> (int \<times> tool) option" where
  "send_udp t = do {
     (ok, p) \<leftarrow> add_probe_ip 17 t stack_packet;
     if \<not> ok then Some (-1, t)
     else do {
       let i = p_layer_nr p;
       (ok, p) \<leftarrow> add_udp_header t p;
       if \<not> ok then Some (-1, t)
       else do {
         (ok, p, t) \<leftarrow> add_probe_data t p;
         if \<not> ok then Some (-1, t)
         else do {
           built \<leftarrow> build_segment i t p;
           (case built of None \<Rightarrow> Some (-1, t) | Some l4 \<Rightarrow> emit_probe 6 l4 t)
         }
       }
     }
   }"

section \<open>ICMP\<close>

definition icmp_type_supported :: "int \<Rightarrow> bool" where
  "icmp_type_supported n \<longleftrightarrow> n \<in> {8, 0, 3, 4, 5, 11, 13, 14, 17, 18}"

text \<open>The header of an echo, timestamp or address mask message.\<close>

definition add_icmp_header :: "int \<Rightarrow> tool \<Rightarrow> (bool \<times> ars_packet) option" where
  "add_icmp_header code t = do {
     (ok, p) \<leftarrow> ars_add_icmphdr (mem (env t)) stack_packet;
     if \<not> ok then Some (False, p)
     else do {
       p \<leftarrow> wr8 0 0 (word_of_int (opt_icmptype (cfg t))) p;
       p \<leftarrow> wr8 0 1 (word_of_int code) p;
       p \<leftarrow> wr16 0 4 (word_of_nat (pid (env t))) p;
       p \<leftarrow> wr16 0 6 (word_of_int (icmp_seq t)) p;
       Some (True, p)
     }
   }"

text \<open>The end of these messages: a forced checksum, the delay table (for type \<open>tracked\<close>), sending.\<close>

definition emit_icmp :: "int \<Rightarrow> tool \<Rightarrow> ars_packet \<Rightarrow> (int \<times> tool) option" where
  "emit_icmp tracked t p =
     (let p = (if icmp_cksum (cfg t) \<noteq> -1 then snd (ars_set_flags (mem (env t)) p 0 ARS_TAKE_ICMP_CKSUM) else p) in do {
       (rc, p) \<leftarrow> ars_compile (mem (env t)) p;
       if rc \<noteq> ARS_OK then Some (-1, t)
       else do {
         (r, p) \<leftarrow> ars_build_packet (mem (env t)) p;
         (case r of
            Inl e \<Rightarrow> Some (-1, t)
          | Inr built \<Rightarrow> do {
              built \<leftarrow> (if icmp_cksum (cfg t) \<noteq> -1 then st16 built 2 (word_of_int (icmp_cksum (cfg t))) else Some built);
              let t = (if opt_icmptype (cfg t) = tracked then delaytable_add (icmp_seq t) 0 S_SENT t else t) in do {
                (rc, t) \<leftarrow> send_ip_handler built t;
                Some (rc, t\<lparr>icmp_seq := icmp_seq t + 1\<rparr>)
              }
            })
       }
     })"

definition send_icmp_echo :: "tool \<Rightarrow> (int \<times> tool) option" where
  "send_icmp_echo t = do {
     (ok, p) \<leftarrow> add_icmp_header (opt_icmpcode (cfg t)) t;
     if \<not> ok then Some (-1, t)
     else do {
       (ok, p, t) \<leftarrow> add_probe_data t p;
       if \<not> ok then Some (-1, t) else emit_icmp 8 t p
     }
   }"

definition send_icmp_timestamp :: "tool \<Rightarrow> (int \<times> tool) option" where
  "send_icmp_timestamp t = do {
     (ok, p) \<leftarrow> add_icmp_header 0 t;
     if \<not> ok then Some (-1, t)
     else do {
       let i = p_layer_nr p;
       (ok, p) \<leftarrow> ars_add_data (mem (env t)) 12 p;
       if \<not> ok then Some (-1, t)
       else (case milliseconds t of (ms, t) \<Rightarrow> do {
         p \<leftarrow> wr32 i 0 (htonl (word_of_int ms)) p;
         emit_icmp 13 t p
       })
     }
   }"

definition send_icmp_address :: "tool \<Rightarrow> (int \<times> tool) option" where
  "send_icmp_address t = do {
     (ok, p) \<leftarrow> add_icmp_header 0 t;
     if \<not> ok then Some (-1, t)
     else do {
       (ok, p) \<leftarrow> ars_add_data (mem (env t)) 4 p;
       if \<not> ok then Some (-1, t) else emit_icmp 13 t p
     }
   }"

text \<open>The datagram an ICMP error quotes: an IP header and a UDP header whose checksums are computed
  with \<open>cksum\<close>.\<close>

definition quoted_tot_len :: "hping_config \<Rightarrow> u16" where
  "quoted_tot_len c = word_of_int (if icmp_ip_tot_len c \<noteq> 0 then icmp_ip_tot_len c else icmp_ip_ihl c * 4 + 8)"

definition quoted_ip :: "tool \<Rightarrow> u16 \<Rightarrow> bytes" where
  "quoted_ip t check = (let c = cfg t in
     [push_bit 4 (word_of_int (icmp_ip_version c) AND 0xf) OR (word_of_int (icmp_ip_ihl c) AND 0xf), word_of_int (icmp_ip_tos c)]
     @ be_bytes (quoted_tot_len c) @ be_bytes (word_of_nat (pid (env t))) @ [0, 0, 64, word_of_int (icmp_ip_protocol c)]
     @ bytes16 check @ bytes32 (icmp_ip_src (ctx t)) @ bytes32 (icmp_ip_dst (ctx t)))"

definition quoted_udp :: "tool \<Rightarrow> u16 \<Rightarrow> bytes" where
  "quoted_udp t check = be_bytes (word_of_int (icmp_ip_srcport (cfg t))) @ be_bytes (word_of_int (icmp_ip_dstport (cfg t)))
     @ be_bytes 8 @ bytes16 check"

definition quoted_pseudo :: "tool \<Rightarrow> bytes" where
  "quoted_pseudo t = bytes32 (icmp_ip_src (ctx t)) @ bytes32 (icmp_ip_dst (ctx t)) @ [0, word_of_int (icmp_ip_protocol (cfg t))]
     @ be_bytes (quoted_tot_len (cfg t))"

definition icmp_other_packet :: "tool \<Rightarrow> bytes \<Rightarrow> u16 \<Rightarrow> bytes" where
  "icmp_other_packet t data check =
     (let c = cfg t; bad = opt_badcksum c;
          ip = quoted_ip t (cksum bad (quoted_ip t 0));
          udp = quoted_udp t (cksum bad (quoted_pseudo t @ quoted_udp t 0))
      in [word_of_int (opt_icmptype c), word_of_int (opt_icmpcode c)] @ bytes16 check
         @ (if opt_icmptype c = 5 then bytes32 (icmp_gw (ctx t)) else [0, 0, 0, 0]) @ ip @ udp @ data)"

definition send_icmp_other :: "tool \<Rightarrow> (int \<times> tool) option" where
  "send_icmp_other t =
     (let n = unat (data_size (cfg t)) in
      if \<not> mem (env t) (36 + n) \<or> \<not> mem (env t) 20 then Some (-1, t)
      else do {
        (data, t') \<leftarrow> (if n > 0 then data_handler n t else Some ([], t));
        let check = (if icmp_cksum (cfg t) = -1 then cksum (opt_badcksum (cfg t)) (icmp_other_packet t data 0)
                     else word_of_int (icmp_cksum (cfg t)))
        in send_ip_handler (icmp_other_packet t data check) t'
      })"

definition send_icmp :: "tool \<Rightarrow> (int \<times> tool) option" where
  "send_icmp t = (let n = opt_icmptype (cfg t) in
     if n \<in> {8, 0} then send_icmp_echo t
     else if n \<in> {3, 4, 5, 11} then send_icmp_other t
     else if n \<in> {13, 14} then send_icmp_timestamp t
     else if n \<in> {17, 18} then send_icmp_address t
     else if opt_force_icmp (cfg t) then send_icmp_other t
     else Some (-1, t))"

section \<open>Raw IP, and the choice of the probe\<close>

definition send_rawip :: "tool \<Rightarrow> (int \<times> tool) option" where
  "send_rawip t = (let n = unat (data_size (cfg t)) in
     if \<not> mem (env t) n then Some (-1, t)
     else do { (data, t) \<leftarrow> data_handler n t; send_ip_handler data t })"

text \<open>\<open>hp_rand\<close> itself, which an installed random source does not replace.\<close>

definition device_rand :: "tool \<Rightarrow> (u8 \<times> tool) option" where
  "device_rand t = map_option (\<lambda>(w, r). (ucast (w AND 0xff), t\<lparr>rc4_state := r\<rparr>)) (hp_rand (seed (env t)) (rc4_state t))"

definition select_next_random_source :: "tool \<Rightarrow> tool option" where
  "select_next_random_source t = do {
     (a, t) \<leftarrow> device_rand t;
     (b, t) \<leftarrow> device_rand t;
     (c, t) \<leftarrow> device_rand t;
     (d, t) \<leftarrow> device_rand t;
     Some (upd_ctx (\<lambda>x. x\<lparr>local_addr := le32 a b c d\<rparr>) t)
   }"

text \<open>\<open>strtoul(s, &end, 10)\<close> on the few characters of an octet: the value (None for a negative one that
  is not 0, which C turns into a huge number) and the rest.\<close>

definition strtoul10 :: "string \<Rightarrow> nat option \<times> string" where
  "strtoul10 s =
     (let body = dropWhile isspace s;
          neg = (body \<noteq> [] \<and> hd body = CHR ''-'');
          digits = (if body \<noteq> [] \<and> (hd body = CHR ''-'' \<or> hd body = CHR ''+'') then tl body else body);
          ds = takeWhile isdigit digits
      in if ds = [] then (Some 0, s)
         else let v = foldl (\<lambda>v c. 10 * v + (of_char c - 48)) 0 ds
              in (if neg \<and> v \<noteq> 0 then None else Some v, drop (length ds) digits))"

text \<open>\<open>None\<close> is the result -1.\<close>

definition rand_dest_octet :: "string \<Rightarrow> tool \<Rightarrow> (u8 option \<times> tool) option" where
  "rand_dest_octet s t =
     (if s = ''x'' then map_option (apfst Some) (device_rand t)
      else if s = [] then Some (None, t)
      else case strtoul10 s of (v, rest) \<Rightarrow>
        (case v of
           Some n \<Rightarrow> Some (if rest \<noteq> [] \<or> n > 255 then None else Some (word_of_nat n), t)
         | None \<Rightarrow> Some (None, t)))"

text \<open>\<open>sscanf\<close> with \<open>%4[^.].%4[^.].%4[^.].%4[^.]\<close>: four runs of one to four characters other than a dot.\<close>

fun scan_octets :: "nat \<Rightarrow> string \<Rightarrow> string list option" where
  "scan_octets 0 s = Some []"
| "scan_octets (Suc n) s =
     (let w = takeWhile (\<lambda>c. c \<noteq> CHR ''.'') (take 4 s); rest = drop (length w) s
      in if w = [] then None
         else if n = 0 then Some [w]
         else case rest of [] \<Rightarrow> None
           | c # rest \<Rightarrow> if c = CHR ''.'' then map_option (Cons w) (scan_octets n rest) else None)"

fun octets_loop :: "string list \<Rightarrow> tool \<Rightarrow> (bytes option \<times> tool) option" where
  "octets_loop [] t = Some (Some [], t)"
| "octets_loop (s # ss) t =
     (case rand_dest_octet s t of
        None \<Rightarrow> None
      | Some (None, t) \<Rightarrow> Some (None, t)
      | Some (Some v, t) \<Rightarrow> map_option (apfst (map_option (Cons v))) (octets_loop ss t))"

definition parse_rand_dest :: "string \<Rightarrow> tool \<Rightarrow> (bytes option \<times> tool) option" where
  "parse_rand_dest template t =
     (case scan_octets 4 template of None \<Rightarrow> Some (None, t) | Some oct \<Rightarrow> octets_loop oct t)"

definition select_next_random_dest :: "tool \<Rightarrow> (bool \<times> tool) option" where
  "select_next_random_dest t = do {
     (ra, t) \<leftarrow> parse_rand_dest (targetname (cfg t)) t;
     (case ra of
        None \<Rightarrow> Some (False, t)
      | Some bs \<Rightarrow> Some (True, upd_ctx (\<lambda>x. x\<lparr>remote_addr := le32 (bs ! 0) (bs ! 1) (bs ! 2) (bs ! 3)\<rparr>) t))
   }"

definition send_packet :: "tool \<Rightarrow> (int \<times> tool) option" where
  "send_packet t = do {
     (ok, t) \<leftarrow> (if opt_rand_dest (cfg t) then select_next_random_dest t else Some (True, t));
     if \<not> ok then Some (-1, t)
     else do {
       t \<leftarrow> (if opt_rand_source (cfg t) then select_next_random_source t else Some t);
       (rc, t) \<leftarrow> (if opt_rawipmode (cfg t) then send_rawip t
                   else if opt_icmpmode (cfg t) then send_icmp t
                   else if opt_udpmode (cfg t) then send_udp t else send_tcp t);
       Some (rc, if rc = 0 then upd_stats hping_stats_on_sent t else t)
     }
   }"

section \<open>HCMP messages\<close>

abbreviation (input) HCMP_RESTART :: u8 where "HCMP_RESTART \<equiv> 1"
abbreviation (input) HCMP_SOURCE_QUENCH :: u8 where "HCMP_SOURCE_QUENCH \<equiv> 2"
abbreviation (input) HCMP_SOURCE_STIRUP :: u8 where "HCMP_SOURCE_STIRUP \<equiv> 3"

text \<open>\<open>struct hcmphdr\<close> has 8 bytes: the type, padding, the union.  Other types fail the assertion.\<close>

definition hcmp_header :: "u8 \<Rightarrow> u32 \<Rightarrow> bytes option" where
  "hcmp_header type arg =
     (if type = HCMP_RESTART then Some ([type, 0, 0, 0] @ bytes16 (htons (ucast arg)) @ [0, 0])
      else if type = HCMP_SOURCE_QUENCH \<or> type = HCMP_SOURCE_STIRUP then Some ([type, 0, 0, 0] @ bytes32 (htonl arg))
      else None)"

definition send_hcmp :: "u8 \<Rightarrow> u32 \<Rightarrow> tool \<Rightarrow> (int \<times> tool) option" where
  "send_hcmp type arg t = do {
     hcmph \<leftarrow> hcmp_header type arg;
     send_packet (upd_ctx (\<lambda>c. c\<lparr>hcmphdr_p := hcmph\<rparr>)
       (upd_cfg (\<lambda>c. c\<lparr>data_size := ucast (signlen c + 8)\<rparr>) t))
   }"

section \<open>Facts: the packet of a probe\<close>

lemma add_layer_succeeds:
  assumes "add_layer al sz t f pkt = Some (r, pkt')" "\<forall>n. al n" "p_layer_nr pkt < ARS_MAX_LAYER"
  shows r
  using assms by (auto simp: add_layer_def ars_add_generic_def ars_nospace_def Let_def split: bind_splits if_splits)

lemma adds_succeeds:
  assumes "adds_layer t sz pkt res" "\<And>r pkt'. res = Some (r, pkt') \<Longrightarrow> r"
  obtains d pkt' where "res = Some (True, pkt')" "pkt_wf pkt'" "length d = sz" "p_layer_nr pkt' = p_layer_nr pkt + 1"
    "p_layer pkt' = (p_layer pkt)(p_layer_nr pkt := \<lparr>l_type = t, l_size = sz, l_flags = 0, l_data = (if sz = 0 then None else Some d)\<rparr>)"
proof -
  obtain r pkt' where r: "res = Some (r, pkt')" "pkt_wf pkt'"
    "if r then \<exists>d. length d = sz \<and> p_layer_nr pkt' = p_layer_nr pkt + 1 \<and> p_layer_nr pkt < ARS_MAX_LAYER \<and>
        p_layer pkt' = (p_layer pkt)(p_layer_nr pkt :=
          \<lparr>l_type = t, l_size = sz, l_flags = 0, l_data = (if sz = 0 then None else Some d)\<rparr>)
      else p_layer_nr pkt' = p_layer_nr pkt \<and> p_layer pkt' = p_layer pkt"
    using assms(1) unfolding adds_layer_def by blast
  then have True: r using assms(2) by blast
  with r(3) obtain d where "length d = sz" "p_layer_nr pkt' = p_layer_nr pkt + 1"
    "p_layer pkt' = (p_layer pkt)(p_layer_nr pkt := \<lparr>l_type = t, l_size = sz, l_flags = 0, l_data = (if sz = 0 then None else Some d)\<rparr>)"
    by auto
  with r True show thesis by (intro that [of pkt' d]) auto
qed

lemma wr_total:
  assumes "l_data (p_layer p i) = Some d" "off + length bs \<le> length d"
  shows "wr i off bs p = Some (set_data i (take off d @ bs @ drop (off + length bs) d) p)"
  using assms by (simp add: wr_def st_eq_Some)

text \<open>A probe under construction: an IP header with the addresses, the header of the transport whose
  checksum is left to the compiler, and at most a data layer.\<close>

definition probe_packet :: "tool \<Rightarrow> ars_type \<Rightarrow> ars_packet \<Rightarrow> bool" where
  "probe_packet t ty p \<longleftrightarrow> pkt_wf p \<and> 2 \<le> p_layer_nr p \<and> p_layer_nr p \<le> 3
     \<and> l_type (p_layer p 0) = ARS_TYPE_IP \<and> l_type (p_layer p 1) = ty \<and> l_size (p_layer p 1) = hdr_min ty
     \<and> ARS_DONTTAKE (l_flags (p_layer p 1)) (take_cksum ty)
     \<and> addr_bytes p 0 = bytes32 (local_addr (ctx t)) @ bytes32 (remote_addr (ctx t))
     \<and> (p_layer_nr p = 3 \<longrightarrow> l_type (p_layer p 2) = ARS_TYPE_DATA)"

lemma stack_packet_wf: "pkt_wf stack_packet"
  by (simp add: pkt_wf_def stack_packet_def)

lemma add_probe_ip_ok:
  assumes "\<forall>n. mem (env t) n"
  obtains p d where "add_probe_ip proto t stack_packet = Some (True, p)" "pkt_wf p" "p_layer_nr p = 1"
    "p_layer p = (\<lambda>_. null_layer)(0 := \<lparr>l_type = ARS_TYPE_IP, l_size = 20, l_flags = 0, l_data = Some d\<rparr>)"
    "length d = 20" "take 8 (drop 12 d) = bytes32 (local_addr (ctx t)) @ bytes32 (remote_addr (ctx t))"
proof -
  let ?al = "mem (env t)"
  have nr: "p_layer_nr stack_packet = 0" "p_layer stack_packet = (\<lambda>_. null_layer)" by (simp_all add: stack_packet_def)
  obtain d p where p: "ars_add_iphdr ?al stack_packet = Some (True, p)" "pkt_wf p" "length d = 20" "p_layer_nr p = 1"
    "p_layer p = (\<lambda>_. null_layer)(0 := \<lparr>l_type = ARS_TYPE_IP, l_size = 20, l_flags = 0, l_data = Some d\<rparr>)"
  proof (rule adds_succeeds [OF add_iphdr_adds [OF stack_packet_wf, of ?al]])
    fix r q assume "ars_add_iphdr ?al stack_packet = Some (r, q)"
    then show r unfolding ars_add_iphdr_def using assms by (rule add_layer_succeeds) (simp add: nr)
  qed (simp only: nr, rule that, simp_all)
  let ?l = "bytes32 (local_addr (ctx t))" and ?r = "bytes32 (remote_addr (ctx t))"
  define e where "e = take 9 d @ [proto] @ take 2 (drop 10 d) @ ?l @ ?r"
  have le: "length e = 20" using p(3) by (simp add: e_def)
  have p0: "l_data (p_layer p 0) = Some d" using p(5) by simp
  let ?d1 = "take 12 d @ ?l @ drop 16 d"
  let ?d2 = "take 16 ?d1 @ ?r @ drop 20 ?d1"
  have d2: "?d2 = take 12 d @ ?l @ ?r" using p(3) by simp
  have 1: "wr32 0 12 (local_addr (ctx t)) p = Some (set_data 0 ?d1 p)"
    using wr_total [OF p0, of 12 ?l] p(3) by (simp add: wr32_def)
  have 2: "wr32 0 16 (remote_addr (ctx t)) (set_data 0 ?d1 p) = Some (set_data 0 ?d2 p)"
    using wr_total [of "set_data 0 ?d1 p" 0 ?d1 16 ?r] p(3) by (simp add: wr32_def)
  have l2: "length ?d2 = 20" using p(3) by simp
  have e: "take 9 ?d2 @ [proto] @ drop (9 + length [proto]) ?d2 = e"
    unfolding d2 e_def using p(3) by (simp add: drop_take min_def)
  have 3: "wr8 0 9 proto (set_data 0 ?d2 p) = Some (set_data 0 e p)"
  proof -
    have "wr 0 9 [proto] (set_data 0 ?d2 p) = Some (set_data 0 (take 9 ?d2 @ [proto] @ drop (9 + length [proto]) ?d2) (set_data 0 ?d2 p))"
      by (rule wr_total, simp add: set_data_def upd_layer_def, unfold l2, simp)
    then show ?thesis by (simp only: wr8_def e set_data_set_data)
  qed
  have "add_probe_ip proto t stack_packet = Some (True, set_data 0 e p)"
    unfolding add_probe_ip_def p(1) Option.bind.bind_lunit prod.case not_True_eq_False if_False 1 2 3 ..
  moreover have "pkt_wf (set_data 0 e p)" using p le by (intro set_data_wf) (simp_all add: layer_len_def)
  moreover have "p_layer (set_data 0 e p) = (\<lambda>_. null_layer)(0 := \<lparr>l_type = ARS_TYPE_IP, l_size = 20, l_flags = 0, l_data = Some e\<rparr>)"
    by (simp add: set_data_def upd_layer_def p(5))
  moreover have "take 8 (drop 12 e) = ?l @ ?r" using p(3) by (simp add: e_def)
  ultimately show thesis using that [of "set_data 0 e p" e] le p(4) by simp
qed

text \<open>Random numbers change nothing but the generator.\<close>

definition rand_only :: "tool \<Rightarrow> tool \<Rightarrow> bool" where
  "rand_only t t' \<longleftrightarrow> rand_ok t' \<and> (\<exists>r n. t' = t\<lparr>rc4_state := r, rand_calls := n\<rparr>)"

lemma rand_only_fields:
  assumes "rand_only t t'"
  shows "rand_ok t'" "cfg t' = cfg t" "ctx t' = ctx t" "env t' = env t" "wire t' = wire t" "stats t' = stats t"
  using assms by (auto simp: rand_only_def)

lemma rand_only_refl: "rand_ok t \<Longrightarrow> rand_only t t"
  unfolding rand_only_def by (intro conjI exI [of _ "rc4_state t"] exI [of _ "rand_calls t"]) simp_all

lemma rand_only_trans:
  assumes "rand_only t t1" "rand_only t1 t2"
  shows "rand_only t t2"
proof -
  obtain r n r' n' where t: "t1 = t\<lparr>rc4_state := r, rand_calls := n\<rparr>" "t2 = t1\<lparr>rc4_state := r', rand_calls := n'\<rparr>"
    using assms unfolding rand_only_def by blast
  then have "t2 = t\<lparr>rc4_state := r', rand_calls := n'\<rparr>" by simp
  then show ?thesis using assms(2) unfolding rand_only_def by blast
qed

lemma set_or_random_total:
  assumes "rand_ok t"
  obtains v t' where "set_or_random b w t = Some (v, t')" "rand_only t t'"
proof (cases b)
  case True
  then show thesis using that rand_only_refl [OF assms] by (simp add: set_or_random_def)
next
  case False
  obtain v r n where v: "hping_rand t = Some (v, t\<lparr>rc4_state := r, rand_calls := n\<rparr>)" "rc4_ok r"
    using hping_rand_total [OF assms] .
  then have "rand_only t (t\<lparr>rc4_state := r, rand_calls := n\<rparr>)" unfolding rand_only_def by (auto simp: rand_ok_def)
  then show thesis using that v False by (simp add: set_or_random_def)
qed

text \<open>Writing into the block of the last layer.\<close>

definition last_data :: "nat \<Rightarrow> nat \<Rightarrow> ars_packet \<Rightarrow> ars_packet \<Rightarrow> bool" where
  "last_data i n p q \<longleftrightarrow> (\<exists>d. length d = n \<and> q = set_data i d p)"

lemma last_data_edit:
  assumes "edits i n f" "last_data i n p q"
  shows "\<exists>q'. f q = Some q' \<and> last_data i n p q'"
proof -
  obtain d where d: "length d = n" "q = set_data i d p" using assms(2) by (auto simp: last_data_def)
  have "l_data (p_layer q i) = Some d" by (simp add: d)
  then obtain d' where "length d' = n" "f q = Some (set_data i d' q)" using assms(1) d(1) unfolding edits_def by blast
  then show ?thesis using d by (auto simp: last_data_def)
qed

lemmas last_wr8 = last_data_edit [OF edits_wr8]
lemmas last_wr16 = last_data_edit [OF edits_wr16]
lemmas last_wr32 = last_data_edit [OF edits_wr32]
lemmas last_wr_hi = last_data_edit [OF edits_wr_hi]

lemma flags_wf: "pkt_wf p \<Longrightarrow> i < p_layer_nr p \<Longrightarrow> pkt_wf (upd_layer i (\<lambda>l. l\<lparr>l_flags := f\<rparr>) p)"
  by (auto simp: pkt_wf_def layer_wf_def layer_len_def upd_layer_def)

lemma add_tcp_header_ok:
  assumes "\<forall>n. mem (env t) n" "rand_ok t" "pkt_wf p" "p_layer_nr p = 1" "\<not> opt_tcp_timestamp (cfg t)"
  obtains q d t' where "add_tcp_header t p = Some (True, q, t')" "rand_only t t'" "length d = 20" "pkt_wf q" "p_layer_nr q = 2"
    "p_layer q = (p_layer p)(1 := \<lparr>l_type = ARS_TYPE_TCP, l_size = 20, l_flags = ARS_TAKE_TCP_HDRLEN, l_data = Some d\<rparr>)"
proof -
  let ?al = "mem (env t)"
  obtain d p1 where p1: "ars_add_tcphdr ?al p = Some (True, p1)" "pkt_wf p1" "length d = 20" "p_layer_nr p1 = p_layer_nr p + 1"
    "p_layer p1 = (p_layer p)(p_layer_nr p := \<lparr>l_type = ARS_TYPE_TCP, l_size = 20, l_flags = 0, l_data = (if (20 :: nat) = 0 then None else Some d)\<rparr>)"
  proof (rule adds_succeeds [OF add_tcphdr_adds [OF assms(3), of ?al]])
    fix r q assume "ars_add_tcphdr ?al p = Some (r, q)"
    then show r unfolding ars_add_tcphdr_def using assms(1) by (rule add_layer_succeeds) (simp add: assms(4))
  qed
  have "p1 = set_data 1 d p1" using p1(5) assms(4) by (intro set_data_same [symmetric]) simp
  then have l1: "last_data 1 20 p1 p1" using p1(3) unfolding last_data_def by blast
  let ?c = "cfg t"
  obtain q1 where q1: "wr16 1 0 (htons (word_of_int (src_port (ctx t)))) p1 = Some q1" "last_data 1 20 p1 q1"
    using last_wr16 [OF _ l1, of 0] by auto
  obtain q2 where q2: "wr16 1 2 (htons (word_of_int (dst_port ?c))) q1 = Some q2" "last_data 1 20 p1 q2"
    using last_wr16 [OF _ q1(2), of 2] by auto
  obtain s t1 where s: "set_or_random (set_seqnum ?c) (tcp_seqnum ?c) t = Some (s, t1)" "rand_only t t1"
    using set_or_random_total [OF assms(2)] .
  obtain q3 where q3: "wr32 1 4 s q2 = Some q3" "last_data 1 20 p1 q3"
    using last_wr32 [OF _ q2(2), of 4] by auto
  obtain a t2 where a: "set_or_random (set_ack ?c) (tcp_ack ?c) t1 = Some (a, t2)" "rand_only t1 t2"
    using set_or_random_total [OF rand_only_fields(1) [OF s(2)]] .
  obtain q4 where q4: "wr32 1 8 a q3 = Some q4" "last_data 1 20 p1 q4"
    using last_wr32 [OF _ q3(2), of 8] by auto
  obtain q5 where q5: "wr16 1 14 (htons (word_of_int (src_winsize ?c))) q4 = Some q5" "last_data 1 20 p1 q5"
    using last_wr16 [OF _ q4(2), of 14] by auto
  obtain q6 where q6: "wr8 1 13 (ucast (tcp_th_flags ?c)) q5 = Some q6" "last_data 1 20 p1 q6"
    using last_wr8 [OF _ q5(2), of 13] by auto
  obtain q7 where q7: "wr_hi 1 12 (word_of_int (src_thoff ?c)) q6 = Some q7" "last_data 1 20 p1 q7"
    using last_wr_hi [OF _ q6(2), of 12] by auto
  obtain e where e: "length e = 20" "q7 = set_data 1 e p1" using q7(2) unfolding last_data_def by blast
  let ?q = "snd (ars_set_flags ?al q7 1 ARS_TAKE_TCP_HDRLEN)"
  have f: "?q = upd_layer 1 (\<lambda>l. l\<lparr>l_flags := ARS_TAKE_TCP_HDRLEN\<rparr>) q7" by (simp add: ars_set_flags_def ars_last_def)
  have "add_tcp_header t p = Some (True, ?q, t2)"
    using p1(1) q1(1) q2(1) s(1) q3(1) a(1) q4(1) q5(1) q6(1) q7(1) assms(4,5)
    by (simp add: add_tcp_header_def Let_def rand_only_fields [OF s(2)] rand_only_fields [OF a(2)])
  moreover have "rand_only t t2" using s(2) a(2) by (rule rand_only_trans)
  moreover have l: "p_layer ?q = (p_layer p)(1 := \<lparr>l_type = ARS_TYPE_TCP, l_size = 20, l_flags = ARS_TAKE_TCP_HDRLEN, l_data = Some e\<rparr>)"
    "p_layer_nr ?q = 2" unfolding f unfolding e by (simp_all add: upd_layer_def set_data_def p1(4,5) assms(4))
  moreover have "pkt_wf ?q"
  proof -
    have "pkt_wf q7" unfolding e using p1 e(1) assms(4) by (intro set_data_wf) (simp_all add: layer_len_def)
    moreover have "1 < p_layer_nr q7" unfolding e by (simp add: p1(4) assms(4))
    ultimately show ?thesis unfolding f by (rule flags_wf)
  qed
  ultimately show thesis using that e(1) by blast
qed

lemma add_udp_header_ok:
  assumes "\<forall>n. mem (env t) n" "pkt_wf p" "p_layer_nr p = 1"
  obtains q d where "add_udp_header t p = Some (True, q)" "length d = 8" "pkt_wf q" "p_layer_nr q = 2"
    "p_layer q = (p_layer p)(1 := \<lparr>l_type = ARS_TYPE_UDP, l_size = 8, l_flags = 0, l_data = Some d\<rparr>)"
proof -
  let ?al = "mem (env t)"
  obtain d p1 where p1: "ars_add_udphdr ?al p = Some (True, p1)" "pkt_wf p1" "length d = 8" "p_layer_nr p1 = p_layer_nr p + 1"
    "p_layer p1 = (p_layer p)(p_layer_nr p := \<lparr>l_type = ARS_TYPE_UDP, l_size = 8, l_flags = 0, l_data = (if (8 :: nat) = 0 then None else Some d)\<rparr>)"
  proof (rule adds_succeeds [OF add_udphdr_adds [OF assms(2), of ?al]])
    fix r q assume "ars_add_udphdr ?al p = Some (r, q)"
    then show r unfolding ars_add_udphdr_def using assms(1) by (rule add_layer_succeeds) (simp add: assms(3))
  qed
  have "p1 = set_data 1 d p1" using p1(5) assms(3) by (intro set_data_same [symmetric]) simp
  then have l1: "last_data 1 8 p1 p1" using p1(3) unfolding last_data_def by blast
  obtain q1 where q1: "wr16 1 0 (htons (word_of_int (src_port (ctx t)))) p1 = Some q1" "last_data 1 8 p1 q1"
    using last_wr16 [OF _ l1, of 0] by auto
  obtain q2 where q2: "wr16 1 2 (htons (word_of_int (dst_port (cfg t)))) q1 = Some q2" "last_data 1 8 p1 q2"
    using last_wr16 [OF _ q1(2), of 2] by auto
  obtain e where e: "length e = 8" "q2 = set_data 1 e p1" using q2(2) unfolding last_data_def by blast
  have "add_udp_header t p = Some (True, q2)"
    using p1(1) q1(1) q2(1) assms(3) by (simp add: add_udp_header_def Let_def)
  moreover have "pkt_wf q2" unfolding e using p1 e(1) assms(3) by (intro set_data_wf) (simp_all add: layer_len_def)
  moreover have "p_layer q2 = (p_layer p)(1 := \<lparr>l_type = ARS_TYPE_UDP, l_size = 8, l_flags = 0, l_data = Some e\<rparr>)" "p_layer_nr q2 = 2"
    unfolding e by (simp_all add: upd_layer_def set_data_def p1(4,5) assms(3))
  ultimately show thesis using that e(1) by blast
qed

text \<open>Data without a file: the signature and \<open>X\<close> characters.\<close>

definition plain_data :: "hping_config \<Rightarrow> bool" where
  "plain_data c \<longleftrightarrow> \<not> opt_listenmode c \<and> \<not> opt_datafromfile c
     \<and> (opt_sign c \<longrightarrow> unat (signlen c) \<le> unat (data_size c) \<and> unat (signlen c) \<le> 1024)"

lemma length_buffer1024 [simp]: "length (buffer1024 s) = 1024"
  by (simp add: buffer1024_def to_bytes_def)

lemma data_handler_plain:
  assumes "plain_data (cfg t)" "n = unat (data_size (cfg t))"
  obtains bs where "data_handler n t = Some (bs, t)" "length bs = n"
proof (cases "opt_sign (cfg t)")
  case True
  let ?s = "take (unat (signlen (cfg t))) (buffer1024 (cfg_sign (cfg t)))"
  have l: "unat (signlen (cfg t)) \<le> n" "unat (signlen (cfg t)) \<le> 1024" using assms True by (simp_all add: plain_data_def)
  then have "ld (buffer1024 (cfg_sign (cfg t))) 0 (unat (signlen (cfg t))) = Some ?s" by (simp add: ld_def)
  then have "data_handler n t = Some (?s @ X_bytes (n - length ?s), t)"
    using assms(1) True l by (simp add: data_handler_def plain_data_def Let_def X_bytes_def)
  moreover have "length (?s @ X_bytes (n - length ?s)) = n" using l by (simp add: X_bytes_def)
  ultimately show thesis by (rule that)
next
  case False
  then have "data_handler n t = Some (X_bytes n, t)" using assms(1) by (simp add: data_handler_def plain_data_def Let_def X_bytes_def)
  then show thesis by (rule that) (simp add: X_bytes_def)
qed

lemma add_probe_data_ok:
  assumes "\<forall>n. mem (env t) n" "plain_data (cfg t)" "pkt_wf p" "p_layer_nr p = 2"
  obtains q where "add_probe_data t p = Some (True, q, t)" "pkt_wf q" "p_layer_nr q \<le> 3" "2 \<le> p_layer_nr q"
    "p_layer q 0 = p_layer p 0" "p_layer q 1 = p_layer p 1" "p_layer_nr q = 3 \<Longrightarrow> l_type (p_layer q 2) = ARS_TYPE_DATA"
    "p_layer_nr q = 3 \<Longrightarrow> l_size (p_layer q 2) = unat (data_size (cfg t))"
proof (cases "unat (data_size (cfg t)) = 0")
  case True
  then have "add_probe_data t p = Some (True, p, t)" by (simp add: add_probe_data_def)
  then show thesis using that [of p] assms(3,4) by simp
next
  case False
  let ?al = "mem (env t)" and ?n = "unat (data_size (cfg t))"
  obtain d p1 where p1: "ars_add_data ?al (int ?n) p = Some (True, p1)" "pkt_wf p1" "length d = nat (int ?n)" "p_layer_nr p1 = p_layer_nr p + 1"
    "p_layer p1 = (p_layer p)(p_layer_nr p := \<lparr>l_type = ARS_TYPE_DATA, l_size = nat (int ?n), l_flags = 0, l_data = (if nat (int ?n) = 0 then None else Some d)\<rparr>)"
  proof (rule adds_succeeds [OF add_data_adds [OF assms(3), of "int ?n" ?al]])
    fix r q assume "ars_add_data ?al (int ?n) p = Some (r, q)"
    then have "add_layer ?al ?n ARS_TYPE_DATA (\<lambda>_. Some) p = Some (r, q)" by (simp add: ars_add_data_def)
    then show r using assms(1) by (rule add_layer_succeeds) (simp add: assms(4))
  qed
  obtain bs where bs: "data_handler ?n t = Some (bs, t)" "length bs = ?n" using data_handler_plain [OF assms(2) refl] .
  have "l_data (p_layer p1 2) = Some d" using p1(5) assms(4) False by simp
  then have w: "wr 2 0 bs p1 = Some (set_data 2 bs p1)" using wr_total [of p1 2 d 0 bs] p1(3) bs(2) by simp
  have "add_probe_data t p = Some (True, set_data 2 bs p1, t)"
    using p1(1) bs(1) w False assms(4) by (simp add: add_probe_data_def Let_def)
  moreover have "pkt_wf (set_data 2 bs p1)" using p1 bs(2) False assms(4) by (intro set_data_wf) (simp_all add: layer_len_def)
  ultimately show thesis using that [of "set_data 2 bs p1"] p1 assms(4) by simp
qed

text \<open>Compiled and built, the part behind the IP header is a segment that verifies over the pseudo header.\<close>

definition probe_len :: "ars_type \<Rightarrow> ars_packet \<Rightarrow> nat" where
  "probe_len ty p = hdr_min ty + (if p_layer_nr p = 3 then l_size (p_layer p 2) else 0)"

lemma build_segment_ok:
  assumes "probe_packet t ty p" "\<forall>n. mem (env t') n" "ty = ARS_TYPE_TCP \<or> ty = ARS_TYPE_UDP" "probe_len ty p \<le> 65535"
  obtains seg where "build_segment 1 t' p = Some (Some seg)" "length seg = probe_len ty p"
    "ars_cksum (bytes32 (local_addr (ctx t)) @ bytes32 (remote_addr (ctx t)) @ [0, transport_proto ty] @ be16 (length seg) @ seg) = 0"
proof -
  note pp = assms(1)[unfolded probe_packet_def]
  let ?al = "mem (env t')"
  have lt: "j < p_layer_nr p \<Longrightarrow> j = 0 \<or> j = 1 \<or> (j = 2 \<and> p_layer_nr p = 3)" for j using pp by linarith
  have "\<exists>q. compile_loop ?al p (p_layer_nr p) = Some (ARS_OK, q)"
  proof (rule compile_loop_ok [OF _ order.refl _ assms(2)])
    show "pkt_wf p" using pp by simp
    fix j assume j: "j < p_layer_nr p" "needs_parent (p_layer p j)"
    then have "j = 1" using lt [OF j(1)] pp by (auto simp: needs_parent_def)
    then show "parent_ok p j" using pp assms(3) by (auto simp: parent_ok_def Let_def)
  qed
  then obtain q where q: "ars_compile ?al p = Some (ARS_OK, q)" unfolding ars_compile_def by blast
  have wf: "pkt_wf q" and sh: "same_shape p q" using ars_compile_wf [OF q] pp by simp_all
  have nr: "p_layer_nr q = p_layer_nr p" and ty: "l_type (p_layer q k) = l_type (p_layer p k)" for k
    using sh by (simp_all add: same_shape_def)
  have s1: "l_size (p_layer q 1) = hdr_min ty"
    using ars_compile_size [OF q, of 1] pp assms(3) by auto
  have s2: "l_size (p_layer q 2) = l_size (p_layer p 2)" if "p_layer_nr p = 3"
    using ars_compile_size [OF q, of 2] pp that by auto
  define seg where "seg = pkt_out q 1"
  have out0: "pkt_out q 0 = layer_out (p_layer q 0) @ seg"
    using pkt_out_Cons [of 0 q] pp nr by (simp add: seg_def)
  have out1: "seg = layer_out (p_layer q 1) @ pkt_out q 2"
    using pkt_out_Cons [of 1 q] pp nr by (simp add: seg_def numeral_2_eq_2)
  have out2: "length (pkt_out q 2) = (if p_layer_nr p = 3 then l_size (p_layer p 2) else 0)"
  proof (cases "p_layer_nr p = 3")
    case True
    then have "pkt_out q 2 = layer_out (p_layer q 2)" using pkt_out_Cons [of 2 q] nr by (simp add: pkt_out_def)
    then show ?thesis using True s2 length_layer_out [OF pkt_wf_below [OF wf, of 2]] nr by simp
  next
    case False
    then have "p_layer_nr q = 2" using pp nr by linarith
    then show ?thesis using False by (simp add: pkt_out_def)
  qed
  have l1: "length (layer_out (p_layer q 1)) = hdr_min ty"
    using length_layer_out [OF pkt_wf_below [OF wf, of 1]] pp nr s1 by simp
  have len: "length seg = probe_len ty p" unfolding out1 probe_len_def using l1 out2 by simp
  have pos: "0 < length seg" using assms(3) by (auto simp: len probe_len_def hdr_min_def)
  have rel: "ars_relative_size q 1 = length seg" unfolding seg_def using pp nr by (intro relative_size_eq [OF wf]) simp
  have b: "ars_build_packet ?al q = Some (Inr (pkt_out q 0), q)"
    using build_packet_eq [OF wf, of ?al] assms(2) pos out0 by auto
  have "ld (pkt_out q 0) (length (pkt_out q 0) - length seg) (length seg) = Some seg" by (simp add: out0 ld_def)
  then have "build_segment 1 t' p = Some (Some seg)" using q b by (simp add: build_segment_def rel [unfolded One_nat_def])
  moreover have "pseudo_header q 1 = bytes32 (local_addr (ctx t)) @ bytes32 (remote_addr (ctx t)) @ [0, transport_proto ty] @ be16 (length seg)"
  proof -
    have "addr_bytes q 0 = addr_bytes p 0"
      by (rule compile_loop_addr [OF q [unfolded ars_compile_def]]) (use pp in simp_all)
    moreover have "bytes16 (htons (of_nat (length seg))) = be16 (length seg)" using len assms(4) by (intro bytes16_htons) simp
    ultimately show ?thesis using pp by (simp add: pseudo_header_def Let_def ty seg_def)
  qed
  moreover have "ars_cksum (pseudo_header q 1 @ pkt_out q 1) = 0"
    using pp assms(3,4) len s1 by (intro ars_compile_cksum(1) [OF q _ _ refl]) (auto simp: seg_def)
  ultimately show thesis using that len by (simp add: seg_def)
qed

lemma delaytable_add_fields [simp]:
  "cfg (delaytable_add a b c t) = cfg t" "env (delaytable_add a b c t) = env t" "wire (delaytable_add a b c t) = wire t"
  "rc4_state (delaytable_add a b c t) = rc4_state t" "local_addr (ctx (delaytable_add a b c t)) = local_addr (ctx t)"
  "remote_addr (ctx (delaytable_add a b c t)) = remote_addr (ctx t)" "h_if_mtu (ctx (delaytable_add a b c t)) = h_if_mtu (ctx t)"
  "stats (delaytable_add a b c t) = stats t"
  by (simp_all add: delaytable_add_def hping_monotonic_us_def upd_ctx_def)

lemma probe_sent_fields [simp]:
  "fst (probe_sent rc t) = rc" "wire (snd (probe_sent rc t)) = wire t" "stats (snd (probe_sent rc t)) = stats t"
  by (simp_all add: probe_sent_def Let_def upd_ctx_def upd_cfg_def)

text \<open>When a probe goes out as one datagram.\<close>

definition probe_ready :: "tool \<Rightarrow> bool" where
  "probe_ready t \<longleftrightarrow> (\<forall>n. mem (env t) n) \<and> rand_ok t \<and> routes_ok (cfg t) \<and> plain_data (cfg t) \<and> \<not> opt_dry_run (cfg t)
     \<and> \<not> opt_fragment (cfg t) \<and> \<not> opt_badcksum (cfg t) \<and> unat (data_size (cfg t)) + 80 < unat (h_if_mtu (ctx t))
     \<and> unat (h_if_mtu (ctx t)) \<le> 65535"

lemma emit_probe_ok:
  assumes "probe_ready t" "length l4 + 60 < unat (h_if_mtu (ctx t))"
  obtains rc d t' where "emit_probe off l4 t = Some (rc, t')" "wire t' = wire t @ [d]" "datagram_of t l4 d"
    "length d \<le> 60 + length l4" "stats t' = stats t"
proof -
  let ?t = "delaytable_add (sequence (ctx t)) (src_port (ctx t)) S_SENT t"
  note r = assms(1)[unfolded probe_ready_def]
  obtain rc d t' where h: "send_ip_handler l4 ?t = Some (rc, t')" "wire t' = wire ?t @ [d]" "datagram_of ?t l4 d"
    "length d \<le> 60 + length l4" "rand_ok t'" "stats t' = stats ?t"
    by (rule send_ip_handler_single [of ?t l4]) (use r assms(2) in \<open>simp_all add: rand_ok_def\<close>)
  have "emit_probe off l4 t = Some (rc, snd (probe_sent rc t'))"
    using h(1) r by (simp add: emit_probe_def spoil_cksum_def Let_def probe_sent_def)
  moreover have "datagram_of t l4 d" using h(3) by (simp add: datagram_of_def)
  ultimately show thesis using that [of rc "snd (probe_sent rc t')" d] h by simp
qed

lemma datagram_accepted_by:
  assumes "datagram_of t seg d" "length seg \<le> 65535"
    "ars_cksum (bytes32 (local_addr (ctx t)) @ bytes32 (remote_addr (ctx t)) @ [0, ip_protocol_of (cfg t)] @ be16 (length seg) @ seg) = 0"
  shows "transport_accepts d"
proof -
  have d: "drop (hdr_bytes d) d = seg" "d ! 9 = ip_protocol_of (cfg t)"
    "take 8 (drop 12 d) = bytes32 (local_addr (ctx t)) @ bytes32 (remote_addr (ctx t))"
    using assms(1) by (simp_all add: datagram_of_def payload_def hdr_bytes_def)
  show ?thesis
    unfolding transport_accepts_def Let_def d using assms(2,3) by (intro rfc1071_0) (simp_all add: be16_def)
qed

lemma send_udp_ok:
  assumes "probe_ready t"
  obtains rc d t' seg where "send_udp t = Some (rc, t')" "wire t' = wire t @ [d]" "datagram_of t seg d" "stats t' = stats t"
    "length seg \<le> 65535"
    "ars_cksum (bytes32 (local_addr (ctx t)) @ bytes32 (remote_addr (ctx t)) @ [0, 17] @ be16 (length seg) @ seg) = 0"
proof -
  note r = assms[unfolded probe_ready_def]
  have m: "\<forall>n. mem (env t) n" and pd: "plain_data (cfg t)" using r by simp_all
  obtain p d where p: "add_probe_ip 17 t stack_packet = Some (True, p)" "pkt_wf p" "p_layer_nr p = 1"
    "p_layer p = (\<lambda>_. null_layer)(0 := \<lparr>l_type = ARS_TYPE_IP, l_size = 20, l_flags = 0, l_data = Some d\<rparr>)"
    "length d = 20" "take 8 (drop 12 d) = bytes32 (local_addr (ctx t)) @ bytes32 (remote_addr (ctx t))"
    using add_probe_ip_ok [OF m] .
  obtain q e where q: "add_udp_header t p = Some (True, q)" "length e = 8" "pkt_wf q" "p_layer_nr q = 2"
    "p_layer q = (p_layer p)(1 := \<lparr>l_type = ARS_TYPE_UDP, l_size = 8, l_flags = 0, l_data = Some e\<rparr>)"
    using add_udp_header_ok [OF m p(2,3)] .
  obtain w where w: "add_probe_data t q = Some (True, w, t)" "pkt_wf w" "p_layer_nr w \<le> 3" "2 \<le> p_layer_nr w"
    "p_layer w 0 = p_layer q 0" "p_layer w 1 = p_layer q 1" "p_layer_nr w = 3 \<Longrightarrow> l_type (p_layer w 2) = ARS_TYPE_DATA"
    "p_layer_nr w = 3 \<Longrightarrow> l_size (p_layer w 2) = unat (data_size (cfg t))"
    using add_probe_data_ok [OF m pd q(3,4)] by blast
  have pp: "probe_packet t ARS_TYPE_UDP w"
    using w q(5) p(4-6) by (simp add: probe_packet_def hdr_min_def ARS_DONTTAKE_def addr_bytes_def data_of_def)
  have len: "probe_len ARS_TYPE_UDP w \<le> 8 + unat (data_size (cfg t))" using w(8) by (simp add: probe_len_def hdr_min_def)
  then have len': "probe_len ARS_TYPE_UDP w \<le> 65535" using r by linarith
  obtain seg where seg: "build_segment 1 t w = Some (Some seg)" "length seg = probe_len ARS_TYPE_UDP w"
    "ars_cksum (bytes32 (local_addr (ctx t)) @ bytes32 (remote_addr (ctx t)) @ [0, transport_proto ARS_TYPE_UDP] @ be16 (length seg) @ seg) = 0"
    using build_segment_ok [OF pp m disjI2 [OF refl] len'] .
  have fit: "length seg + 60 < unat (h_if_mtu (ctx t))" using seg(2) len r by linarith
  obtain rc d' t' where e: "emit_probe 6 seg t = Some (rc, t')" "wire t' = wire t @ [d']" "datagram_of t seg d'" "stats t' = stats t"
    using emit_probe_ok [OF assms fit, of 6] by blast
  have "send_udp t = Some (rc, t')" using p(1,3) q(1) w(1) seg(1) e(1) by (simp add: send_udp_def Let_def)
  then show thesis using that e seg(2,3) len' by (simp add: transport_proto_def)
qed

lemma send_tcp_ok:
  assumes "probe_ready t" "\<not> opt_tcp_timestamp (cfg t)"
  obtains rc d t' seg where "send_tcp t = Some (rc, t')" "wire t' = wire t @ [d]" "datagram_of t seg d" "stats t' = stats t"
    "length seg \<le> 65535"
    "ars_cksum (bytes32 (local_addr (ctx t)) @ bytes32 (remote_addr (ctx t)) @ [0, 6] @ be16 (length seg) @ seg) = 0"
proof -
  note r = assms(1)[unfolded probe_ready_def]
  have m: "\<forall>n. mem (env t) n" and rk: "rand_ok t" using r by simp_all
  obtain p d where p: "add_probe_ip 6 t stack_packet = Some (True, p)" "pkt_wf p" "p_layer_nr p = 1"
    "p_layer p = (\<lambda>_. null_layer)(0 := \<lparr>l_type = ARS_TYPE_IP, l_size = 20, l_flags = 0, l_data = Some d\<rparr>)"
    "length d = 20" "take 8 (drop 12 d) = bytes32 (local_addr (ctx t)) @ bytes32 (remote_addr (ctx t))"
    using add_probe_ip_ok [OF m] .
  obtain q e t1 where q: "add_tcp_header t p = Some (True, q, t1)" "rand_only t t1" "length e = 20" "pkt_wf q" "p_layer_nr q = 2"
    "p_layer q = (p_layer p)(1 := \<lparr>l_type = ARS_TYPE_TCP, l_size = 20, l_flags = ARS_TAKE_TCP_HDRLEN, l_data = Some e\<rparr>)"
    using add_tcp_header_ok [OF m rk p(2,3) assms(2)] .
  note f = rand_only_fields [OF q(2)]
  have m1: "\<forall>n. mem (env t1) n" and pd: "plain_data (cfg t1)" and r1: "probe_ready t1"
    using r f by (simp_all add: probe_ready_def)
  have ts: "add_timestamp t1 q = Some (True, q, t1)" using assms(2) f by (simp add: add_timestamp_def)
  obtain w where w: "add_probe_data t1 q = Some (True, w, t1)" "pkt_wf w" "p_layer_nr w \<le> 3" "2 \<le> p_layer_nr w"
    "p_layer w 0 = p_layer q 0" "p_layer w 1 = p_layer q 1" "p_layer_nr w = 3 \<Longrightarrow> l_type (p_layer w 2) = ARS_TYPE_DATA"
    "p_layer_nr w = 3 \<Longrightarrow> l_size (p_layer w 2) = unat (data_size (cfg t1))"
    using add_probe_data_ok [OF m1 pd q(4,5)] by blast
  have pp: "probe_packet t ARS_TYPE_TCP w"
    using w q(6) p(4-6) by (simp add: probe_packet_def hdr_min_def ARS_DONTTAKE_def addr_bytes_def data_of_def take_cksum_def)
  have len: "probe_len ARS_TYPE_TCP w \<le> 20 + unat (data_size (cfg t))" using w(8) f by (simp add: probe_len_def hdr_min_def)
  then have len': "probe_len ARS_TYPE_TCP w \<le> 65535" using r by linarith
  obtain seg where seg: "build_segment 1 t1 w = Some (Some seg)" "length seg = probe_len ARS_TYPE_TCP w"
    "ars_cksum (bytes32 (local_addr (ctx t)) @ bytes32 (remote_addr (ctx t)) @ [0, transport_proto ARS_TYPE_TCP] @ be16 (length seg) @ seg) = 0"
    using build_segment_ok [OF pp m1 disjI1 [OF refl] len'] .
  have fit: "length seg + 60 < unat (h_if_mtu (ctx t1))" using seg(2) len r f by simp
  obtain rc d' t' where e: "emit_probe 16 seg t1 = Some (rc, t')" "wire t' = wire t1 @ [d']" "datagram_of t1 seg d'" "stats t' = stats t1"
    using emit_probe_ok [OF r1 fit, of 16] by blast
  have "send_tcp t = Some (rc, t')" using p(1,3) q(1) ts w(1) seg(1) e(1) by (simp add: send_tcp_def Let_def)
  moreover have "datagram_of t seg d'" using e(3) f by (simp add: datagram_of_def)
  ultimately show thesis using that e seg(2,3) len' f by (simp add: transport_proto_def)
qed

section \<open>Properties\<close>


definition demo_probe :: tool where
  "demo_probe = upd_cfg (\<lambda>c. c\<lparr>opt_udpmode := True, data_size := 120\<rparr>)
     (upd_ctx (\<lambda>x. x\<lparr>h_if_mtu := 1500, local_addr := 0x0100007f, remote_addr := 0x0200007f\<rparr>) (tool_init demo_env))"


end
