(* ===== verification/Recv.thy ===== *)
theory Recv
  imports Send "HOL-Library.Signed_Division"
begin

text \<open>
  Receiving replies: \<open>wait_packet\<close> with the handlers of each protocol (waitpacket.c), the IP options
  of a reply (display_ipopt.c), the names of ICMP errors (logicmp.c), the size of the link header
  (getlhs.c).

  A captured frame is the list of bytes that were captured: reading beyond it is \<open>None\<close>, although the
  code's buffer is longer (its rest is not initialised).  What is printed is left out, except where
  it is computed from the packet (IP options, clock skew, uptime).
\<close>

section \<open>Fields of headers\<close>

definition be16_at :: "bytes \<Rightarrow> nat \<Rightarrow> u16 option" where
  "be16_at b off = map_option htons (ld16 b off)"

definition be32_at :: "bytes \<Rightarrow> nat \<Rightarrow> u32 option" where
  "be32_at b off = map_option htonl (ld32 b off)"

definition port_at :: "bytes \<Rightarrow> nat \<Rightarrow> int option" where
  "port_at b off = map_option uint (be16_at b off)"

definition hping_stop :: "stop_reason \<Rightarrow> tool \<Rightarrow> tool" where
  "hping_stop r t = upd_ctx (\<lambda>c. if reason c = HPING_STOP_NONE then c\<lparr>reason := r\<rparr> else c) t"

section \<open>IP options of a reply\<close>

datatype ipopt_line = Line_nop | Line_lsrr "bytes list" | Line_ssrr "bytes list" | Line_same | Line_rr "bytes list"
  | Line_unknown u8 | Line_truncated

text \<open>\<open>n\<close> addresses of four bytes.\<close>

fun addresses :: "bytes \<Rightarrow> nat \<Rightarrow> nat \<Rightarrow> bytes list option" where
  "addresses b off 0 = Some []"
| "addresses b off (Suc n) = do { a \<leftarrow> ld b off 4; as \<leftarrow> addresses b (off + 4) n; Some (a # as) }"

text \<open>The record route option at \<open>cp\<close>; \<open>(rrlen, rr)\<close> is the last route shown.\<close>

definition show_rr :: "bytes \<Rightarrow> nat \<Rightarrow> nat \<Rightarrow> nat \<times> bytes \<Rightarrow> (ipopt_line list \<times> nat \<times> bytes) option" where
  "show_rr area cp optlen = (\<lambda>(rrlen, rr). do {
     p \<leftarrow> (if optlen \<ge> 3 then map_option unat (ld8 area (cp + 2)) else Some 0);
     let i = min p optlen; naddr = min ((i - 4 + 3) div 4) ((optlen - 3) div 4)
     in if i \<le> 4 \<or> naddr = 0 then Some ([], rrlen, rr)
        else do {
          route \<leftarrow> ld area (cp + 3) (naddr * 4);
          same \<leftarrow> (if naddr * 4 = rrlen \<and> cp = 0 then map_option (\<lambda>last_route. route = last_route) (ld rr 0 (naddr * 4)) else Some False);
          if same then Some ([Line_same], rrlen, rr)
          else do {
            rr \<leftarrow> st rr 0 route;
            as \<leftarrow> addresses area (cp + 3) naddr;
            Some ([Line_rr as], naddr * 4, rr)
          }
        }
   })"

definition show_option :: "bytes \<Rightarrow> nat \<Rightarrow> u8 \<Rightarrow> nat \<Rightarrow> nat \<times> bytes \<Rightarrow> (ipopt_line list \<times> nat \<times> bytes) option" where
  "show_option area cp kind optlen old_route =
     (if kind = 0x83 then do { as \<leftarrow> addresses area (cp + 3) ((optlen - 3) div 4); Some ([Line_lsrr as], old_route) }
      else if kind = 0x89 then do { as \<leftarrow> addresses area (cp + 3) ((optlen - 3) div 4); Some ([Line_ssrr as], old_route) }
      else if kind = 7 then show_rr area cp optlen old_route
      else Some ([Line_unknown kind], old_route))"

text \<open>The walk over the option area; \<open>hlen\<close> bytes are left at \<open>cp\<close>.\<close>

function ipopt_loop :: "bytes \<Rightarrow> nat \<Rightarrow> nat \<Rightarrow> nat \<times> bytes \<Rightarrow> (ipopt_line list \<times> nat \<times> bytes) option" where
  "ipopt_loop area cp hlen old_route =
     (if hlen = 0 then Some ([], old_route)
      else case ld8 area cp of
        None \<Rightarrow> None
      | Some kind \<Rightarrow>
          if kind = 0 then Some ([], old_route)
          else if kind = 1 then map_option (apfst (Cons Line_nop)) (ipopt_loop area (cp + 1) (hlen - 1) old_route)
          else if hlen < 2 then Some ([Line_truncated], old_route)
          else case ld8 area (cp + 1) of
            None \<Rightarrow> None
          | Some n \<Rightarrow>
              if unat n < 2 \<or> unat n > hlen then Some ([Line_truncated], old_route)
              else case show_option area cp kind (unat n) old_route of
                None \<Rightarrow> None
              | Some (ls, old_route) \<Rightarrow> map_option (apfst (append ls)) (ipopt_loop area (cp + unat n) (hlen - unat n) old_route))"
  by pat_completeness auto
termination
  by (relation "measure (\<lambda>(_, _, hlen, _). hlen)") auto

definition display_ipopt :: "bytes \<Rightarrow> tool \<Rightarrow> (ipopt_line list \<times> tool) option" where
  "display_ipopt pkt t = do {
     b \<leftarrow> ld8 pkt 0;
     let hlen = unat (b AND 0xf) * 4
     in if hlen \<le> 20 then Some ([], t)
        else do {
          (ls, rrlen, rr) \<leftarrow> ipopt_loop (drop 20 pkt) 0 (min hlen 60 - 20) (old_rrlen t, old_rr t);
          Some (ls, t\<lparr>old_rrlen := rrlen, old_rr := rr\<rparr>)
        }
   }"

section \<open>ICMP errors\<close>

text \<open>\<open>icmp_unreach_msg[icmp_code]\<close>: the table has 16 entries, some of them \<open>NULL\<close>.\<close>

definition icmp_unreach_msg :: "string option list" where
  "icmp_unreach_msg = [Some ''Network Unreachable from'', Some ''Host Unreachable from'', Some ''Protocol Unreachable from'',
     Some ''Port Unreachable from'', Some ''Fragmentation Needed/DF set from'', Some ''Source Route failed from'',
     None, None, None, None, None, None, None, Some ''Packet filtered from'', Some ''Precedence violation from'',
     Some ''precedence cut off from'']"

definition log_icmp_unreach :: "u8 \<Rightarrow> string option option" where
  "log_icmp_unreach code = (if unat code < length icmp_unreach_msg then Some (icmp_unreach_msg ! unat code) else None)"

definition icmp_unreach_name :: "u8 \<Rightarrow> string" where
  "icmp_unreach_name code =
     (if code = 0 then ''net-unreachable'' else if code = 1 then ''host-unreachable''
      else if code = 2 then ''protocol-unreachable'' else if code = 3 then ''port-unreachable''
      else if code = 4 then ''frag-needed'' else if code = 5 then ''source-route-failed''
      else if code = 13 then ''filtered'' else ''unreachable'')"

text \<open>\<open>icmp_unreach_rtt\<close>: the status (-1 also for a probe that is not recognised), the sequence
  number, the round trip time.\<close>

definition icmp_unreach_rtt :: "bytes \<Rightarrow> tool \<Rightarrow> (int \<times> int \<times> rat \<times> tool) option" where
  "icmp_unreach_rtt quoted t =
     (let unknown = Some (-1, 0, 0, t) in
      if opt_tr_no_rtt (cfg t) then unknown
      else if length quoted < 20 then unknown
      else do {
        b \<leftarrow> ld8 quoted 0;
        let hsize = unat (b AND 0xf) * 4 in
        if hsize < 20 then unknown
        else do {
          proto \<leftarrow> ld8 quoted 9;
          let left = int (length quoted) - int hsize in
          if proto = 6 \<or> proto = 17 then
            if left < 2 then unknown
            else do { sport \<leftarrow> port_at quoted hsize; Some (rtt 0 sport t) }
          else if proto = 1 then
            if left < 8 then unknown
            else do {
              type \<leftarrow> ld8 quoted hsize;
              s \<leftarrow> ld16 quoted (hsize + 6);
              if type \<noteq> 8 then unknown else Some (rtt (uint s) 0 t)
            }
          else unknown
        }
      })"

section \<open>TCP timestamps\<close>

abbreviation (input) cdiv :: "int \<Rightarrow> int \<Rightarrow> int option" where
  "cdiv a b \<equiv> (if b = 0 then None else Some (a sdiv b))"

text \<open>The skew in nanoseconds per second over pairs of samples: sample \<open>n - 1 - j\<close> against sample
  \<open>i - j\<close> for \<open>j < k\<close>; the list of skews and the last local time difference.\<close>

fun pair_skews :: "(int \<times> int) list \<Rightarrow> nat \<Rightarrow> nat list \<Rightarrow> (int list \<times> int) option" where
  "pair_skews samples i [] = Some ([], 0)"
| "pair_skews samples i (j # js) =
     (if length samples \<le> j \<or> i < j \<or> length samples \<le> i - j then None
      else let a = samples ! (length samples - 1 - j); b = samples ! (i - j); localdelta = snd a - snd b in
        case cdiv ((fst a - fst b) * 1000000) localdelta of
          None \<Rightarrow> None
        | Some skew \<Rightarrow> map_option (\<lambda>(ss, d). (skew # ss, if js = [] then localdelta else d)) (pair_skews samples i js))"

text \<open>The first sample from right to left at the distance of the window; running off the array is \<open>None\<close>.\<close>

fun window_start :: "(int \<times> int) list \<Rightarrow> int \<Rightarrow> nat \<Rightarrow> nat option" where
  "window_start samples w i =
     (if length samples \<le> i then None
      else if snd (last samples) - snd (samples ! i) < w
           then (case i of 0 \<Rightarrow> None | Suc i \<Rightarrow> window_start samples w i) else Some i)"

datatype skew_report = Skew_early "(int \<times> int \<times> int) option" | Skew "int list" int int int

definition skew_of_samples :: "hping_config \<Rightarrow> (int \<times> int) list \<Rightarrow> skew_report option" where
  "skew_of_samples c samples =
     (let n = length samples; k = cs_window_shift c; w = cs_window c * 1000 in
      if int n > k \<and> k < 1 then None
      else if int n > k \<and> snd (samples ! (n - 1)) - snd (samples ! (nat k - 1)) > w
      then do {
        i \<leftarrow> window_start samples w (n - 2);
        (recent, _) \<leftarrow> pair_skews samples i (rev [0..<nat k]);
        (full, d) \<leftarrow> pair_skews samples (nat k - 1) [0..<nat k];
        Some (Skew recent (sum_list recent sdiv k) (sum_list full sdiv k) (d sdiv 1000))
      }
      else if n > 1 then
        let localdelta = snd (samples ! (n - 1)) - snd (samples ! 0); delta = fst (samples ! (n - 1)) - fst (samples ! 0)
        in map_option (\<lambda>skew. Skew_early (Some (skew, localdelta, delta))) (cdiv (delta * 1000000) localdelta)
      else Some (Skew_early None))"

text \<open>The average of the deltas whose round trip time is at most a tenth above the smallest.  The
  comparisons are on \<open>unsigned long long\<close>.\<close>

definition deltas_sample :: "(int \<times> int) list \<Rightarrow> int option" where
  "deltas_sample ds =
     (let rtts = map (\<lambda>d. word_of_int (snd d) :: u64) ds;
          minrtt = foldl min (hd rtts) (tl rtts);
          valid = filter (\<lambda>d. \<not> (minrtt > 10 \<and> (word_of_int (snd d) - minrtt > minrtt div 10))) ds
      in if valid = [] then None else Some (sum_list (map fst valid) sdiv int (length valid)))"

text \<open>The report that ends \<open>clock_skew\<close>.\<close>

definition report_skew :: "tool \<Rightarrow> (skew_report option \<times> tool) option" where
  "report_skew t = do { ss \<leftarrow> clock_samples t; r \<leftarrow> skew_of_samples (cfg t) ss; Some (Some r, t) }"

text \<open>A full vector of deltas was averaged: a new sample.\<close>

definition add_sample :: "int \<Rightarrow> tool \<Rightarrow> (skew_report option \<times> tool) option" where
  "add_sample avg t = do {
     ss \<leftarrow> clock_samples t;
     if \<not> mem (env t) (8 * (length ss + 1)) then Some (None, t\<lparr>clock_samples := None\<rparr>)
     else (case mstime t of (now, t) \<Rightarrow> report_skew (t\<lparr>clock_samples := Some (ss @ [(avg, now)])\<rparr>))
   }"

text \<open>The delta of this packet joins the \<open>ds\<close>; writing beyond the vector is \<open>None\<close>.\<close>

definition add_delta :: "(int \<times> int) list \<Rightarrow> int \<Rightarrow> int \<Rightarrow> tool \<Rightarrow> (skew_report option \<times> tool) option" where
  "add_delta ds tstampms2 rttms t =
     (case mstime t of (localms, t) \<Rightarrow>
        if int (length ds) \<ge> cs_vector_len (cfg t) then None
        else let ds = ds @ [(localms - tstampms2, rttms)] in
          if int (length ds) \<noteq> cs_vector_len (cfg t) then report_skew (t\<lparr>clock_deltas := Some ds\<rparr>)
          else (case deltas_sample ds of
                  None \<Rightarrow> report_skew (t\<lparr>clock_deltas := Some []\<rparr>)
                | Some avg \<Rightarrow> add_sample avg (t\<lparr>clock_deltas := Some []\<rparr>)))"

text \<open>\<open>clock_deltas\<close> is \<open>None\<close> as long as the vectors are not allocated.\<close>

definition clock_skew :: "int \<Rightarrow> u32 \<Rightarrow> int \<Rightarrow> tool \<Rightarrow> (skew_report option \<times> tool) option" where
  "clock_skew hz tstamp rttms t = do {
     ticks \<leftarrow> cdiv 1000 hz;
     let t = (case clock_deltas t of
                None \<Rightarrow> if mem (env t) (unat (8 * word_of_int (cs_vector_len (cfg t)) :: u64)) then t\<lparr>clock_deltas := Some []\<rparr> else t
              | Some _ \<Rightarrow> t);
     (case clock_deltas t of
        None \<Rightarrow> Some (None, t)
      | Some ds \<Rightarrow> add_delta ds (uint (tstamp * word_of_int ticks) - rttms sdiv 2) rttms t)
   }"

text \<open>The options of a TCP header from \<open>opt\<close> on: the timestamp and its echo, \<open>Ts_none\<close> when the
  code returns, \<open>Ts_end\<close> when the loop ends and the code goes on to its label \<open>found\<close>.\<close>

datatype ts_result = Ts_none | Ts_end | Ts_found u32 u32

function ts_walk :: "bytes \<Rightarrow> nat \<Rightarrow> nat \<Rightarrow> ts_result option" where
  "ts_walk tcp opt optlen =
     (if optlen = 0 then Some Ts_end
      else case ld8 tcp opt of
        None \<Rightarrow> None
      | Some kind \<Rightarrow>
          if kind = 0 then Some Ts_none
          else if kind = 1 then ts_walk tcp (opt + 1) (optlen - 1)
          else if optlen < 2 then Some Ts_none
          else case ld8 tcp (opt + 1) of
            None \<Rightarrow> None
          | Some n \<Rightarrow>
              if unat n < 2 \<or> unat n > optlen then Some Ts_none
              else if kind \<noteq> 8 then ts_walk tcp (opt + unat n) (optlen - unat n)
              else if n \<noteq> 10 then Some Ts_none
              else (case (be32_at tcp (opt + 2), be32_at tcp (opt + 6)) of
                      (Some tstamp, Some echo) \<Rightarrow> Some (Ts_found tstamp echo)
                    | _ \<Rightarrow> None))"
  by pat_completeness auto
termination
  by (relation "measure (\<lambda>(_, _, optlen). optlen)") auto

text \<open>The clock rate nearest to the measured one, the first of several.\<close>

definition hz_guess :: "int \<Rightarrow> int" where
  "hz_guess tsdiff = snd (foldl (\<lambda>(hzdiff, hz) h. if hzdiff > \<bar>tsdiff - h\<bar> then (\<bar>tsdiff - h\<bar>, h) else (hzdiff, hz))
     (\<bar>tsdiff - 2\<bar>, 2) [10, 100, 1000])"

text \<open>Days, hours, minutes, seconds.\<close>

definition uptime :: "u32 \<Rightarrow> int \<Rightarrow> int \<times> int \<times> int \<times> int" where
  "uptime tstamp hz =
     (let sec = sint (tstamp div word_of_int hz); days = sec sdiv 86400; sec = sec smod 86400;
          hours = sec sdiv 3600; sec = sec smod 3600
      in (days, hours, sec sdiv 60, sec smod 60))"

definition timestamp_found :: "u32 \<Rightarrow> int \<Rightarrow> tool \<Rightarrow> ((int \<times> int \<times> int \<times> int \<times> int) option \<times> tool) option" where
  "timestamp_found tstamp rttms t =
     (if first_tstamp t \<noteq> 0
      then (case mstime t of (now, t) \<Rightarrow>
        let mswait = word_of_int now - first_mstime t in
        if mswait = 0 then None
        else let tsdiff = sint (ucast ((ucast (tstamp - first_tstamp t) * 1000) div mswait :: u64) :: u32);
                 hz = (if tsdiff > 0 then hz_guess tsdiff else 0);
                 shown = (if tsdiff > 0 then Some (hz, uptime tstamp hz) else None)
             in if hz > 0 \<and> opt_clock_skew (cfg t)
                then map_option (\<lambda>(_, t). (shown, t)) (clock_skew hz tstamp rttms t)
                else Some (shown, t))
      else (case mstime (t\<lparr>first_tstamp := tstamp\<rparr>) of (now, t) \<Rightarrow> Some (None, t\<lparr>first_mstime := word_of_int now\<rparr>)))"

definition print_tcp_timestamp :: "bytes \<Rightarrow> int \<Rightarrow> tool \<Rightarrow> ((int \<times> int \<times> int \<times> int \<times> int) option \<times> tool) option" where
  "print_tcp_timestamp tcp rttms t =
     (if length tcp < 20 then Some (None, t)
      else do {
        b \<leftarrow> ld8 tcp 12;
        let tcphdrlen = unat (drop_bit 4 b) * 4 in
        if tcphdrlen \<le> 20 \<or> tcphdrlen > length tcp then Some (None, t)
        else do {
          r \<leftarrow> ts_walk tcp 20 (tcphdrlen - 20);
          (case r of
             Ts_none \<Rightarrow> Some (None, t)
           | Ts_end \<Rightarrow> timestamp_found 0 rttms t
           | Ts_found tstamp echo \<Rightarrow> timestamp_found tstamp rttms t)
        }
      })"

section \<open>The handlers of each protocol\<close>

text \<open>\<open>log_ip\<close> and \<open>json_ip_fields\<close>, which both count the id sequence.  \<open>ip\<close> is the fixed header.\<close>

definition log_ip :: "bytes \<Rightarrow> int \<Rightarrow> tool \<Rightarrow> tool option" where
  "log_ip ip sq t = do {
     w \<leftarrow> ld16 ip 4;
     let ip_id = uint (if opt_winid_order (cfg t) then w else htons w)
     in Some (if opt_relid (cfg t) then snd (snd (relativize_id sq ip_id t)) else t)
   }"

definition log_icmp_ts :: "bytes \<Rightarrow> nat \<Rightarrow> tool \<Rightarrow> ((u32 \<times> u32 \<times> u32) \<times> tool) option" where
  "log_icmp_ts packet off t = do {
     orig \<leftarrow> be32_at packet off;
     recv \<leftarrow> be32_at packet (off + 4);
     tran \<leftarrow> be32_at packet (off + 8);
     Some ((orig, recv, tran), snd (milliseconds t))
   }"

definition log_traceroute :: "bytes \<Rightarrow> tool \<Rightarrow> tool option" where
  "log_traceroute ip t = do {
     saddr \<leftarrow> ld32 ip 12;
     if \<not> opt_tr_keep_ttl (cfg t) \<and> saddr = old_src_addr t then Some t
     else let t = t\<lparr>old_src_addr := saddr\<rparr>
       in Some (if opt_tr_keep_ttl (cfg t) then t else upd_cfg (\<lambda>c. c\<lparr>src_ttl := src_ttl c + 1\<rparr>) t)
   }"

definition count_reply :: "int \<Rightarrow> tool \<Rightarrow> tool" where
  "count_reply stat = upd_stats (hping_stats_on_reply stat)"

text \<open>What follows the ICMP header of an answer.\<close>

definition reply_data :: "bytes \<Rightarrow> u8 \<Rightarrow> tool \<Rightarrow> tool option" where
  "reply_data packet type t =
     (if opt_json (cfg t) then Some t
      else if type = 14 \<and> length packet - 8 \<ge> 12 then map_option snd (log_icmp_ts packet 8 t)
      else if type = 18 \<and> length packet - 8 \<ge> 4 then map_option (\<lambda>_. t) (ld packet 8 4)
      else Some t)"

text \<open>An answer to an echo, timestamp or address mask request.\<close>

definition recv_icmp_reply :: "bytes \<Rightarrow> bytes \<Rightarrow> u8 \<Rightarrow> tool \<Rightarrow> (bool \<times> tool) option" where
  "recv_icmp_reply ip packet type t = do {
     s \<leftarrow> ld16 packet 6;
     (case rtt (uint s) 0 t of (stat, sq, ms, t) \<Rightarrow> do {
        t \<leftarrow> log_ip ip sq (count_reply stat t);
        t \<leftarrow> reply_data packet type t;
        Some (True, t)
      })
   }"

text \<open>The switch at the end of the treatment of an error.\<close>

definition error_report :: "bytes \<Rightarrow> u8 \<Rightarrow> u8 \<Rightarrow> tool \<Rightarrow> (bool \<times> tool) option" where
  "error_report ip type code t =
     (if type = 3 then
        if opt_json (cfg t) \<or> opt_quiet (cfg t) then Some (True, t)
        else map_option (\<lambda>_. (True, t)) (log_icmp_unreach code)
      else if opt_json (cfg t) then
        Some (True, if opt_traceroute (cfg t) \<and> \<not> opt_tr_keep_ttl (cfg t) then upd_cfg (\<lambda>c. c\<lparr>src_ttl := src_ttl c + 1\<rparr>) t else t)
      else if opt_traceroute (cfg t) then map_option (Pair True) (log_traceroute ip t)
      else Some (True, t))"

text \<open>A destination unreachable or time exceeded error that quotes one of our probes.\<close>

definition recv_icmp_error :: "bytes \<Rightarrow> bytes \<Rightarrow> u8 \<Rightarrow> tool \<Rightarrow> (bool \<times> tool) option" where
  "recv_icmp_error ip packet type t =
     (if length packet - 8 < 20 then Some (False, t)
      else do {
        qdaddr \<leftarrow> ld32 packet (8 + 16);
        daddr \<leftarrow> ld32 ip 16;
        if qdaddr \<noteq> remote_addr (ctx t) \<or> daddr \<noteq> local_addr (ctx t) then Some (False, t)
        else do {
          code \<leftarrow> ld8 packet 1;
          (stat, sq, ms, t) \<leftarrow> icmp_unreach_rtt (drop 8 packet) t;
          error_report ip type code (count_reply (if stat = -1 then S_UNKNOWN else stat) t)
        }
      })"

definition recv_icmp :: "bytes \<Rightarrow> bytes \<Rightarrow> tool \<Rightarrow> (bool \<times> tool) option" where
  "recv_icmp ip packet t =
     (if length packet < 8 then Some (False, t)
      else do {
        type \<leftarrow> ld8 packet 0;
        ident \<leftarrow> ld16 packet 4;
        if (type = 0 \<or> type = 14 \<or> type = 18) \<and> ident = word_of_nat (pid (env t))
        then recv_icmp_reply ip packet type t
        else if type = 3 \<or> type = 11 then recv_icmp_error ip packet type t
        else Some (False, t)
      })"

definition port_matches :: "int \<Rightarrow> hping_config \<Rightarrow> bool" where
  "port_matches sport c \<longleftrightarrow> sport = dst_port c \<or> (opt_force_incdport c \<and> base_dst_port c \<le> sport \<and> sport \<le> dst_port c)"

definition next_dst_port :: "tool \<Rightarrow> tool" where
  "next_dst_port t = (if opt_incdport (cfg t) \<and> \<not> opt_force_incdport (cfg t)
     then upd_cfg (\<lambda>c. c\<lparr>dst_port := dst_port c + 1\<rparr>) t else t)"

definition udp_report :: "bytes \<Rightarrow> int \<Rightarrow> tool \<Rightarrow> tool option" where
  "udp_report ip sq t = (if opt_json (cfg t) \<or> \<not> opt_quiet (cfg t) then log_ip ip sq t else Some t)"

definition recv_udp :: "bytes \<Rightarrow> bytes \<Rightarrow> tool \<Rightarrow> (bool \<times> tool) option" where
  "recv_udp ip packet t =
     (if length packet < 8 then Some (False, t)
      else do {
        sport \<leftarrow> port_at packet 0;
        dport \<leftarrow> port_at packet 2;
        if \<not> port_matches sport (cfg t) then Some (False, t)
        else (case rtt 0 dport t of (stat, sq, ms, t) \<Rightarrow> do {
          t \<leftarrow> udp_report ip sq (count_reply stat t);
          Some (True, next_dst_port t)
        })
      })"

text \<open>\<open>--seqnum\<close>: the distance to the last sequence number.\<close>

definition seq_diff :: "u32 \<Rightarrow> u32 \<Rightarrow> u32" where
  "seq_diff was now = (if now \<ge> was then now - was else (4294967295 - was) + now)"

definition tcp_report :: "bytes \<Rightarrow> bytes \<Rightarrow> u32 \<Rightarrow> int \<Rightarrow> int \<Rightarrow> rat \<Rightarrow> tool \<Rightarrow> tool option" where
  "tcp_report ip packet th_seq stat sq ms t =
     (if opt_json (cfg t) then log_ip ip sq t
      else if opt_seqnum (cfg t) then Some (t\<lparr>old_th_seq := th_seq\<rparr>)
      else if opt_quiet (cfg t) then Some t
      else do {
        t \<leftarrow> log_ip ip sq t;
        if opt_tcp_timestamp (cfg t) \<and> stat \<noteq> S_RECV
        then map_option snd (print_tcp_timestamp packet \<lfloor>ms\<rfloor> t)
        else Some t
      })"

definition recv_tcp :: "bytes \<Rightarrow> bytes \<Rightarrow> tool \<Rightarrow> (bool \<times> tool) option" where
  "recv_tcp ip packet t =
     (if length packet < 20 then Some (False, t)
      else do {
        sport \<leftarrow> port_at packet 0;
        dport \<leftarrow> port_at packet 2;
        th_seq \<leftarrow> be32_at packet 4;
        flags \<leftarrow> ld8 packet 13;
        if \<not> port_matches sport (cfg t) then Some (False, t)
        else (case rtt 0 dport (upd_ctx (\<lambda>c. c\<lparr>tcp_exitcode := uint flags\<rparr>) t) of (stat, sq, ms, t) \<Rightarrow> do {
          t \<leftarrow> tcp_report ip packet th_seq stat sq ms (count_reply stat t);
          Some (True, next_dst_port t)
        })
      })"

section \<open>HCMP messages of the peer\<close>

definition to_string :: "bytes \<Rightarrow> string" where
  "to_string = map (\<lambda>b. char_of (unat b))"

definition handle_hcmp :: "bytes \<Rightarrow> tool \<Rightarrow> tool option" where
  "handle_hcmp packet t = do {
     m \<leftarrow> memstr (to_string packet) (rsign (ctx t)) (int (length packet));
     (case m of
        None \<Rightarrow> Some t
      | Some i \<Rightarrow> let p = i + length (rsign (ctx t)) in
          if length packet - p < 8 then Some t
          else do {
            type \<leftarrow> ld8 packet p;
            seqnum \<leftarrow> be16_at packet (p + 4);
            if type = 1 then datafiller_seek (uint seqnum) (upd_cfg (\<lambda>c. c\<lparr>src_id := uint seqnum\<rparr>) t)
            else Some t
          })
   }"

section \<open>One frame\<close>

definition read_packet :: "nat \<Rightarrow> tool \<Rightarrow> frame \<times> tool" where
  "read_packet sz t =
     ((case frames (env t) (reads t) of Frame bs \<Rightarrow> if take sz bs = [] then No_frame else Frame (take sz bs) | f \<Rightarrow> f),
      t\<lparr>reads := reads t + 1\<rparr>)"

text \<open>What follows a frame that was handled; \<open>enc\<close> is what the IP header carries.\<close>

definition after_reply :: "u8 \<Rightarrow> bytes \<Rightarrow> bytes \<Rightarrow> bool \<Rightarrow> tool \<Rightarrow> tool option" where
  "after_reply proto ip_packet enc match t = do {
     t \<leftarrow> (if match \<and> opt_rroute (cfg t) \<and> \<not> opt_quiet (cfg t) then map_option snd (display_ipopt ip_packet t) else Some t);
     t \<leftarrow> (if opt_traceroute (cfg t) \<and> opt_tr_stop (cfg t) \<and> match
           then let t = (if proto \<noteq> 1 then hping_stop HPING_STOP_TRACEROUTE t else t)
             in if length enc \<ge> 8
                then map_option (\<lambda>type. if type \<noteq> 11 then hping_stop HPING_STOP_TRACEROUTE t else t) (ld8 enc 0)
                else Some t
           else Some t);
     Some (if cfg_count (cfg t) \<noteq> -1 \<and> word_of_int (cfg_count (cfg t)) = hping_stats_unique (stats t)
           then hping_stop HPING_STOP_COUNT t else t)
   }"

definition dispatch :: "u8 \<Rightarrow> bytes \<Rightarrow> bytes \<Rightarrow> tool \<Rightarrow> (bool \<times> tool) option" where
  "dispatch proto ip enc t =
     (if proto = 1 then recv_icmp ip enc t else if proto = 17 then recv_udp ip enc t else recv_tcp ip enc t)"

text \<open>From the check of the addresses on; \<open>ip\<close> is the fixed header of \<open>ip_packet\<close>.\<close>

definition handle_reply :: "bytes \<Rightarrow> bytes \<Rightarrow> nat \<Rightarrow> tool \<Rightarrow> tool option" where
  "handle_reply ip ip_packet hsize t = do {
     daddr \<leftarrow> ld32 ip 16;
     saddr \<leftarrow> ld32 ip 12;
     proto \<leftarrow> ld8 ip 9;
     if daddr \<noteq> local_addr (ctx t) then Some t
     else if proto \<noteq> 1 \<and> \<not> opt_rand_dest (cfg t) \<and> saddr \<noteq> remote_addr (ctx t) then Some t
     else if proto \<notin> {1, 17, 6} then Some t
     else do {
       let enc = drop hsize ip_packet;
       (match, t) \<leftarrow> dispatch proto ip enc t;
       after_reply proto ip_packet enc match t
     }
   }"

definition handle_datagram :: "bytes \<Rightarrow> tool \<Rightarrow> tool option" where
  "handle_datagram ip_packet t =
     (if length ip_packet < 20 then Some t
      else do {
        ip \<leftarrow> ld ip_packet 0 20;
        b \<leftarrow> ld8 ip 0;
        let hsize = unat (b AND 0xf) * 4;
        if drop_bit 4 b = 6 then Some t
        else if hsize < 20 \<or> hsize > length ip_packet then Some t
        else do {
          t \<leftarrow> (if opt_sign (cfg t) then handle_hcmp ip_packet t else Some t);
          handle_reply ip ip_packet hsize t
        }
      })"

definition wait_packet :: "tool \<Rightarrow> tool option" where
  "wait_packet t =
     (case read_packet (65535 + unat (linkhdr_size (ctx t))) t of
        (No_frame, t) \<Rightarrow> Some t
      | (End_of_input, t) \<Rightarrow> Some (hping_stop HPING_STOP_EOF t)
      | (Frame bs, t) \<Rightarrow>
          if length bs < unat (linkhdr_size (ctx t)) then Some t
          else handle_datagram (drop (unat (linkhdr_size (ctx t))) bs) t)"

section \<open>Link headers\<close>

text \<open>The link layer types of libpcap that the code names.\<close>

datatype dlt = DLT_EN10MB | DLT_RAW | DLT_NULL | DLT_LOOP | DLT_LINUX_SLL | DLT_LINUX_SLL2 | DLT_PPP | DLT_PPP_SERIAL
  | DLT_C_HDLC | DLT_PPP_BSDOS | DLT_SLIP | DLT_SLIP_BSDOS | DLT_FDDI | DLT_ATM_RFC1483 | DLT_CIP | DLT_ATM_CLIP | DLT_LANE8023
  | DLT_other int

definition dltype_to_lhs :: "dlt \<Rightarrow> int" where
  "dltype_to_lhs dltype = (case dltype of
     DLT_EN10MB \<Rightarrow> 14 | DLT_RAW \<Rightarrow> 0 | DLT_NULL \<Rightarrow> 4 | DLT_LOOP \<Rightarrow> 4 | DLT_LINUX_SLL \<Rightarrow> 16 | DLT_LINUX_SLL2 \<Rightarrow> 20
   | DLT_PPP \<Rightarrow> 4 | DLT_PPP_SERIAL \<Rightarrow> 4 | DLT_C_HDLC \<Rightarrow> 4 | DLT_PPP_BSDOS \<Rightarrow> 24 | DLT_SLIP \<Rightarrow> 16 | DLT_SLIP_BSDOS \<Rightarrow> 16
   | DLT_FDDI \<Rightarrow> 13 | DLT_ATM_RFC1483 \<Rightarrow> 8 | DLT_CIP \<Rightarrow> 8 | DLT_ATM_CLIP \<Rightarrow> 8 | DLT_LANE8023 \<Rightarrow> 16 | DLT_other _ \<Rightarrow> -1)"

definition get_linkhdr_size :: "dlt \<Rightarrow> tool \<Rightarrow> bool \<times> tool" where
  "get_linkhdr_size dltype t =
     (let lhs = dltype_to_lhs dltype in if lhs < 0 then (False, t) else (True, upd_ctx (\<lambda>c. c\<lparr>linkhdr_size := word_of_int lhs\<rparr>) t))"

section \<open>What receiving leaves alone\<close>

text \<open>The configuration and the context without the fields that a reply may change.\<close>

definition fixed_cfg :: "hping_config \<Rightarrow> hping_config" where
  "fixed_cfg c = c\<lparr>src_ttl := 0, src_id := 0, dst_port := 0\<rparr>"

definition fixed_ctx :: "hping_context \<Rightarrow> hping_context" where
  "fixed_ctx c = c\<lparr>reason := HPING_STOP_NONE, tcp_exitcode := 0, delaytable := []\<rparr>"

definition clock_at :: "tool \<Rightarrow> nat \<Rightarrow> int" where
  "clock_at t = (case clock_monotonic (ctx t) of System \<Rightarrow> sys_monotonic (env t) | Installed f \<Rightarrow> f)"

text \<open>From \<open>t\<close> to \<open>t'\<close> no probe was sent, the options are the same, the first reason to stop
  stays, and \<open>n\<close> replies were counted.\<close>

definition recv_step :: "u64 \<Rightarrow> tool \<Rightarrow> tool \<Rightarrow> bool" where
  "recv_step n t t' \<longleftrightarrow>
     env t' = env t \<and> wire t' = wire t \<and> sends t' = sends t \<and> clock_calls t \<le> clock_calls t'
     \<and> length (old_rr t') = length (old_rr t)
     \<and> sig_stop t' = sig_stop t \<and> sig_tstp t' = sig_tstp t \<and> waits_done t' = waits_done t \<and> printed t' = printed t
     \<and> exp_id t' = exp_id t \<and> stdout_writes t' = stdout_writes t
     \<and> fixed_cfg (cfg t') = fixed_cfg (cfg t) \<and> fixed_ctx (ctx t') = fixed_ctx (ctx t)
     \<and> (reason (ctx t) \<noteq> HPING_STOP_NONE \<longrightarrow> reason (ctx t') = reason (ctx t))
     \<and> (table_ok (delaytable (ctx t)) \<longrightarrow> table_ok (delaytable (ctx t')))
     \<and> sent (stats t') = sent (stats t) \<and> received (stats t') = received (stats t) + n"

text \<open>\<open>recv_step\<close> without a timestamp.\<close>

definition quiet_step :: "u64 \<Rightarrow> tool \<Rightarrow> tool \<Rightarrow> bool" where
  "quiet_step n t t' \<longleftrightarrow> recv_step n t t' \<and> first_tstamp t' = first_tstamp t \<and> first_mstime t' = first_mstime t"

lemma recv_step_trans: "recv_step n t u \<Longrightarrow> recv_step m u v \<Longrightarrow> recv_step (n + m) t v"
  unfolding recv_step_def by (elim conjE, intro conjI) (simp_all add: algebra_simps)

lemma recv_step_refl: "recv_step 0 t t"
  by (simp add: recv_step_def)

lemma quiet_step_trans: "quiet_step n t u \<Longrightarrow> quiet_step m u v \<Longrightarrow> quiet_step (n + m) t v"
  unfolding quiet_step_def by (metis recv_step_trans)

lemma quiet_step_refl: "quiet_step 0 t t"
  by (simp add: quiet_step_def recv_step_refl)

lemma fixed_cfgD:
  assumes "fixed_cfg c' = fixed_cfg c"
  shows "opt_tcp_timestamp c' = opt_tcp_timestamp c" "opt_clock_skew c' = opt_clock_skew c" "opt_json c' = opt_json c"
    "opt_quiet c' = opt_quiet c" "opt_sign c' = opt_sign c" "cfg_count c' = cfg_count c"
proof -
  have "opt_tcp_timestamp (fixed_cfg c') = opt_tcp_timestamp (fixed_cfg c)" "opt_clock_skew (fixed_cfg c') = opt_clock_skew (fixed_cfg c)"
    "opt_json (fixed_cfg c') = opt_json (fixed_cfg c)" "opt_quiet (fixed_cfg c') = opt_quiet (fixed_cfg c)"
    "opt_sign (fixed_cfg c') = opt_sign (fixed_cfg c)" "cfg_count (fixed_cfg c') = cfg_count (fixed_cfg c)"
    by (simp_all add: assms)
  then show "opt_tcp_timestamp c' = opt_tcp_timestamp c" "opt_clock_skew c' = opt_clock_skew c" "opt_json c' = opt_json c"
    "opt_quiet c' = opt_quiet c" "opt_sign c' = opt_sign c" "cfg_count c' = cfg_count c"
    by (simp_all add: fixed_cfg_def)
qed

lemma fixed_ctxD:
  assumes "fixed_ctx c' = fixed_ctx c"
  shows "clock_monotonic c' = clock_monotonic c" "rsign c' = rsign c" "local_addr c' = local_addr c" "remote_addr c' = remote_addr c"
    "linkhdr_size c' = linkhdr_size c" "next_send_us c' = next_send_us c" "end_deadline_us c' = end_deadline_us c"
proof -
  have "clock_monotonic (fixed_ctx c') = clock_monotonic (fixed_ctx c)" "rsign (fixed_ctx c') = rsign (fixed_ctx c)"
    "local_addr (fixed_ctx c') = local_addr (fixed_ctx c)" "remote_addr (fixed_ctx c') = remote_addr (fixed_ctx c)"
    "linkhdr_size (fixed_ctx c') = linkhdr_size (fixed_ctx c)" "next_send_us (fixed_ctx c') = next_send_us (fixed_ctx c)"
    "end_deadline_us (fixed_ctx c') = end_deadline_us (fixed_ctx c)"
    by (simp_all add: assms)
  then show "clock_monotonic c' = clock_monotonic c" "rsign c' = rsign c" "local_addr c' = local_addr c" "remote_addr c' = remote_addr c"
    "linkhdr_size c' = linkhdr_size c" "next_send_us c' = next_send_us c" "end_deadline_us c' = end_deadline_us c"
    by (simp_all add: fixed_ctx_def)
qed

lemma recv_stepD:
  assumes "recv_step n t t'"
  shows "env t' = env t" "fixed_cfg (cfg t') = fixed_cfg (cfg t)" "fixed_ctx (ctx t') = fixed_ctx (ctx t)"
    "length (old_rr t') = length (old_rr t)" "clock_calls t \<le> clock_calls t'" "clock_at t' = clock_at t"
  using assms fixed_ctxD(1) [of "ctx t'" "ctx t"] by (simp_all add: recv_step_def clock_at_def split: source.split)

text \<open>The small changes of the handlers.\<close>

lemma quiet_upd_cfg: "(\<And>c. fixed_cfg (f c) = fixed_cfg c) \<Longrightarrow> quiet_step 0 t (upd_cfg f t)"
  by (simp add: quiet_step_def recv_step_def upd_cfg_def)

lemma quiet_ttl: "quiet_step 0 t (upd_cfg (\<lambda>c. c\<lparr>src_ttl := src_ttl c + 1\<rparr>) t)"
  by (rule quiet_upd_cfg) (simp add: fixed_cfg_def)

lemma quiet_stop: "quiet_step 0 t (hping_stop r t)"
  by (simp add: quiet_step_def recv_step_def hping_stop_def upd_ctx_def fixed_ctx_def)

lemma quiet_exitcode: "quiet_step 0 t (upd_ctx (\<lambda>c. c\<lparr>tcp_exitcode := x\<rparr>) t)"
  by (simp add: quiet_step_def recv_step_def upd_ctx_def fixed_ctx_def)

lemma quiet_next_dst_port: "quiet_step 0 t (next_dst_port t)"
  by (simp add: next_dst_port_def quiet_step_refl quiet_upd_cfg fixed_cfg_def)

lemma quiet_count_reply: "quiet_step 1 t (count_reply what t)"
  by (simp add: quiet_step_def recv_step_def count_reply_def upd_stats_def hping_stats_on_reply_def Let_def)

lemma quiet_clock:
  "hping_monotonic_us t = (now, t') \<Longrightarrow> quiet_step 0 t t'" "mstime t = (now, t') \<Longrightarrow> quiet_step 0 t t'"
  by (auto simp: mstime_def hping_monotonic_us_def quiet_step_def recv_step_def)

lemma quiet_rtt_sample: "quiet_step 0 t (upd_stats (hping_stats_rtt_sample ms) t)"
  by (simp add: quiet_step_def recv_step_def upd_stats_def hping_stats_rtt_sample_def Let_def)

lemma quiet_answered:
  assumes "i < length (delaytable (ctx t))"
  shows "quiet_step 0 t (upd_ctx (\<lambda>c. c\<lparr>delaytable := (delaytable (ctx t))[i := (delaytable (ctx t) ! i)\<lparr>status := S_RECV\<rparr>]\<rparr>) t)"
  using assms table_ok_nth [of "delaytable (ctx t)" i]
  by (simp add: quiet_step_def recv_step_def upd_ctx_def fixed_ctx_def table_ok_update)

lemma quiet_rtt:
  assumes "rtt sq port t = (what, sq', ms, t')"
  shows "quiet_step 0 t t'" "0 \<le> ms"
proof -
  define P :: "delaytable_element \<Rightarrow> bool" where "P = (if sq \<noteq> 0 then (\<lambda>e. seq e = sq) else (\<lambda>e. src e = port))"
  have "quiet_step 0 t t' \<and> 0 \<le> ms"
  proof (cases "find_slot P (delaytable (ctx t)) 0")
    case None
    then have "t' = t \<and> ms = 0" using assms by (cases "sq = 0") (simp_all add: P_def rtt_def Let_def)
    then show ?thesis by (simp add: quiet_step_refl)
  next
    case (Some i)
    let ?t1 = "upd_ctx (\<lambda>c. c\<lparr>delaytable := (delaytable (ctx t))[i := (delaytable (ctx t) ! i)\<lparr>status := S_RECV\<rparr>]\<rparr>) t"
    obtain now t2 where m: "hping_monotonic_us ?t1 = (now, t2)" by fastforce
    have i: "i < length (delaytable (ctx t))" using find_slot_Some [OF Some] by simp
    have r: "t' = upd_stats (hping_stats_rtt_sample ms) t2" "ms = of_int (max 0 (now - sent_us (delaytable (ctx t) ! i))) / 1000"
      using Some assms m by (cases "sq = 0"; simp add: P_def rtt_def Let_def)+
    have "quiet_step (0 + (0 + 0)) t t'"
      unfolding r(1) by (intro quiet_step_trans [OF quiet_answered [OF i] quiet_step_trans [OF quiet_clock(1) [OF m] quiet_rtt_sample]])
    then show ?thesis by (simp add: r(2))
  qed
  then show "quiet_step 0 t t'" "0 \<le> ms" by simp_all
qed

section \<open>The handlers return\<close>

lemma yields_ld16: "off + 1 < length d \<Longrightarrow> yields (ld16 d off) P \<longleftrightarrow> P (le16 (d ! off) (d ! (off + 1)))"
  by (simp add: ld16_defined)

lemma yields_ld32: "off + 3 < length d \<Longrightarrow> yields (ld32 d off) P \<longleftrightarrow> P (le32 (d ! off) (d ! (off + 1)) (d ! (off + 2)) (d ! (off + 3)))"
  by (simp add: ld32_def)

lemma yields_be:
  "off + 1 < length d \<Longrightarrow> yields (be16_at d off) P \<longleftrightarrow> P (htons (le16 (d ! off) (d ! (off + 1))))"
  "off + 3 < length d \<Longrightarrow> yields (be32_at d off) Q \<longleftrightarrow> Q (htonl (le32 (d ! off) (d ! (off + 1)) (d ! (off + 2)) (d ! (off + 3))))"
  "off + 1 < length d \<Longrightarrow> yields (port_at d off) R \<longleftrightarrow> R (uint (htons (le16 (d ! off) (d ! (off + 1)))))"
  by (simp_all add: be16_at_def be32_at_def port_at_def yields_ld16 yields_ld32)

lemmas yields_mem = yields_ld yields_ld8 yields_ld16 yields_ld32 yields_be

lemma quiet_relid: "quiet_step 0 t (snd (snd (relativize_id sq i t)))"
  by (simp add: relativize_id_def Let_def quiet_step_def recv_step_def upd_stats_def)

lemma log_ip_ok: "length ip = 20 \<Longrightarrow> yields (log_ip ip sq t) (quiet_step 0 t)"
  by (simp add: log_ip_def yields_mem Let_def quiet_relid quiet_step_refl)

lemma log_icmp_ts_ok: "off + 12 \<le> length packet \<Longrightarrow> yields (log_icmp_ts packet off t) (\<lambda>(_, t'). quiet_step 0 t t')"
  by (simp add: log_icmp_ts_def yields_mem milliseconds_def hping_wall_us_def quiet_step_def recv_step_def)

lemma quiet_old_src: "quiet_step 0 t (t\<lparr>old_src_addr := a\<rparr>)"
  by (simp add: quiet_step_def recv_step_def)

lemma log_traceroute_ok: "length ip = 20 \<Longrightarrow> yields (log_traceroute ip t) (quiet_step 0 t)"
  using quiet_step_trans [OF quiet_old_src quiet_ttl]
  by (simp add: log_traceroute_def yields_mem Let_def quiet_step_refl quiet_old_src)

lemma quiet_then: "quiet_step n t u \<Longrightarrow> yields m (quiet_step k u) \<Longrightarrow> yields m (quiet_step (n + k) t)"
  by (erule yields_mono) (rule quiet_step_trans)

lemma reply_data_ok: "yields (reply_data packet type t) (quiet_step 0 t)"
proof -
  have "yields (map_option snd (log_icmp_ts packet 8 t)) (quiet_step 0 t)" if "length packet - 8 \<ge> 12"
    using that yields_mono [OF log_icmp_ts_ok [of 8 packet t], of "\<lambda>x. quiet_step 0 t (snd x)"] by auto
  moreover have "yields (map_option (\<lambda>_. t) (ld packet 8 4)) (quiet_step 0 t)" if "length packet - 8 \<ge> 4"
    using that by (subst yields_simps, subst yields_ld) (arith, simp add: quiet_step_refl)
  ultimately show ?thesis
    unfolding reply_data_def by (intro yields_if) (simp_all add: quiet_step_refl)
qed

lemma recv_icmp_reply_ok:
  assumes "length ip = 20" "8 \<le> length packet"
  shows "yields (recv_icmp_reply ip packet type t) (\<lambda>(m, t'). m \<and> quiet_step 1 t t')"
proof -
  obtain what sq ms t1 where r: "rtt (uint (le16 (packet ! 6) (packet ! 7))) 0 t = (what, sq, ms, t1)" by (metis prod_cases4)
  have "quiet_step (0 + 1) t (count_reply what t1)" by (rule quiet_step_trans [OF quiet_rtt(1) [OF r] quiet_count_reply])
  then have step: "yields (log_ip ip sq (count_reply what t1)) (quiet_step (1 + 0) t)"
    by (intro quiet_then [OF _ log_ip_ok [OF assms(1)]]) simp
  have "yields (log_ip ip sq (count_reply what t1)) (\<lambda>u. yields (reply_data packet type u) (quiet_step 1 t))"
    using step by (rule yields_mono) (use quiet_then [OF _ reply_data_ok, of 1 t] in simp)
  then show ?thesis
    using assms r by (simp add: recv_icmp_reply_def yields_mem)
qed

lemma icmp_unreach_rtt_ok: "yields (icmp_unreach_rtt quoted t) (\<lambda>(what, sq, ms, t'). quiet_step 0 t t')"
proof -
  have r: "case rtt sq port t of (what, sq, ms, t') \<Rightarrow> quiet_step 0 t t'" for sq port
    using quiet_rtt(1) by (auto split: prod.splits)
  have q: "yields (Some (-1, 0, 0, t)) (\<lambda>(what, sq, ms, t'). quiet_step 0 t t')" for t by (simp add: quiet_step_refl)
  have "yields (if h < 20 then Some (-1, 0, 0, t)
      else do {
          proto \<leftarrow> ld8 quoted 9;
          if proto = 6 \<or> proto = 17 then
            if int (length quoted) - int h < 2 then Some (-1, 0, 0, t)
            else do { sport \<leftarrow> port_at quoted h; Some (rtt 0 sport t) }
          else if proto = 1 then
            if int (length quoted) - int h < 8 then Some (-1, 0, 0, t)
            else do {
              type \<leftarrow> ld8 quoted h;
              s \<leftarrow> ld16 quoted (h + 6);
              if type \<noteq> 8 then Some (-1, 0, 0, t) else Some (rtt (uint s) 0 t)
            }
          else Some (-1, 0, 0, t)
        }) (\<lambda>(what, sq, ms, t'). quiet_step 0 t t')" if "20 \<le> length quoted" for h
    using that r q [of t] by (intro yields_if q) (simp_all add: yields_mem)
  note rest = this
  show ?thesis
    unfolding icmp_unreach_rtt_def Let_def
  proof (rule yields_if [OF q yields_if [OF q yields_bindI [where Q = "\<lambda>_. True"]]])
    assume "\<not> length quoted < 20"
    then have "0 < length quoted" by linarith
    then show "yields (ld8 quoted 0) (\<lambda>_. True)" by (simp add: yields_ld8)
  qed (rule rest, simp)
qed

text \<open>An ICMP error whose code is in the table of \<open>log_icmp_unreach\<close>.\<close>

definition code_ok :: "bytes \<Rightarrow> hping_config \<Rightarrow> bool" where
  "code_ok packet c \<longleftrightarrow> packet ! 0 = 3 \<longrightarrow> unat (packet ! 1) < 16 \<or> opt_quiet c \<or> opt_json c"

definition counted :: "bool \<Rightarrow> tool \<Rightarrow> tool \<Rightarrow> bool" where
  "counted m t t' \<longleftrightarrow> recv_step (if m then 1 else 0) t t'"

definition quiet_counted :: "bool \<Rightarrow> tool \<Rightarrow> tool \<Rightarrow> bool" where
  "quiet_counted m t t' \<longleftrightarrow> quiet_step (if m then 1 else 0) t t'"

lemma quiet_counted_refl: "quiet_counted False t t"
  by (simp add: quiet_counted_def quiet_step_refl)

lemma error_report_ok:
  assumes "length ip = 20" "type = packet ! 0" "code_ok packet (cfg t)" "quiet_step 1 t t2"
  shows "yields (error_report ip type (packet ! 1) t2) (\<lambda>(m, t'). quiet_counted m t t')"
proof -
  have "unat (packet ! 1) < 16" if "type = 3" "\<not> (opt_json (cfg t2) \<or> opt_quiet (cfg t2))"
    using that assms(2,3,4) fixed_cfgD [of "cfg t2" "cfg t"] by (auto simp: code_ok_def quiet_step_def recv_step_def)
  then have "yields (map_option (\<lambda>_. (True, t2)) (log_icmp_unreach (packet ! 1))) (\<lambda>(m, t'). quiet_counted m t t')"
    if "type = 3" "\<not> (opt_json (cfg t2) \<or> opt_quiet (cfg t2))"
    using that assms(4) by (simp add: log_icmp_unreach_def icmp_unreach_msg_def quiet_counted_def)
  then show ?thesis
    unfolding error_report_def
    using quiet_then [OF assms(4) log_traceroute_ok [OF assms(1)]] assms(4) quiet_step_trans [OF assms(4) quiet_ttl]
    by (intro yields_if) (simp_all add: quiet_counted_def)
qed

lemma recv_icmp_error_ok:
  assumes "length ip = 20" "8 \<le> length packet" "type = packet ! 0" "code_ok packet (cfg t)"
  shows "yields (recv_icmp_error ip packet type t) (\<lambda>(m, t'). quiet_counted m t t')"
proof (cases "length packet - 8 < 20")
  case True
  then show ?thesis by (simp add: recv_icmp_error_def quiet_counted_refl)
next
  case False
  then have len: "28 \<le> length packet" by linarith
  have r: "yields (error_report ip type (packet ! 1) (count_reply what u)) (\<lambda>(m, t'). quiet_counted m t t')"
    if "quiet_step 0 t u" for what u
    using quiet_step_trans [OF that quiet_count_reply] by (intro error_report_ok assms) simp
  have "yields (icmp_unreach_rtt (drop 8 packet) t)
      (\<lambda>(what, sq, ms, u). yields (error_report ip type (packet ! 1) (count_reply (if what = -1 then S_UNKNOWN else what) u))
        (\<lambda>(m, t'). quiet_counted m t t'))"
    by (rule yields_mono [OF icmp_unreach_rtt_ok]) (auto simp del: One_nat_def split: prod.splits intro: r)
  then show ?thesis
    using False len assms(1) by (simp add: recv_icmp_error_def yields_mem quiet_counted_refl case_prod_unfold)
qed

lemma recv_icmp_ok:
  assumes "length ip = 20" "code_ok packet (cfg t)"
  shows "yields (recv_icmp ip packet t) (\<lambda>(m, t'). quiet_counted m t t')"
proof (cases "length packet < 8")
  case False
  then have len: "8 \<le> length packet" by simp
  have "yields (recv_icmp_reply ip packet (packet ! 0) t) (\<lambda>(m, t'). quiet_counted m t t')"
    by (rule yields_mono [OF recv_icmp_reply_ok [OF assms(1) len]]) (auto simp: quiet_counted_def)
  moreover have "0 < length packet" using len by linarith
  ultimately show ?thesis
    using len recv_icmp_error_ok [OF assms(1) len refl assms(2)]
    by (simp add: recv_icmp_def yields_ld8 yields_ld16 quiet_counted_refl)
qed (simp add: recv_icmp_def quiet_counted_refl)

lemma quiet_accounted: "rtt sq port t = (what, sq', ms, t') \<Longrightarrow> quiet_step 1 t (count_reply what t')"
  using quiet_step_trans [OF quiet_rtt(1) quiet_count_reply] by simp

lemma recv_udp_ok:
  assumes "length ip = 20"
  shows "yields (recv_udp ip packet t) (\<lambda>(m, t'). quiet_counted m t t')"
proof (cases "length packet < 8")
  case False
  have "yields (udp_report ip sq u) (\<lambda>u'. quiet_counted True t (next_dst_port u'))" if "quiet_step 1 t u" for u sq
    unfolding udp_report_def
    using quiet_step_trans [OF that quiet_next_dst_port] quiet_step_trans [OF _ quiet_next_dst_port, of 1 t]
      yields_mono [OF quiet_then [OF that log_ip_ok [OF assms]], of "\<lambda>u'. quiet_counted True t (next_dst_port u')"]
    by (intro yields_if) (simp_all add: quiet_counted_def)
  then show ?thesis
    using False by (auto simp: recv_udp_def yields_mem Let_def quiet_counted_refl split: prod.splits dest!: quiet_accounted)
qed (simp add: recv_udp_def quiet_counted_refl)

text \<open>With timestamps, no later reading of the clock falls into the millisecond of the first one.\<close>

definition ts_ready :: "tool \<Rightarrow> bool" where
  "ts_ready t \<longleftrightarrow> opt_tcp_timestamp (cfg t) \<longrightarrow> \<not> opt_clock_skew (cfg t)
     \<and> (first_tstamp t \<noteq> 0 \<longrightarrow> (\<forall>n \<ge> clock_calls t. word_of_int (clock_at t n div 1000) \<noteq> first_mstime t))"

lemma ts_ready_quiet: "quiet_step n t t' \<Longrightarrow> ts_ready t \<Longrightarrow> ts_ready t'"
  using recv_stepD [of n t t'] fixed_cfgD [of "cfg t'" "cfg t"] by (auto simp: ts_ready_def quiet_step_def)

lemma mstime_eq: "mstime t = (clock_at t (clock_calls t) div 1000, t\<lparr>clock_calls := clock_calls t + 1\<rparr>)"
  by (simp add: mstime_def hping_monotonic_us_def clock_at_def split: source.split)

lemma timestamp_found_ok:
  assumes "ts_ready t" "opt_tcp_timestamp (cfg t)"
  shows "yields (timestamp_found tstamp rttms t) (\<lambda>(_, t'). recv_step 0 t t')"
proof (cases "first_tstamp t = 0")
  case True
  then show ?thesis by (simp add: timestamp_found_def mstime_eq recv_step_def)
next
  case False
  then have "word_of_int (clock_at t (clock_calls t) div 1000) - first_mstime t \<noteq> 0" "\<not> opt_clock_skew (cfg t)"
    using assms by (auto simp: ts_ready_def)
  then show ?thesis using False by (simp add: timestamp_found_def mstime_eq recv_step_def Let_def)
qed

lemma ts_walk_ok: "opt + optlen \<le> length tcp \<Longrightarrow> yields (ts_walk tcp opt optlen) (\<lambda>_. True)"
proof (induction tcp opt optlen rule: ts_walk.induct)
  case (1 tcp opt optlen)
  show ?case
  proof (cases "optlen = 0")
    case False
    then have k: "ld8 tcp opt = Some (tcp ! opt)" using 1(3) by (intro ld8_defined) linarith
    have n: "\<not> optlen < 2 \<Longrightarrow> ld8 tcp (opt + 1) = Some (tcp ! (opt + 1))" using 1(3) by (intro ld8_defined) linarith
    show ?thesis
    proof (cases "10 \<le> optlen")
      case True
      then obtain v w where "be32_at tcp (opt + 2) = Some v" "be32_at tcp (opt + 6) = Some w"
        using 1(3) by (auto simp: be32_at_def ld32_def)
      then show ?thesis
        using 1(1) [OF False k] 1(2) [OF False k _ _ _ n] 1(3) k n by (subst ts_walk.simps) auto
    next
      case False
      then show ?thesis
        using 1(1) [OF \<open>optlen \<noteq> 0\<close> k] 1(2) [OF \<open>optlen \<noteq> 0\<close> k _ _ _ n] 1(3) k n False by (subst ts_walk.simps) auto
    qed
  qed (simp add: ts_walk.simps)
qed

lemma print_tcp_timestamp_ok:
  assumes "ts_ready t" "opt_tcp_timestamp (cfg t)"
  shows "yields (print_tcp_timestamp tcp rttms t) (\<lambda>(_, t'). recv_step 0 t t')"
proof -
  have "yields (case r of Ts_none \<Rightarrow> Some (None, t) | Ts_end \<Rightarrow> timestamp_found 0 rttms t
      | Ts_found tstamp echo \<Rightarrow> timestamp_found tstamp rttms t) (\<lambda>(_, t'). recv_step 0 t t')" for r
    using timestamp_found_ok [OF assms] by (simp add: recv_step_refl split: ts_result.split)
  moreover have "yields (ts_walk tcp 20 (n - 20)) (\<lambda>_. True)" if "\<not> (n \<le> 20 \<or> n > length tcp)" for n
    using that by (intro ts_walk_ok) linarith
  ultimately have walk: "yields (Option.bind (ts_walk tcp 20 (n - 20)) (\<lambda>r. case r of Ts_none \<Rightarrow> Some (None, t)
      | Ts_end \<Rightarrow> timestamp_found 0 rttms t | Ts_found tstamp echo \<Rightarrow> timestamp_found tstamp rttms t))
      (\<lambda>(_, t'). recv_step 0 t t')" if "\<not> (n \<le> 20 \<or> n > length tcp)" for n
    using that yields_bindI by blast
  have none: "yields (Some (None, t)) (\<lambda>(_, t'). recv_step 0 t t')" by (simp add: recv_step_refl)
  show ?thesis
    unfolding print_tcp_timestamp_def Let_def
  proof (rule yields_if [OF none yields_bindI [where Q = "\<lambda>_. True"]])
    assume "\<not> length tcp < 20"
    then have "12 < length tcp" by linarith
    then show "yields (ld8 tcp 12) (\<lambda>_. True)" by (simp add: yields_ld8)
  qed (intro yields_if none walk)
qed

lemma recv_of_quiet: "quiet_step n t t' \<Longrightarrow> recv_step n t t'"
  by (simp add: quiet_step_def)

lemma tcp_report_ok:
  assumes "length ip = 20" "ts_ready t" "quiet_step 1 t u"
  shows "yields (tcp_report ip packet th_seq what sq ms u) (recv_step 1 t)"
proof -
  have log: "yields (log_ip ip sq u) (quiet_step 1 t)" using quiet_then [OF assms(3) log_ip_ok [OF assms(1)]] by simp
  have "quiet_step 0 u (u\<lparr>old_th_seq := s\<rparr>)" for s by (simp add: quiet_step_def recv_step_def)
  from quiet_step_trans [OF assms(3) this] have s: "quiet_step 1 t (u\<lparr>old_th_seq := th_seq\<rparr>)" by simp
  have ts: "yields (map_option snd (print_tcp_timestamp packet r v)) (recv_step 1 t)"
    if "quiet_step 1 t v" "opt_tcp_timestamp (cfg v) \<and> what \<noteq> S_RECV" for r v
    using print_tcp_timestamp_ok [OF ts_ready_quiet [OF that(1) assms(2)], of packet r] that recv_step_trans [OF recv_of_quiet [OF that(1)], of 0]
    by (auto elim!: yields_mono)
  show ?thesis
    unfolding tcp_report_def
    by (intro yields_if yields_bindI [OF log] ts) (use s assms(3) in \<open>auto simp: recv_of_quiet intro: yields_mono [OF log]\<close>)
qed

lemma recv_tcp_ok:
  assumes "length ip = 20" "ts_ready t"
  shows "yields (recv_tcp ip packet t) (\<lambda>(m, t'). counted m t t')"
proof (cases "length packet < 20")
  case False
  have "yields (tcp_report ip packet th_seq what sq ms u) (\<lambda>u'. counted True t (next_dst_port u'))" if "quiet_step 1 t u" for th_seq what sq ms u
    using recv_step_trans [OF _ recv_of_quiet [OF quiet_next_dst_port], of 1 t]
    by (intro yields_mono [OF tcp_report_ok [OF assms that]]) (simp add: counted_def)
  moreover have "quiet_step 1 t (count_reply what u)"
    if "rtt sq port (upd_ctx (\<lambda>c. c\<lparr>tcp_exitcode := x\<rparr>) t) = (what, sq', ms, u)" for sq port x what sq' ms u
    using quiet_step_trans [OF quiet_exitcode quiet_accounted [OF that]] by simp
  ultimately show ?thesis
    using False by (auto simp: recv_tcp_def yields_mem counted_def recv_step_refl split: prod.splits)
qed (simp add: recv_tcp_def counted_def recv_step_refl)

lemma handle_hcmp_ok:
  assumes "data_file (env t) \<noteq> None"
  shows "yields (handle_hcmp packet t) (quiet_step 0 t)"
proof -
  let ?m = "memstr (to_string packet) (rsign (ctx t)) (int (length packet))"
  have len: "length (to_string packet) = length packet" by (simp add: to_string_def)
  have seek: "yields (datafiller_seek n (upd_cfg (\<lambda>c. c\<lparr>src_id := n\<rparr>) t)) (quiet_step 0 t)" for n
    using assms by (auto simp: datafiller_seek_def quiet_step_def recv_step_def upd_cfg_def fixed_cfg_def)
  have "case ?m of None \<Rightarrow> False | Some None \<Rightarrow> True | Some (Some i) \<Rightarrow> i + length (rsign (ctx t)) \<le> length packet"
    using memstr_spec [of "int (length packet)" "to_string packet" "rsign (ctx t)"] by (auto simp: len split: option.splits)
  then show ?thesis
    using seek by (auto simp: handle_hcmp_def Let_def yields_mem quiet_step_refl split: option.splits)
qed

lemma addresses_ok: "off + n * 4 \<le> length b \<Longrightarrow> yields (addresses b off n) (\<lambda>as. length as = n)"
proof (induction n arbitrary: off)
  case (Suc n)
  then show ?case by (auto simp: yields_ld intro: yields_mono [OF Suc.IH])
qed simp

lemma show_rr_ok:
  assumes "cp + optlen \<le> length area" "optlen \<le> 40" "length rr = 40" "2 \<le> optlen"
  shows "yields (show_rr area cp optlen (rrlen, rr)) (\<lambda>(ls, rrlen, rr). length rr = 40)"
proof -
  have r: "yields (let i = min p optlen; naddr = min ((i - 4 + 3) div 4) ((optlen - 3) div 4)
     in if i \<le> 4 \<or> naddr = 0 then Some ([], rrlen, rr)
        else do {
          route \<leftarrow> ld area (cp + 3) (naddr * 4);
          same \<leftarrow> (if naddr * 4 = rrlen \<and> cp = 0 then map_option (\<lambda>last_route. route = last_route) (ld rr 0 (naddr * 4)) else Some False);
          if same then Some ([Line_same], rrlen, rr)
          else do {
            rr \<leftarrow> st rr 0 route;
            as \<leftarrow> addresses area (cp + 3) naddr;
            Some ([Line_rr as], naddr * 4, rr)
          }
        }) (\<lambda>(ls, rrlen, rr). length rr = 40)" for p
  proof -
    define naddr where "naddr = min ((min p optlen - 4 + 3) div 4) ((optlen - 3) div 4)"
    have n: "naddr * 4 \<le> optlen - 3" unfolding naddr_def by (meson div_le_dividend div_times_less_eq_dividend le_trans min.cobounded2 mult_le_mono1)
    then have m: "naddr * 4 \<le> 37" "cp + 3 + naddr * 4 \<le> length area \<or> naddr = 0" using assms by linarith+
    show ?thesis
    proof (cases "naddr = 0")
      case False
      then have l: "cp + 3 + naddr * 4 \<le> length area" using m by simp
      obtain as where "addresses area (cp + 3) naddr = Some as" using addresses_ok [OF l] by (auto elim: yieldsE)
      note as = this
      have "yields (st rr 0 (take (naddr * 4) (drop (cp + 3) area))) (\<lambda>rr. length rr = 40)"
        using l m(1) assms(3) by (simp add: st_def)
      then have "yields (do { rr \<leftarrow> st rr 0 (take (naddr * 4) (drop (cp + 3) area)); as \<leftarrow> addresses area (cp + 3) naddr;
          Some ([Line_rr as], naddr * 4, rr) }) (\<lambda>(ls, rrlen, rr). length rr = 40)"
        using as by simp
      note store = this
      have same: "yields (if naddr * 4 = rrlen \<and> cp = 0 then map_option (\<lambda>last_route. take (naddr * 4) (drop (cp + 3) area) = last_route)
          (ld rr 0 (naddr * 4)) else Some False) (\<lambda>_. True)"
        using m(1) assms(3) by (simp add: yields_ld)
      show ?thesis
        unfolding Let_def naddr_def [symmetric]
      proof (rule yields_if)
        show "yields (Some ([], rrlen, rr)) (\<lambda>(ls, rrlen, rr). length rr = 40)" using assms(3) by simp
      next
        show "yields (do {
            route \<leftarrow> ld area (cp + 3) (naddr * 4);
            same \<leftarrow> (if naddr * 4 = rrlen \<and> cp = 0 then map_option (\<lambda>last_route. route = last_route) (ld rr 0 (naddr * 4)) else Some False);
            if same then Some ([Line_same], rrlen, rr)
            else do { rr \<leftarrow> st rr 0 route; as \<leftarrow> addresses area (cp + 3) naddr; Some ([Line_rr as], naddr * 4, rr) }
          }) (\<lambda>(ls, rrlen, rr). length rr = 40)"
          unfolding ld_eq_Some [OF l] Option.bind.bind_lunit
          by (rule yields_bindI [OF same], rule yields_if) (use assms(3) in simp, rule store)
      qed
    qed (simp add: Let_def naddr_def assms(3))
  qed
  have "yields (if optlen \<ge> 3 then map_option unat (ld8 area (cp + 2)) else Some 0) (\<lambda>_. True)"
    using assms(1) by (simp add: yields_ld8)
  then show ?thesis unfolding show_rr_def prod.case by (rule yields_bindI) (rule r)
qed

lemma show_option_ok:
  assumes "cp + optlen \<le> length area" "optlen \<le> 40" "length rr = 40" "2 \<le> optlen"
  shows "yields (show_option area cp kind optlen (rrlen, rr)) (\<lambda>(ls, rrlen, rr). length rr = 40)"
proof (cases "optlen < 3")
  case True
  then have "(optlen - 3) div 4 = 0" by simp
  then show ?thesis using show_rr_ok [OF assms] assms(3) by (simp add: show_option_def)
next
  case False
  have "(optlen - 3) div 4 * 4 \<le> optlen - 3" by (rule div_times_less_eq_dividend)
  then have "cp + 3 + (optlen - 3) div 4 * 4 \<le> length area" using assms(1) False by linarith
  then obtain as where "addresses area (cp + 3) ((optlen - 3) div 4) = Some as" using addresses_ok by (metis yieldsE)
  then show ?thesis using show_rr_ok [OF assms] assms(3) by (simp add: show_option_def)
qed

lemma ipopt_loop_ok:
  "cp + hlen \<le> length area \<Longrightarrow> hlen \<le> 40 \<Longrightarrow> length (snd old_route) = 40 \<Longrightarrow>
    yields (ipopt_loop area cp hlen old_route) (\<lambda>(ls, rrlen, rr). length rr = 40)"
proof (induction area cp hlen old_route rule: ipopt_loop.induct)
  case (1 area cp hlen old_route)
  show ?case
  proof (cases "hlen = 0")
    case True
    then show ?thesis using 1(5) by (cases old_route) (simp add: ipopt_loop.simps)
  next
    case False
    then have k: "ld8 area cp = Some (area ! cp)" using 1(3) by (intro ld8_defined) linarith
    consider (eol) "area ! cp = 0" | (nop) "area ! cp = 1" | (short) "area ! cp \<noteq> 0" "area ! cp \<noteq> 1" "hlen < 2"
      | (opt) "area ! cp \<noteq> 0" "area ! cp \<noteq> 1" "\<not> hlen < 2" by blast
    then show ?thesis
    proof cases
      case eol
      then show ?thesis using False k 1(5) by (cases old_route) (simp add: ipopt_loop.simps)
    next
      case nop
      have "yields (ipopt_loop area (cp + 1) (hlen - 1) old_route) (\<lambda>(ls, rrlen, rr). length rr = 40)"
        using nop False 1(3-5) by (intro 1(1) [OF False k]) auto
      then show ?thesis using False k nop by (subst ipopt_loop.simps) (auto elim!: yields_mono)
    next
      case short
      then show ?thesis using False k 1(5) by (cases old_route) (simp add: ipopt_loop.simps)
    next
      case opt
      then have n: "ld8 area (cp + 1) = Some (area ! (cp + 1))" using 1(3) by (intro ld8_defined) linarith
      let ?n = "unat (area ! (cp + 1))"
      show ?thesis
      proof (cases "?n < 2 \<or> ?n > hlen")
        case True
        then show ?thesis using False k n opt 1(5) by (cases old_route) (subst ipopt_loop.simps, simp)
      next
        case ok: False
        obtain rrlen rr where o: "old_route = (rrlen, rr)" by fastforce
        have "yields (show_option area cp (area ! cp) ?n old_route) (\<lambda>(ls, rrlen, rr). length rr = 40)"
          unfolding o using ok 1(3-5) o by (intro show_option_ok) auto
        then obtain ls r where s: "show_option area cp (area ! cp) ?n old_route = Some (ls, r)" "length (snd r) = 40"
          by (auto elim!: yieldsE)
        have "yields (ipopt_loop area (cp + ?n) (hlen - ?n) r) (\<lambda>(ls, rrlen, rr). length rr = 40)"
          using ok 1(3,4) s(2) opt by (intro 1(2) [OF False k _ _ _ n _ s(1) refl]) auto
        then show ?thesis using False k n opt ok s(1) by (subst ipopt_loop.simps) (auto elim!: yields_mono)
      qed
    qed
  qed
qed

lemma display_ipopt_ok:
  assumes "length (old_rr t) = 40" "20 \<le> length pkt" "unat (pkt ! 0 AND 0xf) * 4 \<le> length pkt"
  shows "yields (display_ipopt pkt t) (\<lambda>(_, t'). quiet_step 0 t t')"
proof -
  define hlen where "hlen = unat (pkt ! 0 AND 0xf) * 4"
  have b: "ld8 pkt 0 = Some (pkt ! 0)" using assms(2) by (intro ld8_defined) linarith
  have "yields (ipopt_loop (drop 20 pkt) 0 (min hlen 60 - 20) (old_rrlen t, old_rr t)) (\<lambda>(ls, rrlen, rr). length rr = 40)"
    using assms unfolding hlen_def [symmetric] by (intro ipopt_loop_ok) auto
  then show ?thesis
    unfolding display_ipopt_def b hlen_def Let_def
    using assms(1) by (auto elim!: yieldsE simp: quiet_step_def recv_step_def)
qed

lemma recv_step_stop: "recv_step n t u \<Longrightarrow> recv_step n t (hping_stop r u)"
  using recv_step_trans [OF _ recv_of_quiet [OF quiet_stop], of n t u r] by simp

lemma after_reply_ok:
  assumes "length (old_rr t) = 40" "20 \<le> length ip_packet" "unat (ip_packet ! 0 AND 0xf) * 4 \<le> length ip_packet"
  shows "yields (after_reply proto ip_packet enc match t) (recv_step 0 t)"
proof -
  have opts: "yields (if match \<and> opt_rroute (cfg t) \<and> \<not> opt_quiet (cfg t) then map_option snd (display_ipopt ip_packet t) else Some t)
      (recv_step 0 t)"
    using display_ipopt_ok [OF assms] by (auto simp: recv_step_refl recv_of_quiet elim!: yields_mono)
  have stop: "yields (if opt_traceroute (cfg u) \<and> opt_tr_stop (cfg u) \<and> match
           then let u = (if proto \<noteq> 1 then hping_stop HPING_STOP_TRACEROUTE u else u)
             in if length enc \<ge> 8
                then map_option (\<lambda>type. if type \<noteq> 11 then hping_stop HPING_STOP_TRACEROUTE u else u) (ld8 enc 0)
                else Some u
           else Some u) (recv_step 0 t)" if u: "recv_step 0 t u" for u
  proof (intro yields_if)
    have "recv_step 0 t (if proto \<noteq> 1 then hping_stop HPING_STOP_TRACEROUTE u else u)" using u recv_step_stop [OF u] by simp
    moreover have "yields (ld8 enc 0) (\<lambda>_. True)" if "length enc \<ge> 8" using that by (subst yields_ld8) auto
    ultimately show "yields (let u = (if proto \<noteq> 1 then hping_stop HPING_STOP_TRACEROUTE u else u)
             in if length enc \<ge> 8
                then map_option (\<lambda>type. if type \<noteq> 11 then hping_stop HPING_STOP_TRACEROUTE u else u) (ld8 enc 0)
                else Some u) (recv_step 0 t)"
      unfolding Let_def by (intro yields_if) (auto simp: recv_step_stop elim!: yields_mono)
  qed (use u in simp)
  have count: "yields (Some (if cfg_count (cfg u) \<noteq> -1 \<and> word_of_int (cfg_count (cfg u)) = hping_stats_unique (stats u)
           then hping_stop HPING_STOP_COUNT u else u)) (recv_step 0 t)" if "recv_step 0 t u" for u
    using that recv_step_stop [OF that] by simp
  show ?thesis
    unfolding after_reply_def by (intro yields_bindI [OF opts] yields_bindI [OF stop] count)
qed

text \<open>What \<open>wait_packet\<close> relies on: with --sign a data file that can be read, since a restart that the
  peer asks for would otherwise fill a null pointer.\<close>

definition recv_ready :: "tool \<Rightarrow> bool" where
  "recv_ready t \<longleftrightarrow> ts_ready t \<and> length (old_rr t) = 40 \<and> (opt_sign (cfg t) \<longrightarrow> data_file (env t) \<noteq> None)"

text \<open>A datagram whose ICMP error, if it is one, has a code that the tool knows.\<close>

definition known_error :: "bytes \<Rightarrow> hping_config \<Rightarrow> bool" where
  "known_error ip_packet c \<longleftrightarrow> ip_packet ! 9 = 1 \<longrightarrow> code_ok (drop (unat (ip_packet ! 0 AND 0xf) * 4) ip_packet) c"

lemma dispatch_ok:
  assumes "length ip = 20" "ts_ready t" "proto = 1 \<longrightarrow> code_ok enc (cfg t)"
  shows "yields (dispatch proto ip enc t) (\<lambda>(m, t'). counted m t t')"
proof -
  have "yields (recv_icmp ip enc t) (\<lambda>(m, t'). counted m t t')" if "proto = 1"
    using that assms(3) by (intro yields_mono [OF recv_icmp_ok [OF assms(1)]]) (auto simp: quiet_counted_def counted_def recv_of_quiet)
  moreover have "yields (recv_udp ip enc t) (\<lambda>(m, t'). counted m t t')"
    by (rule yields_mono [OF recv_udp_ok [OF assms(1)]]) (auto simp: quiet_counted_def counted_def recv_of_quiet)
  ultimately show ?thesis
    unfolding dispatch_def using recv_tcp_ok [OF assms(1,2)] by (intro yields_if)
qed

definition once :: "tool \<Rightarrow> tool \<Rightarrow> bool" where
  "once t t' \<longleftrightarrow> recv_step 0 t t' \<or> recv_step 1 t t'"

lemma counted_once: "counted m t u \<Longrightarrow> recv_step 0 u v \<Longrightarrow> once t v"
  unfolding counted_def once_def using recv_step_trans [of 1 t u 0 v] recv_step_trans [of 0 t u 0 v] by (cases m) simp_all

lemma code_ok_cfg: "fixed_cfg c' = fixed_cfg c \<Longrightarrow> code_ok p c' = code_ok p c"
  by (simp only: code_ok_def fixed_cfgD [of c' c])

lemma once_trans: "recv_step 0 t u \<Longrightarrow> once u v \<Longrightarrow> once t v"
  unfolding once_def by (elim disjE) (drule (1) recv_step_trans, simp only: add_0 simp_thms)+

lemma handle_reply_ok:
  assumes t: "ts_ready u" "length (old_rr u) = 40" and c: "known_error ip_packet (cfg u)"
    and len: "20 \<le> length ip_packet" "unat (ip_packet ! 0 AND 0xf) * 4 = hsize" "hsize \<le> length ip_packet"
  shows "yields (handle_reply (take 20 ip_packet) ip_packet hsize u) (once u)"
proof -
  let ?ip = "take 20 ip_packet" and ?proto = "ip_packet ! 9" and ?enc = "drop hsize ip_packet"
  have ip: "length ?ip = 20" using len by simp
  have h: "yields (dispatch ?proto ?ip ?enc u) (\<lambda>(m, t'). counted m u t')"
    using c len t(1) by (intro dispatch_ok ip) (auto simp: known_error_def)
  have a: "yields (after_reply ?proto ip_packet ?enc m v) (once u)" if "counted m u v" for m v
  proof -
    have "length (old_rr v) = 40" using that t(2) recv_stepD(4) by (simp add: counted_def)
    then show ?thesis
      using len by (intro yields_mono [OF after_reply_ok] counted_once [OF that]) simp_all
  qed
  have rest: "yields (do { (match, t) \<leftarrow> dispatch ?proto ?ip ?enc u; after_reply ?proto ip_packet ?enc match t }) (once u)"
    by (rule yields_bindI [OF h]) (auto intro: a)
  have same: "yields (Some u) (once u)" by (simp add: once_def recv_step_refl)
  have proto: "ld8 ?ip 9 = Some ?proto" using ip by (simp add: ld8_def)
  have "yields (ld32 ?ip 16) (\<lambda>_. True)" "yields (ld32 ?ip 12) (\<lambda>_. True)" using ip by (simp_all add: yields_ld32)
  then show ?thesis
    unfolding handle_reply_def proto Let_def Option.bind.bind_lunit
    by (intro yields_bindI yields_if same rest)
qed

lemma handle_datagram_ok:
  assumes "recv_ready t" "known_error ip_packet (cfg t)"
  shows "yields (handle_datagram ip_packet t) (once t)"
proof (cases "length ip_packet < 20")
  case True
  then show ?thesis by (simp add: handle_datagram_def once_def recv_step_refl)
next
  case False
  then have len: "20 \<le> length ip_packet" by simp
  let ?b = "ip_packet ! 0" and ?ip = "take 20 ip_packet"
  have b: "ld ip_packet 0 20 = Some ?ip" "ld8 ?ip 0 = Some ?b" using len by (auto simp: ld_eq_Some ld8_def)
  have same: "yields (Some t) (once t)" by (simp add: once_def recv_step_refl)
  have hcmp: "yields (if opt_sign (cfg t) then handle_hcmp ip_packet t else Some t) (quiet_step 0 t)"
    using handle_hcmp_ok assms(1) by (simp add: recv_ready_def quiet_step_refl)
  have reply: "yields (handle_reply ?ip ip_packet (unat (?b AND 0xf) * 4) u) (once t)"
    if u: "quiet_step 0 t u" and h: "\<not> (unat (?b AND 0xf) * 4 < 20 \<or> unat (?b AND 0xf) * 4 > length ip_packet)" for u
  proof (rule yields_mono [OF handle_reply_ok])
    show "ts_ready u" using ts_ready_quiet [OF u] assms(1) by (simp add: recv_ready_def)
    show "length (old_rr u) = 40" using recv_stepD(4) [OF recv_of_quiet [OF u]] assms(1) by (simp add: recv_ready_def)
    show "known_error ip_packet (cfg u)"
      using assms(2) unfolding known_error_def code_ok_cfg [OF recv_stepD(2) [OF recv_of_quiet [OF u]]] .
    show "20 \<le> length ip_packet" "unat (?b AND 0xf) * 4 = unat (?b AND 0xf) * 4" by (rule len, rule refl)
    show "unat (?b AND 0xf) * 4 \<le> length ip_packet" using h by linarith
  qed (rule once_trans [OF recv_of_quiet [OF u]])
  show ?thesis
    unfolding handle_datagram_def b Option.bind.bind_lunit Let_def
    by (rule yields_if, rule same, rule yields_if, rule same, rule yields_if, rule same, rule yields_bindI [OF hcmp], rule reply, assumption, assumption)
qed

lemma wait_packet_ok:
  assumes "recv_ready t"
    and "\<And>bs. frames (env t) (reads t) = Frame bs \<Longrightarrow>
      known_error (drop (unat (linkhdr_size (ctx t))) (take (65535 + unat (linkhdr_size (ctx t))) bs)) (cfg t)"
  shows "yields (wait_packet t) (once t)"
proof -
  let ?n = "unat (linkhdr_size (ctx t))"
  let ?t = "t\<lparr>reads := reads t + 1\<rparr>"
  have step: "recv_step 0 t ?t" by (simp add: recv_step_def)
  then have same: "once t ?t" "once t (hping_stop r ?t)" for r using recv_step_stop [OF step] by (simp_all add: once_def)
  have "clock_at ?t = clock_at t" by (rule recv_stepD(6) [OF step])
  then have ready: "recv_ready ?t" using assms(1) by (simp add: recv_ready_def ts_ready_def)
  show ?thesis
  proof (cases "frames (env t) (reads t)")
    case (Frame bs)
    let ?p = "drop ?n (take (65535 + ?n) bs)"
    have "known_error ?p (cfg ?t)" using assms(2) [OF Frame] by simp
    from handle_datagram_ok [OF ready this] have "yields (handle_datagram ?p ?t) (once t)"
      by (rule yields_mono) (rule once_trans [OF step])
    then show ?thesis using Frame same by (simp add: wait_packet_def read_packet_def Let_def)
  qed (use same in \<open>simp_all add: wait_packet_def read_packet_def\<close>)
qed

section \<open>Where receiving fails\<close>

lemma error_report_fails:
  "16 \<le> unat code \<Longrightarrow> \<not> opt_json (cfg t) \<Longrightarrow> \<not> opt_quiet (cfg t) \<Longrightarrow> error_report ip 3 code t = None"
  by (simp add: error_report_def log_icmp_unreach_def icmp_unreach_msg_def)

lemma recv_icmp_error_fails:
  assumes "length ip = 20" "28 \<le> length packet" "16 \<le> unat (packet ! 1)" "\<not> opt_json (cfg t)" "\<not> opt_quiet (cfg t)"
    "ld32 packet 24 = Some (remote_addr (ctx t))" "ld32 ip 16 = Some (local_addr (ctx t))"
  shows "recv_icmp_error ip packet 3 t = None"
proof -
  obtain what sq ms u where r: "icmp_unreach_rtt (drop 8 packet) t = Some (what, sq, ms, u)" "quiet_step 0 t u"
    using icmp_unreach_rtt_ok [of "drop 8 packet" t] by (auto simp: yields_iff)
  have "fixed_cfg (cfg (count_reply st u)) = fixed_cfg (cfg t)" for st
    using recv_stepD(2) [OF recv_of_quiet [OF r(2)]] by (simp add: count_reply_def)
  then have "error_report ip 3 (packet ! 1) (count_reply st u) = None" for st
    using assms(3-5) fixed_cfgD [of "cfg (count_reply st u)" "cfg t"] by (intro error_report_fails) simp_all
  moreover have "ld8 packet 1 = Some (packet ! 1)" "\<not> length packet - 8 < 20" using assms(2) by (auto intro!: ld8_defined)
  ultimately show ?thesis using assms(6,7) r(1) by (simp add: recv_icmp_error_def del: One_nat_def)
qed

section \<open>Properties\<close>

text \<open>C37. Whatever frame arrives, \<open>wait_packet\<close> returns without an access outside of the captured
  bytes, counts at most one reply, sends nothing and keeps the first reason to stop, if an ICMP
  error that is to be printed has a code below 16, if --sign comes with a readable data file, and
  if with --tcp-timestamp (without clock skew detection) the clock has left the millisecond of the first timestamp.\<close>

theorem wait_packet_safe:
  assumes "recv_ready t"
    and "\<And>bs. frames (env t) (reads t) = Frame bs \<Longrightarrow>
      known_error (drop (unat (linkhdr_size (ctx t))) (take (65535 + unat (linkhdr_size (ctx t))) bs)) (cfg t)"
  shows "\<exists>t'. wait_packet t = Some t' \<and> wire t' = wire t \<and> sent (stats t') = sent (stats t)
    \<and> (received (stats t') = received (stats t) \<or> received (stats t') = received (stats t) + 1)
    \<and> (reason (ctx t) \<noteq> HPING_STOP_NONE \<longrightarrow> reason (ctx t') = reason (ctx t))"
proof -
  obtain t' where "wait_packet t = Some t'" "once t t'" using wait_packet_ok [OF assms] by (auto elim: yieldsE)
  then show ?thesis by (auto simp: once_def recv_step_def)
qed

text \<open>A SYN/ACK from port 80 of 10.0.0.2 to port 2000 of 10.0.0.1, with an Ethernet header.\<close>

definition demo_synack :: bytes where
  "demo_synack = replicate 14 0 @
     [0x45, 0, 0, 40, 0, 7, 0, 0, 64, 6, 0, 0, 10, 0, 0, 2, 10, 0, 0, 1,
      0, 80, 0x07, 0xd0, 0, 0, 0, 9, 0, 0, 0, 1, 0x50, 0x12, 0x40, 0, 0, 0, 0, 0]"

definition demo_receiver :: "frame \<Rightarrow> tool" where
  "demo_receiver f = tool_init (demo_env\<lparr>frames := (\<lambda>_. f)\<rparr>)
     \<lparr>ctx := hping_context_init\<lparr>linkhdr_size := 14, local_addr := le32 10 0 0 1, remote_addr := le32 10 0 0 2\<rparr>,
      cfg := hping_config_init\<lparr>dst_port := 80, opt_tcp_timestamp := True\<rparr>\<rparr>"

lemma demo_receiver_ready: "recv_ready (demo_receiver f)"
  by (simp add: demo_receiver_def recv_ready_def ts_ready_def tool_init_def hping_config_init_def)

lemma demo_receiver_link: "linkhdr_size (ctx (demo_receiver f)) = 14" "frames (env (demo_receiver f)) = (\<lambda>_. f)"
  by (simp_all add: demo_receiver_def tool_init_def)

theorem wait_packet_safe_witness: "\<exists>t'. wait_packet (demo_receiver (Frame demo_synack)) = Some t'"
proof -
  have "known_error (drop 14 (take 65549 demo_synack)) c" for c
    by (simp add: demo_synack_def known_error_def)
  then show ?thesis
    using wait_packet_safe [OF demo_receiver_ready, of "Frame demo_synack"] by (auto simp: demo_receiver_link)
qed


definition demo_unreach :: bytes where
  "demo_unreach = [0x45, 0, 0, 48, 0, 0, 0, 0, 64, 1, 0, 0, 10, 0, 0, 9, 10, 0, 0, 1, 3, 16, 0, 0, 0, 0, 0, 0,
     0x45, 0, 0, 28, 0, 0, 0, 0, 64, 17, 0, 0, 10, 0, 0, 1, 10, 0, 0, 2]"


text \<open>C40. With --tcp-timestamp a second timestamp that arrives in the millisecond of the first one is
  divided by an elapsed time of zero; otherwise (without clock skew detection) the report is made.\<close>

theorem timestamp_same_millisecond:
  assumes "20 < unat (drop_bit 4 (tcp ! 12)) * 4" "unat (drop_bit 4 (tcp ! 12)) * 4 \<le> length tcp"
    "ts_walk tcp 20 (unat (drop_bit 4 (tcp ! 12)) * 4 - 20) = Some (Ts_found tstamp echo)"
    "first_tstamp t \<noteq> 0" "\<not> opt_clock_skew (cfg t)"
  shows "print_tcp_timestamp tcp rttms t = None \<longleftrightarrow> word_of_int (clock_at t (clock_calls t) div 1000) = first_mstime t"
proof -
  have len: "\<not> length tcp < 20" "12 < length tcp" using assms(1,2) by linarith+
  have "print_tcp_timestamp tcp rttms t = timestamp_found tstamp rttms t"
    unfolding print_tcp_timestamp_def using assms(1-3) len
    by (simp only: ld8_defined [OF len(2)] Option.bind.bind_lunit Let_def if_False not_less not_le de_Morgan_disj simp_thms ts_result.case)
      (simp add: not_less)
  then show ?thesis
    using assms(4,5) by (auto simp: timestamp_found_def mstime_eq Let_def)
qed

definition demo_ts :: bytes where
  "demo_ts = [0, 80, 0x07, 0xd0, 0, 0, 0, 9, 0, 0, 0, 1, 0x80, 0x12, 0x40, 0, 0, 0, 0, 0,
     1, 1, 8, 10, 0, 0, 1, 0, 0, 0, 0, 0]"

theorem timestamp_same_millisecond_witness:
  "print_tcp_timestamp demo_ts 0 (tool_init demo_env\<lparr>first_tstamp := 5, first_mstime := 0\<rparr>) = None"
proof -
  have h: "unat (drop_bit 4 (demo_ts ! 12)) * 4 = 32" by (simp add: demo_ts_def)
  moreover have "\<exists>v w. ts_walk demo_ts 20 (32 - 20) = Some (Ts_found v w)"
    by (simp add: demo_ts_def ld8_def ts_walk.simps be32_at_def ld32_def)
  ultimately show ?thesis
    using timestamp_same_millisecond [of demo_ts _ _ "tool_init demo_env\<lparr>first_tstamp := 5, first_mstime := 0\<rparr>" 0]
    by (auto simp: tool_init_def hping_config_init_def clock_at_def demo_env_def hping_context_init_def hping_clock_system_def demo_ts_def)
qed

end
