(* ===== verification/Kept.thy ===== *)
theory Kept
  imports Probes Recv
begin

text \<open>
  What sending a probe and receiving a frame leave alone: the part of the state by which the loops
  (lifecycle.c, listen.c) pace themselves and decide to stop.
\<close>

section \<open>The part of the state that the loops own\<close>

definition loop_cfg :: "hping_config \<Rightarrow> _" where
  "loop_cfg c = (cfg_count c, opt_waitinusec c, usec_delay c, sending_wait c, readfile c, opt_dry_run c, opt_safe c, cfg_sign c)"

definition kept :: "tool \<Rightarrow> _" where
  "kept t = (env t, sig_stop t, sig_tstp t, exp_id t, printed t, stdout_writes t, waits_done t, loop_cfg (cfg t), next_send_us (ctx t), end_deadline_us (ctx t),
     clock_monotonic (ctx t), linkhdr_size (ctx t))"

text \<open>What sending also leaves alone.\<close>

definition kept_send :: "tool \<Rightarrow> _" where
  "kept_send t = (kept t, stats t, reason (ctx t), reads t, length (old_rr t), first_tstamp t, first_mstime t)"

definition send_keeps :: "tool \<Rightarrow> tool \<Rightarrow> bool" where
  "send_keeps t t' \<longleftrightarrow> kept_send t' = kept_send t \<and> clock_calls t \<le> clock_calls t'"

lemma send_keeps_refl [simp]: "send_keeps t t"
  by (simp add: send_keeps_def)

lemma send_keeps_trans: "send_keeps t u \<Longrightarrow> send_keeps u v \<Longrightarrow> send_keeps t v"
  by (auto simp: send_keeps_def)

lemmas kept_defs = send_keeps_def kept_send_def kept_def loop_cfg_def

text \<open>The changes that sending makes.\<close>

lemma kept_send_updates [simp]:
  "kept_send (t\<lparr>wire := w, sends := n\<rparr>) = kept_send t"
  "kept_send (upd_cfg (\<lambda>c. c\<lparr>src_id := f c\<rparr>) t) = kept_send t"
  "kept_send (upd_cfg (\<lambda>c. c\<lparr>dst_port := f c\<rparr>) t) = kept_send t"
  "kept_send (upd_cfg (\<lambda>c. c\<lparr>opt_lsrr := False\<rparr>) t) = kept_send t"
  "kept_send (upd_cfg (\<lambda>c. c\<lparr>opt_ssrr := False\<rparr>) t) = kept_send t"
  "kept_send (upd_cfg (\<lambda>c. c\<lparr>opt_rroute := False\<rparr>) t) = kept_send t"
  "kept_send (upd_cfg (\<lambda>c. c\<lparr>virtual_mtu := v, opt_fragment := True, opt_mf := False, opt_df := False\<rparr>) t) = kept_send t"
  "kept_send (upd_ctx (\<lambda>c. c\<lparr>ip_optlen := n', ip_opt := o'\<rparr>) t) = kept_send t"
  "kept_send (upd_ctx (\<lambda>c. c\<lparr>eof_reached := b\<rparr>) t) = kept_send t"
  "kept_send (upd_ctx (\<lambda>c. c\<lparr>sequence := g c\<rparr>) t) = kept_send t"
  "kept_send (upd_ctx (\<lambda>c. c\<lparr>src_port := g c\<rparr>) t) = kept_send t"
  "kept_send (upd_ctx (\<lambda>c. c\<lparr>local_addr := a\<rparr>) t) = kept_send t"
  "kept_send (upd_ctx (\<lambda>c. c\<lparr>remote_addr := a\<rparr>) t) = kept_send t"
  "kept_send (t\<lparr>data_pos := p\<rparr>) = kept_send t" "kept_send (t\<lparr>icmp_seq := q\<rparr>) = kept_send t"
  "kept_send (t\<lparr>rand_calls := k\<rparr>) = kept_send t" "kept_send (t\<lparr>rc4_state := r\<rparr>) = kept_send t"
  "kept_send (t\<lparr>wall_calls := k\<rparr>) = kept_send t"
  by (simp_all add: kept_defs upd_cfg_def upd_ctx_def)

lemma clock_updates [simp]:
  "clock_calls (upd_cfg h t) = clock_calls t" "clock_calls (upd_ctx g t) = clock_calls t" "clock_calls (upd_stats k t) = clock_calls t"
  by (simp_all add: upd_cfg_def upd_ctx_def upd_stats_def)

section \<open>Sending\<close>

lemma keeps_rand: "always (hping_rand t) (\<lambda>(r, t'). send_keeps t t')"
  by (auto simp: hping_rand_def send_keeps_def always_def split: source.splits)

lemma keeps_set_or_random: "always (set_or_random b v t) (\<lambda>(r, t'). send_keeps t t')"
  by (auto simp: set_or_random_def intro: always_mono [OF keeps_rand])

lemma keeps_ip_id: "always (ip_id t) (\<lambda>(i, t'). send_keeps t t')"
  by (auto simp: ip_id_def intro: always_mono [OF keeps_rand])

text \<open>A sending operation also answers 0 or -1.\<close>

definition sends_ok :: "tool \<Rightarrow> int \<times> tool \<Rightarrow> bool" where
  "sends_ok t = (\<lambda>(r, t'). send_keeps t t' \<and> (r = 0 \<or> r = -1))"

lemma sends_ok_fail [simp]: "sends_ok t (-1, t') \<longleftrightarrow> send_keeps t t'"
  by (simp add: sends_ok_def)

lemma sends_ok_trans: "send_keeps t u \<Longrightarrow> sends_ok u x \<Longrightarrow> sends_ok t x"
  by (auto simp: sends_ok_def intro: send_keeps_trans)

lemma sends_after: "send_keeps t u \<Longrightarrow> always m (sends_ok u) \<Longrightarrow> always m (sends_ok t)"
  by (erule always_mono) (rule sends_ok_trans)

lemma keeps_send_ip: "always (send_ip data mf off opts optlen t) (sends_ok t)"
  unfolding send_ip_def Let_def
  by (rule always_if, simp, rule always_bind2 [OF keeps_ip_id], rule always_skip) (auto simp: sends_ok_def send_keeps_def)

lemma keeps_send_fragments: "always (send_fragments packet off remainder t) (sends_ok t)"
proof (rule alwaysI, erule send_fragments.raw_induct [rotated, where P = "\<lambda>packet off remainder t x. sends_ok t x"])
  fix f :: "bytes \<Rightarrow> nat \<Rightarrow> u32 \<Rightarrow> tool \<Rightarrow> (int \<times> tool) option" and packet off remainder t x
  assume IH: "\<And>packet off remainder t x. f packet off remainder t = Some x \<Longrightarrow> sends_ok t x"
    and run: "(if remainder \<le> virtual_mtu (cfg t) then
        Option.bind (ld packet off (unat remainder)) (\<lambda>data.
          send_ip data NF (word_of_nat off) (ip_opt (ctx t)) (unat (ip_optlen (ctx t))) t)
      else
        Option.bind (ld packet off (unat (virtual_mtu (cfg t)))) (\<lambda>data.
          Option.bind (send_ip data MF (word_of_nat off) (ip_opt (ctx t)) (unat (ip_optlen (ctx t))) t) (\<lambda>(rc, t).
            f packet (off + unat (virtual_mtu (cfg t))) (remainder - virtual_mtu (cfg t)) t))) = Some x"
  have rest: "always (f packet off remainder u) (sends_ok t)" if "send_keeps t u \<and> (rc = 0 \<or> rc = -1)" for packet off remainder rc u
    using that by (intro sends_after [of t u] alwaysI IH) auto
  have "always (if remainder \<le> virtual_mtu (cfg t) then
        Option.bind (ld packet off (unat remainder)) (\<lambda>data.
          send_ip data NF (word_of_nat off) (ip_opt (ctx t)) (unat (ip_optlen (ctx t))) t)
      else
        Option.bind (ld packet off (unat (virtual_mtu (cfg t)))) (\<lambda>data.
          Option.bind (send_ip data MF (word_of_nat off) (ip_opt (ctx t)) (unat (ip_optlen (ctx t))) t) (\<lambda>(rc, t).
            f packet (off + unat (virtual_mtu (cfg t))) (remainder - virtual_mtu (cfg t)) t))) (sends_ok t)"
    by (rule always_if; rule always_skip) (rule keeps_send_ip, rule always_bind2, rule keeps_send_ip [unfolded sends_ok_def], erule rest)
  then show "sends_ok t x" using run by (rule alwaysD)
qed

lemma keeps_auto_fragment: "send_keeps t (auto_fragment n t)"
  by (simp add: auto_fragment_def send_keeps_def Let_def)

lemma keeps_ip_opt_build: "always (ip_opt_build t) (\<lambda>(n, opt, t'). send_keeps t t')"
proof -
  have l: "always (opt_build_lsrr t s) (\<lambda>(t', s). send_keeps t t')" "always (opt_build_ssrr t s) (\<lambda>(t', s). send_keeps t t')" for t s
    unfolding opt_build_lsrr_def opt_build_ssrr_def by (intro always_if always_skip2; simp add: send_keeps_def)+
  have r: "always (opt_build_rroute t s) (\<lambda>(t', opt, optlen). send_keeps t t')" for t s
    unfolding opt_build_rroute_def by (cases s) (auto simp: send_keeps_def intro!: always_if always_skip)
  show ?thesis
    unfolding ip_opt_build_def Let_def
    by (rule always_bind2 [OF l(1)], rule always_bind2 [OF l(2)], rule always_bind3 [OF r], rule always_if)
      (auto intro!: always_skip simp: send_keeps_def)
qed

lemma keeps_send_ip_handler: "always (send_ip_handler packet t) (sends_ok t)"
proof -
  have k: "send_keeps t (auto_fragment n (upd_ctx (\<lambda>c. c\<lparr>ip_optlen := l, ip_opt := opt\<rparr>) u))" if "send_keeps t u" for n l opt u
    using that by (intro send_keeps_trans [OF _ keeps_auto_fragment]) (simp add: send_keeps_def)
  show ?thesis
    unfolding send_ip_handler_def Let_def
    by (rule always_bind3 [OF keeps_ip_opt_build], rule always_if) (rule sends_after [OF k], assumption, rule keeps_send_ip,
      rule sends_after [OF k], assumption, rule keeps_send_fragments)
qed

lemma keeps_datafiller: "always (datafiller n t) (\<lambda>(bs, t'). send_keeps t t')"
  unfolding datafiller_def
  by (cases "data_file (env t)") (auto simp: send_keeps_def Let_def intro!: always_skip split: prod.splits)

lemma keeps_data_handler: "always (data_handler n t) (\<lambda>(bs, t'). send_keeps t t')"
proof -
  have from_file: "always (do { (bs, t) \<leftarrow> datafiller k t; Some (s @ bs, t) }) (\<lambda>(bs, t'). send_keeps t t')" for k s
    by (rule always_bind2 [OF keeps_datafiller]) simp
  show ?thesis
    unfolding data_handler_def Let_def
    by (rule always_if, rule always_if, simp, rule always_skip, rule always_skip, simp, rule always_skip, rule always_if, simp,
        rule always_if, rule from_file) simp
qed

lemma keeps_delaytable_add: "send_keeps t (delaytable_add sq sp what t)"
  by (simp add: delaytable_add_def hping_monotonic_us_def kept_defs upd_ctx_def split: prod.split)

lemma sends_probe_sent: "sends_ok t (r, u) \<Longrightarrow> sends_ok t (probe_sent r u)"
  by (simp add: probe_sent_def sends_ok_def send_keeps_def Let_def)

lemma keeps_emit_probe: "always (emit_probe off l4 t) (sends_ok t)"
  unfolding emit_probe_def Let_def
  by (rule always_skip, rule always_bind2, rule sends_after [OF keeps_delaytable_add keeps_send_ip_handler, unfolded sends_ok_def])
    (simp add: sends_probe_sent [unfolded sends_ok_def] sends_ok_def)

lemma keeps_add_tcp_header: "always (add_tcp_header t p) (\<lambda>(ok, p, t'). send_keeps t t')"
  unfolding add_tcp_header_def Let_def
  by (rule always_skip2, rule always_if, simp, rule always_skip, rule always_skip, rule always_bind2, rule keeps_set_or_random,
      rule always_skip, rule always_bind2, rule keeps_set_or_random) (auto intro!: always_skip intro: send_keeps_trans)

lemma keeps_add_timestamp: "always (add_timestamp t p) (\<lambda>(ok, p, t'). send_keeps t t')"
  unfolding add_timestamp_def Let_def
  by (rule always_if, simp, rule always_bind2, rule keeps_rand) (auto intro!: always_skip)

lemma keeps_add_probe_data: "always (add_probe_data t p) (\<lambda>(ok, p, t'). send_keeps t t')"
  unfolding add_probe_data_def Let_def
  by (rule always_if, simp, rule always_skip2, rule always_if, simp, rule always_bind2, rule keeps_data_handler) (auto intro!: always_skip)

lemma keeps_emit: "send_keeps t u \<Longrightarrow> always (case built of None \<Rightarrow> Some (-1, u) | Some l4 \<Rightarrow> emit_probe off l4 u) (sends_ok t)"
  by (auto split: option.splits intro: sends_after keeps_emit_probe)

lemma keeps_send_tcp: "always (send_tcp t) (sends_ok t)"
  unfolding send_tcp_def Let_def
  by (rule always_skip2, rule always_if, simp, rule always_bind3, rule keeps_add_tcp_header, rule always_if, simp,
      rule always_bind3, rule keeps_add_timestamp, rule always_if, simp add: send_keeps_def,
      rule always_bind3, rule keeps_add_probe_data, rule always_if, simp add: send_keeps_def, rule always_skip, rule keeps_emit)
    (simp add: send_keeps_def)

lemma keeps_send_udp: "always (send_udp t) (sends_ok t)"
  unfolding send_udp_def Let_def
  by (rule always_skip2, rule always_if, simp, rule always_skip2, rule always_if, simp,
      rule always_bind3, rule keeps_add_probe_data, rule always_if, simp, rule always_skip, rule keeps_emit)

lemma keeps_emit_icmp: "always (emit_icmp tracked t p) (sends_ok t)"
proof -
  let ?t = "if opt_icmptype (cfg t) = tracked then delaytable_add (icmp_seq t) 0 S_SENT t else t"
  have "send_keeps t ?t" using keeps_delaytable_add by simp
  then have h: "always (send_ip_handler built ?t) (\<lambda>(r, u). send_keeps t u \<and> (r = 0 \<or> r = -1))" for built
    using sends_after [OF _ keeps_send_ip_handler] by (simp add: sends_ok_def)
  have "always (case r of Inl e \<Rightarrow> Some (-1, t)
      | Inr built \<Rightarrow> do {
              built \<leftarrow> (if icmp_cksum (cfg t) \<noteq> -1 then st16 built 2 (word_of_int (icmp_cksum (cfg t))) else Some built);
              (rc, t) \<leftarrow> send_ip_handler built ?t;
              Some (rc, t\<lparr>icmp_seq := icmp_seq t + 1\<rparr>) }) (sends_ok t)" for r :: "ars_code + bytes"
  proof (cases r)
    case (Inr built)
    show ?thesis
      unfolding Inr sum.case by (rule always_skip, rule always_bind2 [OF h]) (simp add: sends_ok_def send_keeps_def)
  qed simp
  then show ?thesis
    unfolding emit_icmp_def Let_def by (intro always_skip2 always_if) auto
qed

lemma keeps_milliseconds: "milliseconds t = (ms, t') \<Longrightarrow> send_keeps t t'"
  by (auto simp: milliseconds_def hping_wall_us_def send_keeps_def)

lemma keeps_send_icmp: "always (send_icmp t) (sends_ok t)"
proof -
  have echo: "always (send_icmp_echo t) (sends_ok t)"
    unfolding send_icmp_echo_def
    by (rule always_skip2, rule always_if, simp, rule always_bind3, rule keeps_add_probe_data, rule always_if, simp,
        rule sends_after, assumption, rule keeps_emit_icmp)
  have stamp: "always (send_icmp_timestamp t) (sends_ok t)"
    unfolding send_icmp_timestamp_def Let_def
    by (rule always_skip2, rule always_if, simp, rule always_skip2, rule always_if, simp)
      (auto split: prod.splits intro!: always_skip sends_after [OF keeps_milliseconds keeps_emit_icmp])
  have address: "always (send_icmp_address t) (sends_ok t)"
    unfolding send_icmp_address_def
    by (rule always_skip2, rule always_if, simp, rule always_skip2, rule always_if, simp, rule keeps_emit_icmp)
  have data: "always (if n > 0 then data_handler n t else Some ([], t)) (\<lambda>(bs, t'). send_keeps t t')" for n
    by (rule always_if, rule keeps_data_handler) simp
  have other: "always (send_icmp_other t) (sends_ok t)"
    unfolding send_icmp_other_def Let_def
    by (rule always_if, simp, rule always_bind2, rule data, rule sends_after, assumption, rule keeps_send_ip_handler)
  show ?thesis
    unfolding send_icmp_def Let_def by (intro always_if echo stamp address other) simp
qed

lemma keeps_send_rawip: "always (send_rawip t) (sends_ok t)"
  unfolding send_rawip_def Let_def
  by (rule always_if, simp, rule always_bind2, rule keeps_data_handler, rule sends_after, assumption, rule keeps_send_ip_handler)

lemma keeps_device_rand: "always (device_rand t) (\<lambda>(b, t'). send_keeps t t')"
  by (rule alwaysI) (auto simp: device_rand_def send_keeps_def)

lemma keeps_random_source: "always (select_next_random_source t) (send_keeps t)"
  unfolding select_next_random_source_def
  by (rule always_bind2, rule keeps_device_rand, rule always_bind2, rule keeps_device_rand, rule always_bind2, rule keeps_device_rand,
      rule always_bind2, rule keeps_device_rand) (simp add: send_keeps_def)

lemma keeps_octet: "always (rand_dest_octet s t) (\<lambda>(v, t'). send_keeps t t')"
proof -
  have "always (map_option (apfst Some) (device_rand t)) (\<lambda>(v, t'). send_keeps t t')"
    using always_mono [OF keeps_device_rand, of t "\<lambda>x. case apfst Some x of (v, t') \<Rightarrow> send_keeps t t'"] by auto
  then show ?thesis
    unfolding rand_dest_octet_def by (intro always_if) (auto split: prod.splits option.splits)
qed

lemma keeps_octets_loop: "always (octets_loop ss t) (\<lambda>(r, t'). send_keeps t t')"
proof (induction ss arbitrary: t)
  case (Cons s ss)
  show ?case
  proof (rule alwaysI)
    fix x assume run: "octets_loop (s # ss) t = Some x"
    then obtain v u where o: "rand_dest_octet s t = Some (v, u)" by (auto split: option.splits)
    have "send_keeps t u" using alwaysD [OF keeps_octet o] by simp
    then show "case x of (r, t') \<Rightarrow> send_keeps t t'"
      using run o alwaysD [OF Cons.IH [of u]] by (auto split: option.splits intro: send_keeps_trans)
  qed
qed simp

lemma keeps_random_dest: "always (select_next_random_dest t) (\<lambda>(ok, t'). send_keeps t t')"
proof -
  have "always (parse_rand_dest s t) (\<lambda>(r, t'). send_keeps t t')" for s
    by (auto simp: parse_rand_dest_def intro: keeps_octets_loop split: option.splits)
  then show ?thesis
    unfolding select_next_random_dest_def by (rule always_bind2) (auto simp: send_keeps_def split: option.splits)
qed

text \<open>\<open>send_packet\<close> counts the probe exactly when it answers 0, and answers 0 or -1.\<close>

definition sent_one :: "tool \<Rightarrow> int \<times> tool \<Rightarrow> bool" where
  "sent_one t = (\<lambda>(r, t'). kept t' = kept t \<and> reason (ctx t') = reason (ctx t) \<and> clock_calls t \<le> clock_calls t' \<and> reads t' = reads t
     \<and> (r = 0 \<and> sent (stats t') = sent (stats t) + 1 \<or> r = -1 \<and> sent (stats t') = sent (stats t)))"

lemma send_packet_keeps: "always (send_packet t) (sent_one t)"
proof -
  have dest: "always (if opt_rand_dest (cfg t) then select_next_random_dest t else Some (True, t)) (\<lambda>(ok, t'). send_keeps t t')"
    by (rule always_if, rule keeps_random_dest) simp
  have src: "always (if opt_rand_source (cfg u) then select_next_random_source u else Some u) (send_keeps u)" for u
    by (rule always_if, rule keeps_random_source) simp
  have mode: "always (if opt_rawipmode (cfg u) then send_rawip u else if opt_icmpmode (cfg u) then send_icmp u
      else if opt_udpmode (cfg u) then send_udp u else send_tcp u) (\<lambda>(r, v). send_keeps t v \<and> (r = 0 \<or> r = -1))" if "send_keeps t u" for u
  proof -
    have "always (if opt_rawipmode (cfg u) then send_rawip u else if opt_icmpmode (cfg u) then send_icmp u
      else if opt_udpmode (cfg u) then send_udp u else send_tcp u) (sends_ok u)"
      by (intro always_if keeps_send_rawip keeps_send_icmp keeps_send_udp keeps_send_tcp)
    from sends_after [OF that this] show ?thesis by (simp add: sends_ok_def)
  qed
  have up: "kept (upd_stats f v) = kept v" "reads (upd_stats f v) = reads v" for f v by (simp_all add: kept_def upd_stats_def)
  show ?thesis
    unfolding send_packet_def
    by (rule always_bind2 [OF dest], rule always_if, force simp: sent_one_def send_keeps_def kept_send_def,
        rule always_bindI [OF src], rule always_bind2 [OF mode], erule (1) send_keeps_trans)
      (auto simp: sent_one_def send_keeps_def kept_send_def up hping_stats_on_sent_def)
qed

section \<open>Receiving\<close>

definition recv_keeps :: "tool \<Rightarrow> tool \<Rightarrow> bool" where
  "recv_keeps t t' \<longleftrightarrow> kept t' = kept t \<and> sent (stats t') = sent (stats t) \<and> clock_calls t \<le> clock_calls t'
     \<and> (reason (ctx t) \<noteq> HPING_STOP_NONE \<longrightarrow> reason (ctx t') = reason (ctx t))"

lemma recv_keeps_refl [simp]: "recv_keeps t t"
  by (simp add: recv_keeps_def)

lemma recv_keeps_trans: "recv_keeps t u \<Longrightarrow> recv_keeps u v \<Longrightarrow> recv_keeps t v"
  by (auto simp: recv_keeps_def)

lemma fixed_cfg_loop: "fixed_cfg c' = fixed_cfg c \<Longrightarrow> loop_cfg c' = loop_cfg c"
proof -
  have e: "loop_cfg (fixed_cfg c) = loop_cfg c" for c by (simp add: loop_cfg_def fixed_cfg_def)
  assume "fixed_cfg c' = fixed_cfg c"
  then show ?thesis using e [of c] e [of c'] by simp
qed

lemma recv_step_keeps: "recv_step n t t' \<Longrightarrow> recv_keeps t t'"
  using fixed_ctxD [of "ctx t'" "ctx t"] fixed_cfg_loop [of "cfg t'" "cfg t"]
  by (simp add: recv_step_def recv_keeps_def kept_def)

lemma quiet_keeps: "quiet_step n t t' \<Longrightarrow> recv_keeps t t'"
  unfolding quiet_step_def by (elim conjE) (rule recv_step_keeps)

lemma keeps_after: "recv_keeps t u \<Longrightarrow> always m (recv_keeps u) \<Longrightarrow> always m (recv_keeps t)"
  by (erule always_mono) (rule recv_keeps_trans)

lemma keeps_log_ip: "always (log_ip ip sq t) (recv_keeps t)"
  unfolding log_ip_def by (rule always_skip) (simp add: Let_def quiet_keeps [OF quiet_relid])

lemma keeps_old_fields [simp]:
  "recv_keeps t (t\<lparr>old_src_addr := a\<rparr>)" "recv_keeps t (t\<lparr>old_th_seq := s\<rparr>)" "recv_keeps t (t\<lparr>data_pos := p\<rparr>)"
  "recv_keeps t (t\<lparr>clock_deltas := ds\<rparr>)" "recv_keeps t (t\<lparr>clock_samples := ss\<rparr>)" "recv_keeps t (t\<lparr>first_tstamp := f\<rparr>)"
  "recv_keeps t (t\<lparr>first_mstime := m\<rparr>)" "recv_keeps t (t\<lparr>old_rrlen := n, old_rr := r\<rparr>)"
  "recv_keeps t (t\<lparr>clock_deltas := ds, clock_samples := ss\<rparr>)" "recv_keeps t (t\<lparr>reads := k\<rparr>)"
  by (simp_all add: recv_keeps_def kept_def)

lemma keeps_mstime: "mstime t = (now, t') \<Longrightarrow> recv_keeps t t'"
  by (rule quiet_keeps [OF quiet_clock(2)])

lemma keeps_log_traceroute: "always (log_traceroute ip t) (recv_keeps t)"
  unfolding log_traceroute_def by (rule always_skip) (auto simp: Let_def intro: recv_keeps_trans [OF _ quiet_keeps [OF quiet_ttl]])

lemma keeps_reply_data: "always (reply_data packet type t) (recv_keeps t)"
proof -
  have "recv_keeps t (snd (milliseconds t))"
    by (simp add: milliseconds_def hping_wall_us_def recv_keeps_def kept_def)
  then have "always (log_icmp_ts packet 8 t) (\<lambda>(_, t'). recv_keeps t t')"
    unfolding log_icmp_ts_def by (intro always_skip) simp
  then have "always (log_icmp_ts packet 8 t) (\<lambda>x. recv_keeps t (snd x))" by (rule always_mono) auto
  then show ?thesis
    unfolding reply_data_def by (intro always_if) (auto intro: always_triv)
qed

lemma keeps_rtt: "rtt sq port t = (what, sq', ms, t') \<Longrightarrow> recv_keeps t (count_reply what' t')"
  by (rule recv_keeps_trans [OF quiet_keeps [OF quiet_rtt(1)] quiet_keeps [OF quiet_count_reply]])

lemma keeps_recv_icmp_reply: "always (recv_icmp_reply ip packet type t) (\<lambda>(m, t'). recv_keeps t t')"
proof -
  have "always (do { t \<leftarrow> log_ip ip sq (count_reply what u); t \<leftarrow> reply_data packet type t; Some (True, t) }) (\<lambda>(m, t'). recv_keeps t t')"
    if "recv_keeps t (count_reply what u)" for sq what u
    by (rule always_bindI [OF keeps_after [OF that keeps_log_ip]], rule always_bindI [OF keeps_after [OF _ keeps_reply_data]]) auto
  then show ?thesis
    unfolding recv_icmp_reply_def by (intro always_skip) (auto split: prod.splits dest: keeps_rtt)
qed

lemma keeps_unreach_rtt: "always (icmp_unreach_rtt quoted t) (\<lambda>(what, sq, ms, t'). recv_keeps t t')"
  by (rule alwaysI) (use icmp_unreach_rtt_ok [of quoted t] in \<open>auto simp: yields_iff dest: quiet_keeps\<close>)

lemma keeps_error_report: "always (error_report ip type code t) (\<lambda>(m, t'). recv_keeps t t')"
  unfolding error_report_def using keeps_log_traceroute [of ip t] quiet_keeps [OF quiet_ttl, of t]
  by (intro always_if) (auto intro: always_triv)

lemma keeps_recv_icmp_error: "always (recv_icmp_error ip packet type t) (\<lambda>(m, t'). recv_keeps t t')"
proof -
  have r: "always (error_report ip type code (count_reply what u)) (\<lambda>(m, t'). recv_keeps t t')" if "recv_keeps t u" for code what u
    by (rule always_mono [OF keeps_error_report])
      (auto intro: recv_keeps_trans recv_keeps_trans [OF that quiet_keeps [OF quiet_count_reply]])
  have "always (do { (stat, sq, ms, t) \<leftarrow> icmp_unreach_rtt (drop 8 packet) t;
      error_report ip type code (count_reply (if stat = -1 then S_UNKNOWN else stat) t) }) (\<lambda>(m, t'). recv_keeps t t')" for code
    by (rule always_bindI [OF keeps_unreach_rtt]) (auto intro: r)
  note rest = this
  show ?thesis
    unfolding recv_icmp_error_def
    by (rule always_if, simp, rule always_skip, rule always_skip, rule always_if, simp, rule always_skip, rule rest)
qed

lemma keeps_recv_icmp: "always (recv_icmp ip packet t) (\<lambda>(m, t'). recv_keeps t t')"
  unfolding recv_icmp_def by (intro always_if always_skip keeps_recv_icmp_reply keeps_recv_icmp_error) simp_all

lemma keeps_report: "always m (recv_keeps t) \<Longrightarrow> always (do { t \<leftarrow> m; Some (True, next_dst_port t) }) (\<lambda>(m, t'). recv_keeps t t')"
  by (erule always_bindI) (auto intro: recv_keeps_trans [OF _ quiet_keeps [OF quiet_next_dst_port]])

lemma keeps_udp_report: "always (udp_report ip sq t) (recv_keeps t)"
  unfolding udp_report_def by (rule always_if, rule keeps_log_ip) simp

lemma keeps_recv_udp: "always (recv_udp ip packet t) (\<lambda>(m, t'). recv_keeps t t')"
proof -
  have "always (do { t \<leftarrow> udp_report ip sq (count_reply what u); Some (True, next_dst_port t) }) (\<lambda>(m, t'). recv_keeps t t')"
    if "recv_keeps t (count_reply what u)" for sq what u
    by (rule keeps_report [OF keeps_after [OF that keeps_udp_report]])
  then show ?thesis
    unfolding recv_udp_def by (intro always_if always_skip) (auto split: prod.splits dest: keeps_rtt)
qed

lemma keeps_report_skew: "recv_keeps t v \<Longrightarrow> always (report_skew v) (\<lambda>(_, t'). recv_keeps t t')"
  unfolding report_skew_def by (intro always_skip) simp

lemma keeps_add_sample:
  assumes "recv_keeps t v"
  shows "always (add_sample avg v) (\<lambda>(_, t'). recv_keeps t t')"
proof -
  obtain now u where m: "mstime v = (now, u)" by fastforce
  have "recv_keeps t (u\<lparr>clock_samples := ss\<rparr>)" for ss
    by (rule recv_keeps_trans [OF recv_keeps_trans [OF assms keeps_mstime [OF m]]]) simp
  then show ?thesis
    unfolding add_sample_def m prod.case
    by (intro always_skip always_if keeps_report_skew) (auto intro: recv_keeps_trans [OF assms])
qed

lemma keeps_add_delta:
  assumes "recv_keeps t v"
  shows "always (add_delta ds x rttms v) (\<lambda>(_, t'). recv_keeps t t')"
proof -
  obtain localms u where m: "mstime v = (localms, u)" by fastforce
  have d: "recv_keeps t (u\<lparr>clock_deltas := d\<rparr>)" for d
    by (rule recv_keeps_trans [OF recv_keeps_trans [OF assms keeps_mstime [OF m]]]) simp
  show ?thesis
    unfolding add_delta_def m prod.case Let_def
    by (intro always_if) (auto split: option.split intro: keeps_report_skew [OF d] keeps_add_sample [OF d])
qed

lemma keeps_clock_skew: "always (clock_skew hz tstamp rttms t) (\<lambda>(_, t'). recv_keeps t t')"
  unfolding clock_skew_def Let_def
  by (rule always_skip) (auto split: option.split intro!: keeps_add_delta)

lemma keeps_timestamp_found: "always (timestamp_found tstamp rttms t) (\<lambda>(_, t'). recv_keeps t t')"
proof (cases "first_tstamp t = 0")
  case True
  obtain now u where m: "mstime (t\<lparr>first_tstamp := tstamp\<rparr>) = (now, u)" by fastforce
  have "recv_keeps t (u\<lparr>first_mstime := w\<rparr>)" for w
    using recv_keeps_trans [OF recv_keeps_trans [OF keeps_old_fields(6) keeps_mstime [OF m]] keeps_old_fields(7)] .
  then show ?thesis using True m by (simp add: timestamp_found_def)
next
  case False
  obtain now u where m: "mstime t = (now, u)" by fastforce
  have u: "recv_keeps t u" by (rule keeps_mstime [OF m])
  have "always (map_option (\<lambda>(_, t). (shown, t)) (clock_skew hz tstamp rttms u)) (\<lambda>(_, t'). recv_keeps t t')"
    for shown :: "(int \<times> int \<times> int \<times> int \<times> int) option" and hz
    using always_mono [OF keeps_clock_skew [of hz tstamp rttms u], of "\<lambda>x. recv_keeps t (snd x)"] recv_keeps_trans [OF u]
    by (auto simp: case_prod_unfold)
  then show ?thesis using False u by (simp add: timestamp_found_def m Let_def)
qed

lemma keeps_print_timestamp: "always (print_tcp_timestamp tcp rttms t) (\<lambda>(_, t'). recv_keeps t t')"
  unfolding print_tcp_timestamp_def Let_def
  by (rule always_if, simp, rule always_skip, rule always_if, simp, rule always_skip)
    (auto split: ts_result.split intro: keeps_timestamp_found)

lemma keeps_tcp_report: "always (tcp_report ip packet th_seq what sq ms t) (recv_keeps t)"
proof -
  have ts: "always (map_option snd (print_tcp_timestamp packet r u)) (recv_keeps t)" if "recv_keeps t u" for r u
    using always_mono [OF keeps_print_timestamp [of packet r u], of "\<lambda>x. recv_keeps t (snd x)"] recv_keeps_trans [OF that] by auto
  show ?thesis
    unfolding tcp_report_def
    by (rule always_if, rule keeps_log_ip, rule always_if, simp, rule always_if, simp, rule always_bindI [OF keeps_log_ip],
        rule always_if, erule ts, simp)
qed

lemma keeps_recv_tcp: "always (recv_tcp ip packet t) (\<lambda>(m, t'). recv_keeps t t')"
proof -
  have "recv_keeps t (upd_ctx (\<lambda>c. c\<lparr>tcp_exitcode := x\<rparr>) t)" for x by (rule quiet_keeps [OF quiet_exitcode])
  then have "always (do { t \<leftarrow> tcp_report ip packet s what sq ms (count_reply what u); Some (True, next_dst_port t) }) (\<lambda>(m, t'). recv_keeps t t')"
    if "rtt sq' port (upd_ctx (\<lambda>c. c\<lparr>tcp_exitcode := x\<rparr>) t) = (what, sq, ms, u)" for sq port x sq' what ms u s
    using keeps_rtt [OF that] by (intro keeps_report keeps_after [OF _ keeps_tcp_report]) (rule recv_keeps_trans)
  then show ?thesis
    unfolding recv_tcp_def by (intro always_if always_skip) (auto split: prod.splits)
qed

lemma keeps_handle_hcmp: "always (handle_hcmp packet t) (recv_keeps t)"
proof -
  have k: "recv_keeps t (upd_cfg (\<lambda>c. c\<lparr>src_id := n\<rparr>) t)" for n by (simp add: recv_keeps_def kept_def loop_cfg_def upd_cfg_def)
  have "always (datafiller_seek n u) (recv_keeps u)" for n u by (simp add: datafiller_seek_def always_def split: option.split)
  from keeps_after [OF k this] have "always (datafiller_seek n (upd_cfg (\<lambda>c. c\<lparr>src_id := n\<rparr>) t)) (recv_keeps t)" for n .
  then show ?thesis
    unfolding handle_hcmp_def Let_def by (intro always_skip) (auto split: option.split intro!: always_if always_skip)
qed

lemma keeps_display_ipopt: "always (display_ipopt pkt t) (\<lambda>(_, t'). recv_keeps t t')"
  unfolding display_ipopt_def Let_def by (rule always_skip, rule always_if, simp, rule always_bind3 [where Q = "\<lambda>_ _ _. True"]) (simp_all add: always_def)

lemma keeps_hping_stop: "recv_keeps t u \<Longrightarrow> recv_keeps t (hping_stop r u)"
  by (rule recv_keeps_trans [OF _ quiet_keeps [OF quiet_stop]])

lemma keeps_after_reply: "always (after_reply proto ip_packet enc match t) (recv_keeps t)"
proof -
  have "always (display_ipopt ip_packet t) (\<lambda>x. recv_keeps t (snd x))" by (rule always_mono [OF keeps_display_ipopt]) auto
  then have opts: "always (if match \<and> opt_rroute (cfg t) \<and> \<not> opt_quiet (cfg t) then map_option snd (display_ipopt ip_packet t) else Some t)
      (recv_keeps t)" by simp
  have stop: "always (if opt_traceroute (cfg u) \<and> opt_tr_stop (cfg u) \<and> match
           then let u = (if proto \<noteq> 1 then hping_stop HPING_STOP_TRACEROUTE u else u)
             in if length enc \<ge> 8
                then map_option (\<lambda>type. if type \<noteq> 11 then hping_stop HPING_STOP_TRACEROUTE u else u) (ld8 enc 0)
                else Some u
           else Some u) (recv_keeps t)" if u: "recv_keeps t u" for u
    using u keeps_hping_stop [OF u] keeps_hping_stop [OF keeps_hping_stop [OF u]] unfolding Let_def
    by (intro always_if) (auto intro: always_triv)
  have count: "always (Some (if cfg_count (cfg u) \<noteq> -1 \<and> word_of_int (cfg_count (cfg u)) = hping_stats_unique (stats u)
           then hping_stop HPING_STOP_COUNT u else u)) (recv_keeps t)" if "recv_keeps t u" for u
    using that keeps_hping_stop [OF that] by simp
  show ?thesis
    unfolding after_reply_def by (rule always_bindI [OF opts], rule always_bindI [OF stop], assumption, rule count)
qed

lemma keeps_dispatch: "always (dispatch proto ip enc t) (\<lambda>(m, t'). recv_keeps t t')"
  unfolding dispatch_def by (intro always_if keeps_recv_icmp keeps_recv_udp keeps_recv_tcp)

lemma keeps_handle_datagram: "always (handle_datagram p t) (recv_keeps t)"
proof -
  have rest: "always (do { (match, t) \<leftarrow> dispatch proto ip enc t; after_reply proto p enc match t }) (recv_keeps t)" for proto ip enc t
    by (rule always_bind2 [OF keeps_dispatch], rule keeps_after, assumption, rule keeps_after_reply)
  have reply: "always (handle_reply ip p hsize t) (recv_keeps t)" for ip hsize t
    unfolding handle_reply_def Let_def
    by (rule always_skip, rule always_skip, rule always_skip, rule always_if, simp, rule always_if, simp, rule always_if, simp, rule rest)
  have hcmp: "always (if opt_sign (cfg t) then handle_hcmp p t else Some t) (recv_keeps t)"
    by (rule always_if, rule keeps_handle_hcmp) simp
  show ?thesis
    unfolding handle_datagram_def Let_def
    by (rule always_if, simp, rule always_skip, rule always_skip, rule always_if, simp, rule always_if, simp,
        rule always_bindI [OF hcmp], rule keeps_after, assumption, rule reply)
qed

lemma wait_packet_keeps: "always (wait_packet t) (recv_keeps t)"
proof -
  let ?t = "t\<lparr>reads := reads t + 1\<rparr>"
  have "always (handle_datagram p ?t) (recv_keeps t)" for p by (rule keeps_after [OF _ keeps_handle_datagram]) simp
  then show ?thesis
    using keeps_hping_stop [of t ?t] unfolding wait_packet_def read_packet_def
    by (auto split: frame.split)
qed

end
