(* ===== verification/Loop.thy ===== *)
theory Loop
  imports Kept
begin

text \<open>
  The life cycle of the tool (lifecycle.c): initialisation, signals, the event loop with its
  pacing and its late-reply deadline, flood mode; listen mode (listen.c) and the binding of
  ctrl+z (binding.c).

  Signals arrive between two turns of a loop: their handler only sets a flag, and a loop looks at
  the flags at the start of a turn.  The turn of the event loop takes the sending and the
  receiving operation as arguments; \<open>main_turn\<close> is the one of the code.
\<close>

section \<open>Signals and the reason to stop\<close>

abbreviation (input) SIGTSTP :: int where "SIGTSTP \<equiv> 20"

definition on_signal :: "int \<Rightarrow> tool \<Rightarrow> tool" where
  "on_signal signo t = (if signo = SIGTSTP then t\<lparr>sig_tstp := True\<rparr> else t\<lparr>sig_stop := signo\<rparr>)"

text \<open>What \<open>inc_destparm\<close> does to the port or the TTL: two presses within 200 ms decrement it.\<close>

definition inc_value :: "bool \<Rightarrow> int \<Rightarrow> int" where
  "inc_value twice p = (if twice then let p = (if p > 0 then p - 2 else p) in (if p < 0 then 0 else p) else p + 1)"

definition inc_destparm :: "tool \<Rightarrow> tool" where
  "inc_destparm t =
     (if ctrlzbind (cfg t) = BIND_NONE then t
      else case hping_monotonic_us t of (now, t) \<Rightarrow>
        let twice = (last_press t \<noteq> 0 \<and> now - last_press t < 200000);
            t = (if ctrlzbind (cfg t) = BIND_DPORT then upd_cfg (\<lambda>c. c\<lparr>dst_port := inc_value twice (dst_port c)\<rparr>) t
                 else upd_cfg (\<lambda>c. c\<lparr>src_ttl := inc_value twice (src_ttl c)\<rparr>) t)
        in t\<lparr>last_press := now\<rparr>)"

definition handle_pending_signals :: "tool \<Rightarrow> tool" where
  "handle_pending_signals t =
     (let t = (if sig_tstp t then inc_destparm (t\<lparr>sig_tstp := False\<rparr>) else t)
      in if sig_stop t \<noteq> 0 then hping_stop HPING_STOP_SIGNAL t else t)"

definition hping_stop_requested :: "tool \<Rightarrow> bool" where
  "hping_stop_requested t \<longleftrightarrow> reason (ctx t) \<noteq> HPING_STOP_NONE \<or> sig_stop t \<noteq> 0"

section \<open>Waiting\<close>

text \<open>The timeout for \<open>poll\<close>, in milliseconds, of \<open>pcap_io_wait\<close>; \<open>selectable\<close> says that the capture
  has a descriptor.\<close>

definition poll_timeout :: "bool \<Rightarrow> int \<Rightarrow> int \<Rightarrow> int" where
  "poll_timeout selectable pcap_poll_ms timeout =
     (let ms = (if timeout < 0 then -1 else if timeout < 1000 then 0 else if timeout sdiv 1000 > 1000000 then 1000000 else timeout sdiv 1000)
      in if \<not> selectable \<and> (ms < 0 \<or> ms > pcap_poll_ms) then pcap_poll_ms else ms)"

definition hping_send_interval_us :: "hping_config \<Rightarrow> int" where
  "hping_send_interval_us c = (if opt_waitinusec c then usec_delay c else sending_wait c * 1000000)"

text \<open>\<open>ctx.io.wait\<close>.\<close>

definition io_wait :: "int \<Rightarrow> tool \<Rightarrow> int \<times> tool" where
  "io_wait timeout t = (waits (env t) (waits_done t) timeout, t\<lparr>waits_done := waits_done t + 1\<rparr>)"

section \<open>Initialisation\<close>

text \<open>What the system and the capture library answer: name resolution, the interface (name, address,
  MTU), whether the raw socket, the capture and the signal handlers can be set up.\<close>

record host =
  resolve :: "string \<Rightarrow> u32 option"
  if_found :: "(string \<times> string \<times> u32) option"
  raw_socket_ok :: bool
  capture :: "dlt option"
  signals_ok :: bool

definition reverse_sign :: "tool \<Rightarrow> tool" where
  "reverse_sign t = (if opt_sign (cfg t) \<or> opt_listenmode (cfg t) then upd_ctx (\<lambda>c. c\<lparr>rsign := rev (cfg_sign (cfg t))\<rparr>) t else t)"

text \<open>The raw socket, the capture and the size of the link header.\<close>

definition open_devices :: "host \<Rightarrow> tool \<Rightarrow> bool \<times> tool" where
  "open_devices h t =
     (if opt_dry_run (cfg t) then (True, t)
      else if readfile (cfg t) = None \<and> \<not> raw_socket_ok h then (False, t)
      else case capture h of None \<Rightarrow> (False, t) | Some dltype \<Rightarrow> get_linkhdr_size dltype t)"

definition addr_or :: "string \<Rightarrow> string \<Rightarrow> string" where
  "addr_or a b = (if a \<noteq> [] then a else b)"

text \<open>The four addresses, in the order of the code.\<close>

definition resolve_sources :: "host \<Rightarrow> string \<Rightarrow> tool \<Rightarrow> bool \<times> tool" where
  "resolve_sources h ifaddr t =
     (case resolve h (addr_or (spoofaddr (cfg t)) ifaddr) of
        None \<Rightarrow> (False, t)
      | Some a \<Rightarrow> let t = upd_ctx (\<lambda>c. c\<lparr>local_addr := a\<rparr>) t in
     (case resolve h (addr_or (icmp_ip_srcip (cfg t)) ''1.2.3.4'') of
        None \<Rightarrow> (False, t)
      | Some a \<Rightarrow> let t = upd_ctx (\<lambda>c. c\<lparr>icmp_ip_src := a\<rparr>) t in
     (case resolve h (addr_or (icmp_ip_dstip (cfg t)) ''5.6.7.8'') of
        None \<Rightarrow> (False, t)
      | Some a \<Rightarrow> let t = upd_ctx (\<lambda>c. c\<lparr>icmp_ip_dst := a\<rparr>) t in
     (case resolve h (addr_or (icmp_gwip (cfg t)) ''0.0.0.0'') of
        None \<Rightarrow> (False, t)
      | Some a \<Rightarrow> (True, upd_ctx (\<lambda>c. c\<lparr>icmp_gw := a\<rparr>) t)))))"

definition initial_port :: "tool \<Rightarrow> tool option" where
  "initial_port t =
     (if initsport (cfg t) = -1
      then map_option (\<lambda>(r, t). let p = 1024 + uint (r mod 2000) in upd_ctx (\<lambda>c. c\<lparr>src_port := p\<rparr>) (upd_cfg (\<lambda>c. c\<lparr>initsport := p\<rparr>) t)) (hping_rand t)
      else Some (upd_ctx (\<lambda>c. c\<lparr>src_port := initsport (cfg t)\<rparr>) t))"

definition hping_init :: "host \<Rightarrow> tool \<Rightarrow> (int \<times> tool) option" where
  "hping_init h t =
     (let t = upd_ctx (\<lambda>c. c\<lparr>reason := HPING_STOP_NONE, end_deadline_us := -1\<rparr>) t;
          t = reverse_sign t;
          known = opt_listenmode (cfg t) \<or> opt_safe (cfg t) \<or> opt_rand_dest (cfg t)
      in if \<not> known \<and> resolve h (targetname (cfg t)) = None then Some (-1, t)
         else let t = (if known then t else upd_ctx (\<lambda>c. c\<lparr>remote_addr := the (resolve h (targetname (cfg t)))\<rparr>) t)
           in case if_found h of
                None \<Rightarrow> Some (-1, t)
              | Some (nam, ifaddr, mtu) \<Rightarrow>
                  (let t = upd_ctx (\<lambda>c. c\<lparr>h_if_mtu := mtu\<rparr>) (upd_cfg (\<lambda>c. c\<lparr>ifname := nam\<rparr>) t)
                   in case open_devices h t of
                        (False, t) \<Rightarrow> Some (-1, t)
                      | (True, t) \<Rightarrow>
                          (case resolve_sources h ifaddr t of
                             (False, t) \<Rightarrow> Some (-1, t)
                           | (True, t) \<Rightarrow> do {
                               t \<leftarrow> initial_port t;
                               Some (if signals_ok h then (0, t\<lparr>sig_stop := 0, sig_tstp := False\<rparr>) else (-1, t))
                             })))"

section \<open>The event loop\<close>

definition all_probes_sent :: "tool \<Rightarrow> bool" where
  "all_probes_sent t \<longleftrightarrow> cfg_count (cfg t) \<noteq> -1 \<and> sent (stats t) \<ge> word_of_int (cfg_count (cfg t))"

text \<open>\<open>send_due_probe\<close>; the result says whether the probe was sent.\<close>

definition send_due_probe :: "(tool \<Rightarrow> (int \<times> tool) option) \<Rightarrow> int \<Rightarrow> tool \<Rightarrow> (bool \<times> tool) option" where
  "send_due_probe send now t = (let interval = hping_send_interval_us (cfg t) in do {
     (r, t) \<leftarrow> send t;
     Some (if r = -1 then (False, t)
           else if all_probes_sent t then (True, upd_ctx (\<lambda>c. c\<lparr>end_deadline_us := now + 1000000\<rparr>) t)
           else (True, upd_ctx (\<lambda>c. c\<lparr>next_send_us := max (next_send_us c + interval) now\<rparr>) t))
   })"

definition loop_timeout :: "int \<Rightarrow> tool \<Rightarrow> int" where
  "loop_timeout now t =
     max 0 (if readfile (cfg t) \<noteq> None then 0
            else if \<not> all_probes_sent t then next_send_us (ctx t) - now else end_deadline_us (ctx t) - now)"

text \<open>The end of a turn: pacing in a dry run, or waiting for a frame.  The boolean says that the loop
  goes on.\<close>

definition turn_wait :: "(tool \<Rightarrow> tool option) \<Rightarrow> int \<Rightarrow> tool \<Rightarrow> (bool \<times> tool) option" where
  "turn_wait receive now t =
     (if opt_dry_run (cfg t) then Some (True, handle_pending_signals t)
      else case io_wait (loop_timeout now t) t of (r, t) \<Rightarrow>
        if r < 0 then Some (False, hping_stop HPING_STOP_ERROR t)
        else if r > 0 then map_option (Pair True) (receive t)
        else Some (True, t))"

definition turn_send :: "(tool \<Rightarrow> (int \<times> tool) option) \<Rightarrow> int \<Rightarrow> tool \<Rightarrow> (bool \<times> int \<times> tool) option" where
  "turn_send send now t =
     (if readfile (cfg t) = None \<and> \<not> all_probes_sent t \<and> now \<ge> next_send_us (ctx t)
      then do {
        (ok, t) \<leftarrow> send_due_probe send now t;
        Some (if \<not> ok then (False, now, t) else (case hping_monotonic_us t of (now, t) \<Rightarrow> (True, now, t)))
      }
      else Some (True, now, t))"

definition loop_turn :: "(tool \<Rightarrow> (int \<times> tool) option) \<Rightarrow> (tool \<Rightarrow> tool option) \<Rightarrow> tool \<Rightarrow> (bool \<times> tool) option" where
  "loop_turn send receive t =
     (let t = handle_pending_signals t
      in if reason (ctx t) \<noteq> HPING_STOP_NONE then Some (False, t)
         else case hping_monotonic_us t of (now, t) \<Rightarrow>
           if end_deadline_us (ctx t) \<noteq> -1 \<and> now \<ge> end_deadline_us (ctx t) then Some (False, hping_stop HPING_STOP_SENT t)
           else do {
             (ok, now, t) \<leftarrow> turn_send send now t;
             if \<not> ok then Some (False, hping_stop HPING_STOP_ERROR t) else turn_wait receive now t
           })"

definition main_turn :: "tool \<Rightarrow> (bool \<times> tool) option" where
  "main_turn = loop_turn send_packet wait_packet"

definition loop_start :: "tool \<Rightarrow> tool" where
  "loop_start t = (case hping_monotonic_us t of (now, t) \<Rightarrow> upd_ctx (\<lambda>c. c\<lparr>next_send_us := now, end_deadline_us := -1\<rparr>) t)"

text \<open>The loop while no signal arrives; \<open>None\<close> also when it does not end.\<close>

partial_function (option) loop_run :: "tool \<Rightarrow> tool option" where
  "loop_run t = Option.bind (main_turn t) (\<lambda>(go_on, t). if go_on then loop_run t else Some t)"

definition main_loop :: "tool \<Rightarrow> tool option" where
  "main_loop t = loop_run (loop_start t)"

text \<open>Flood mode: one turn, and the loop.\<close>

definition flood_turn :: "tool \<Rightarrow> (bool \<times> tool) option" where
  "flood_turn t =
     (if hping_stop_requested t then Some (False, t)
      else do {
        (r, t) \<leftarrow> send_packet t;
        Some (if r = -1 then (False, hping_stop HPING_STOP_ERROR t)
              else if all_probes_sent t then (False, hping_stop HPING_STOP_SENT t)
              else (True, if sig_tstp t then handle_pending_signals t else t))
      })"

partial_function (option) flood_run :: "tool \<Rightarrow> tool option" where
  "flood_run t = Option.bind (flood_turn t) (\<lambda>(go_on, t). if go_on then flood_run t else Some t)"

definition flood_loop :: "tool \<Rightarrow> tool option" where
  "flood_loop t = map_option handle_pending_signals (flood_run t)"

section \<open>Listen mode\<close>

text \<open>The id of a captured frame and the data behind the signature, as far as the total length of the
  IP header goes; \<open>None\<close> inside: a truncated frame, or one without the signature.\<close>

definition signed_data :: "nat \<Rightarrow> string \<Rightarrow> bytes \<Rightarrow> (u16 \<times> bytes) option option" where
  "signed_data lhs sign frame =
     (if length frame < lhs + 20 then Some None
      else let ip_packet = drop lhs frame in do {
        ident \<leftarrow> be16_at ip_packet 4;
        tot_len \<leftarrow> be16_at ip_packet 2;
        let sz = min (length ip_packet) (unat tot_len);
        m \<leftarrow> memstr (to_string ip_packet) sign (int sz);
        Some (case m of None \<Rightarrow> None | Some i \<Rightarrow> Some (ident, take (sz - (i + length sign)) (drop (i + length sign) ip_packet)))
      })"

text \<open>\<open>write\<close> to the standard output.\<close>

definition write_data :: "bytes \<Rightarrow> tool \<Rightarrow> tool" where
  "write_data bs t =
     (let w = stdout_write (env t) (stdout_writes t) (length bs); t = t\<lparr>stdout_writes := stdout_writes t + 1\<rparr>
      in if w = -1 then hping_stop HPING_STOP_ERROR t else t\<lparr>printed := printed t @ [take (nat w) bs]\<rparr>)"

text \<open>A packet with the signature: with --safe only the expected one is written, and the sender is
  asked to go on from there otherwise.\<close>

definition listen_data :: "u16 \<Rightarrow> bytes \<Rightarrow> tool \<Rightarrow> tool option" where
  "listen_data ident bs t =
     (if opt_safe (cfg t) then
        if ident = exp_id t then Some (write_data bs (t\<lparr>exp_id := exp_id t + 1\<rparr>))
        else map_option snd (send_hcmp HCMP_RESTART (ucast (exp_id t)) t)
      else Some (write_data bs t))"

definition listen_turn :: "tool \<Rightarrow> (bool \<times> tool) option" where
  "listen_turn t =
     (if hping_stop_requested t then Some (False, t)
      else case io_wait (-1) t of (r, t) \<Rightarrow>
        if r < 0 then Some (False, hping_stop HPING_STOP_ERROR t)
        else if r = 0 then Some (True, t)
        else let lhs = unat (linkhdr_size (ctx t)) in
          (case read_packet (65535 + lhs) t of
             (No_frame, t) \<Rightarrow> Some (True, t)
           | (End_of_input, t) \<Rightarrow> Some (True, hping_stop HPING_STOP_EOF t)
           | (Frame bs, t) \<Rightarrow> do {
               d \<leftarrow> signed_data lhs (cfg_sign (cfg t)) bs;
               (case d of
                  None \<Rightarrow> Some (True, t)
                | Some (ident, bs) \<Rightarrow> map_option (Pair True) (listen_data ident bs t))
             }))"

partial_function (option) listen_loop :: "tool \<Rightarrow> tool option" where
  "listen_loop t = Option.bind (listen_turn t) (\<lambda>(go_on, t). if go_on then listen_loop t else Some t)"

definition listen_run :: "tool \<Rightarrow> tool option" where
  "listen_run t = listen_loop (t\<lparr>exp_id := 1\<rparr>)"

section \<open>A run of the tool\<close>

text \<open>The exit status; \<open>scan\<close> is the port scanner, which forks.\<close>

definition hping_run :: "(tool \<Rightarrow> (int \<times> tool) option) \<Rightarrow> tool \<Rightarrow> (int \<times> tool) option" where
  "hping_run scan t =
     (if \<not> opt_listenmode (cfg t) \<and> opt_scanmode (cfg t) then scan t
      else do {
        t \<leftarrow> (if opt_listenmode (cfg t) then listen_run t else if opt_flood (cfg t) then flood_loop t else main_loop t);
        Some (if reason (ctx t) = HPING_STOP_ERROR then 1 else hping_exit_code t, t)
      })"

section \<open>The loop and signals as a step relation\<close>

datatype loop_state = Running tool | Stopped tool

inductive loop_step :: "loop_state \<Rightarrow> loop_state \<Rightarrow> bool" where
  signal: "loop_step (Running t) (Running (on_signal n t))"
| turn: "main_turn t = Some (True, t') \<Longrightarrow> loop_step (Running t) (Running t')"
| stop: "main_turn t = Some (False, t') \<Longrightarrow> loop_step (Running t) (Stopped t')"

inductive_cases loop_step_RunningE: "loop_step (Running t) s"
inductive_simps loop_step_Stopped [simp]: "loop_step (Stopped t) s"

inductive reaches :: "tool \<Rightarrow> loop_state \<Rightarrow> bool" for t0 where
  start: "reaches t0 (Running (loop_start t0))"
| step: "reaches t0 s \<Longrightarrow> loop_step s s' \<Longrightarrow> reaches t0 s'"

fun tool_of :: "loop_state \<Rightarrow> tool" where
  "tool_of (Running t) = t"
| "tool_of (Stopped t) = t"

section \<open>What a turn does\<close>

text \<open>The part of the state that paces the loop.\<close>

definition pace :: "tool \<Rightarrow> _" where
  "pace t = (env t, loop_cfg (cfg t), next_send_us (ctx t), end_deadline_us (ctx t), clock_monotonic (ctx t), sent (stats t))"

lemma pace_fields:
  assumes "pace t' = pace t"
  shows "env t' = env t" "loop_cfg (cfg t') = loop_cfg (cfg t)" "next_send_us (ctx t') = next_send_us (ctx t)"
    "end_deadline_us (ctx t') = end_deadline_us (ctx t)" "clock_at t' = clock_at t" "sent (stats t') = sent (stats t)"
    "cfg_count (cfg t') = cfg_count (cfg t)" "hping_send_interval_us (cfg t') = hping_send_interval_us (cfg t)"
    "readfile (cfg t') = readfile (cfg t)" "all_probes_sent t' = all_probes_sent t"
  using assms by (auto simp: pace_def clock_at_def loop_cfg_def hping_send_interval_us_def all_probes_sent_def split: source.split)

lemma loop_cfg_fields:
  assumes "loop_cfg c' = loop_cfg c"
  shows "cfg_count c' = cfg_count c" "hping_send_interval_us c' = hping_send_interval_us c" "readfile c' = readfile c"
    "opt_dry_run c' = opt_dry_run c" "opt_safe c' = opt_safe c" "cfg_sign c' = cfg_sign c"
  using assms by (simp_all add: loop_cfg_def hping_send_interval_us_def)

definition sticky :: "tool \<Rightarrow> tool \<Rightarrow> bool" where
  "sticky t t' \<longleftrightarrow> reason (ctx t) \<noteq> HPING_STOP_NONE \<longrightarrow> reason (ctx t') = reason (ctx t)"

lemma clock_at_reading: "hping_monotonic_us t = (clock_at t (clock_calls t), t\<lparr>clock_calls := clock_calls t + 1\<rparr>)"
  by (simp add: hping_monotonic_us_def clock_at_def split: source.split)

lemma pace_clock [simp]: "pace (t\<lparr>clock_calls := n\<rparr>) = pace t" "pace (t\<lparr>sig_tstp := b\<rparr>) = pace t" "pace (t\<lparr>last_press := p\<rparr>) = pace t"
  "pace (t\<lparr>waits_done := w\<rparr>) = pace t" "pace (t\<lparr>sig_stop := s\<rparr>) = pace t"
  by (simp_all add: pace_def)

lemma pace_stop [simp]: "pace (hping_stop r t) = pace t" "clock_calls (hping_stop r t) = clock_calls t" "wire (hping_stop r t) = wire t"
  "sig_stop (hping_stop r t) = sig_stop t"
  by (simp_all add: pace_def hping_stop_def upd_ctx_def)

lemma pace_upd_cfg: "loop_cfg (f (cfg t)) = loop_cfg (cfg t) \<Longrightarrow> pace (upd_cfg f t) = pace t"
  by (simp add: pace_def)

lemma inc_destparm_keeps:
  "pace (inc_destparm t) = pace t \<and> clock_calls t \<le> clock_calls (inc_destparm t) \<and> reason (ctx (inc_destparm t)) = reason (ctx t)
    \<and> wire (inc_destparm t) = wire t \<and> sig_stop (inc_destparm t) = sig_stop t"
proof -
  have p: "pace (upd_cfg (\<lambda>c. c\<lparr>dst_port := f c\<rparr>) u) = pace u" "pace (upd_cfg (\<lambda>c. c\<lparr>src_ttl := f c\<rparr>) u) = pace u" for f u
    by (intro pace_upd_cfg; simp add: loop_cfg_def)+
  have s: "sig_stop (upd_cfg f u) = sig_stop u" for f u by (simp add: upd_cfg_def)
  show ?thesis by (simp add: inc_destparm_def clock_at_reading Let_def p s)
qed

lemma pending_keeps:
  "pace (handle_pending_signals t) = pace t" "clock_calls t \<le> clock_calls (handle_pending_signals t)"
  "wire (handle_pending_signals t) = wire t"
  "reason (ctx (handle_pending_signals t)) = (if reason (ctx t) = HPING_STOP_NONE \<and> sig_stop t \<noteq> 0 then HPING_STOP_SIGNAL else reason (ctx t))"
  using inc_destparm_keeps [of "t\<lparr>sig_tstp := False\<rparr>"] by (auto simp: handle_pending_signals_def Let_def hping_stop_def upd_ctx_def pace_def)

text \<open>The pacing: unless all probes are sent, the next one is due no earlier than an interval after
  \<open>start\<close> for each probe sent since then.\<close>

definition paced :: "int \<Rightarrow> u64 \<Rightarrow> tool \<Rightarrow> bool" where
  "paced start s0 t \<longleftrightarrow> all_probes_sent t
     \<or> start + hping_send_interval_us (cfg t) * int (unat (sent (stats t) - s0)) \<le> next_send_us (ctx t)"

lemma paced_pace: "pace t' = pace t \<Longrightarrow> paced start s0 t' = paced start s0 t"
  unfolding paced_def by (simp only: pace_fields [of t' t])

text \<open>A probe is sent within a turn only when it is due, at a reading of the clock.\<close>

definition sent_on_time :: "int \<Rightarrow> u64 \<Rightarrow> tool \<Rightarrow> tool \<Rightarrow> bool" where
  "sent_on_time start s0 t t' \<longleftrightarrow> sent (stats t') = sent (stats t)
     \<or> sent (stats t') = sent (stats t) + 1 \<and> \<not> all_probes_sent t
       \<and> (\<exists>n. clock_calls t \<le> n \<and> n < clock_calls t'
             \<and> start + hping_send_interval_us (cfg t) * int (unat (sent (stats t) - s0)) \<le> clock_at t n)"

lemma unat_diff_Suc: "int (unat (s + 1 - s0 :: u64)) \<le> int (unat (s - s0)) + 1"
proof -
  have "s + 1 - s0 = (s - s0) + 1" by simp
  moreover have "unat ((s - s0) + 1) \<le> unat (s - s0) + 1"
    unfolding unat_word_ariths(1) [of "s - s0" 1] by (rule order_trans [OF mod_less_eq_dividend]) simp
  ultimately show ?thesis by (metis of_nat_1 of_nat_add of_nat_mono)
qed

text \<open>What the loop needs of its two operations.\<close>

locale event_loop =
  fixes send :: "tool \<Rightarrow> (int \<times> tool) option" and receive :: "tool \<Rightarrow> tool option"
  assumes send_law: "always (send t) (sent_one t)"
    and receive_law: "always (receive t) (recv_keeps t)"
begin

lemma send_due_probe_law:
  assumes "\<not> all_probes_sent t" "next_send_us (ctx t) \<le> now" "0 \<le> hping_send_interval_us (cfg t)"
    "send_due_probe send now t = Some (ok, t')"
  shows "env t' = env t \<and> loop_cfg (cfg t') = loop_cfg (cfg t) \<and> clock_at t' = clock_at t \<and> clock_calls t \<le> clock_calls t'
    \<and> reason (ctx t') = reason (ctx t)
    \<and> (if ok then sent (stats t') = sent (stats t) + 1
         \<and> (all_probes_sent t' \<or> next_send_us (ctx t) + hping_send_interval_us (cfg t) \<le> next_send_us (ctx t'))
       else sent (stats t') = sent (stats t) \<and> next_send_us (ctx t') = next_send_us (ctx t))"
proof -
  obtain r u where s: "send t = Some (r, u)"
    and t': "(ok, t') = (if r = -1 then (False, u)
           else if all_probes_sent u then (True, upd_ctx (\<lambda>c. c\<lparr>end_deadline_us := now + 1000000\<rparr>) u)
           else (True, upd_ctx (\<lambda>c. c\<lparr>next_send_us := max (next_send_us c + hping_send_interval_us (cfg t)) now\<rparr>) u))"
    using assms(4) by (auto simp: send_due_probe_def Let_def bind_eq_Some_conv)
  have u: "kept u = kept t" "reason (ctx u) = reason (ctx t)" "clock_calls t \<le> clock_calls u"
    "r = 0 \<and> sent (stats u) = sent (stats t) + 1 \<or> r = -1 \<and> sent (stats u) = sent (stats t)"
    using alwaysD [OF send_law s] by (auto simp: sent_one_def)
  have k: "env u = env t" "loop_cfg (cfg u) = loop_cfg (cfg t)" "next_send_us (ctx u) = next_send_us (ctx t)" "clock_at u = clock_at t"
    using u(1) by (simp_all add: kept_def clock_at_def split: source.split)
  have c: "clock_at (upd_ctx (\<lambda>c. c\<lparr>end_deadline_us := d\<rparr>) u) = clock_at u" "clock_at (upd_ctx (\<lambda>c. c\<lparr>next_send_us := f c\<rparr>) u) = clock_at u"
    for d f by (simp_all add: clock_at_def split: source.split)
  have a: "all_probes_sent (upd_ctx f u) = all_probes_sent u" for f by (simp add: all_probes_sent_def)
  from u(4) show ?thesis
  proof (elim disjE conjE)
    assume "r = 0" "sent (stats u) = sent (stats t) + 1"
    then show ?thesis using t' u(2,3) k c a by (auto split: if_splits)
  next
    assume "r = -1" "sent (stats u) = sent (stats t)"
    then show ?thesis using t' u(2,3) k by simp
  qed
qed

text \<open>A turn sends at most one probe, and on time.\<close>

lemma turn_send_law:
  assumes "paced start s0 t" "0 \<le> hping_send_interval_us (cfg t)" "clock_at t n = now" "m \<le> n" "n < clock_calls t"
    "turn_send send now t = Some (ok, now', t')"
  shows "env t' = env t \<and> loop_cfg (cfg t') = loop_cfg (cfg t) \<and> clock_at t' = clock_at t \<and> clock_calls t \<le> clock_calls t'
    \<and> reason (ctx t') = reason (ctx t) \<and> paced start s0 t'
    \<and> (sent (stats t') = sent (stats t)
       \<or> sent (stats t') = sent (stats t) + 1 \<and> \<not> all_probes_sent t
         \<and> start + hping_send_interval_us (cfg t) * int (unat (sent (stats t) - s0)) \<le> now)"
proof (cases "readfile (cfg t) = None \<and> \<not> all_probes_sent t \<and> now \<ge> next_send_us (ctx t)")
  case True
  then obtain u where s: "send_due_probe send now t = Some (ok, u)"
    and t': "t' = u \<or> t' = u\<lparr>clock_calls := clock_calls u + 1\<rparr>"
    using assms(6) by (auto simp: turn_send_def bind_eq_Some_conv clock_at_reading split: if_splits)
  have "\<not> all_probes_sent t" "next_send_us (ctx t) \<le> now" using True by simp_all
  note u = send_due_probe_law [OF this assms(2) s]
  let ?i = "hping_send_interval_us (cfg t)"
  have due: "start + ?i * int (unat (sent (stats t) - s0)) \<le> next_send_us (ctx t)" using assms(1) True by (simp add: paced_def)
  have iu: "hping_send_interval_us (cfg u) = ?i" "loop_cfg (cfg u) = loop_cfg (cfg t)"
    using u loop_cfg_fields(2) [of "cfg u" "cfg t"] by simp_all
  have "paced start s0 u"
  proof (cases ok)
    case ok: True
    show ?thesis
    proof (cases "all_probes_sent u")
      case False
      then have n: "next_send_us (ctx t) + ?i \<le> next_send_us (ctx u)" "sent (stats u) = sent (stats t) + 1" using u True ok by auto
      have "?i * int (unat (sent (stats u) - s0)) \<le> ?i * (int (unat (sent (stats t) - s0)) + 1)"
        unfolding n(2) by (rule mult_left_mono [OF unat_diff_Suc assms(2)])
      then show ?thesis using due n(1) by (simp add: paced_def iu algebra_simps)
    qed (simp add: paced_def)
  next
    case False
    then show ?thesis using u True due iu by (simp add: paced_def)
  qed
  moreover have "pace (u\<lparr>clock_calls := k\<rparr>) = pace u" for k by simp
  ultimately have "paced start s0 t'" using t' paced_pace by metis
  moreover have "clock_at (u\<lparr>clock_calls := k\<rparr>) = clock_at u" for k by (simp add: clock_at_def split: source.split)
  ultimately show ?thesis using t' u True due iu by (cases ok) auto
next
  case False
  then have "t' = t" using assms(6) by (auto simp: turn_send_def split: if_splits)
  then show ?thesis using assms(1) by simp
qed

lemma turn_wait_law:
  assumes "turn_wait receive now t = Some (go_on, t')"
  shows "pace t' = pace t \<and> clock_calls t \<le> clock_calls t' \<and> sticky t t'"
proof -
  have r: "pace v = pace t \<and> clock_calls t \<le> clock_calls v \<and> sticky t v" if "receive (t\<lparr>waits_done := k\<rparr>) = Some v" for v k
    using alwaysD [OF receive_law that] by (auto simp: recv_keeps_def pace_def kept_def sticky_def)
  have st: "sticky t (hping_stop x (t\<lparr>waits_done := k\<rparr>))" for x k by (simp add: sticky_def hping_stop_def)
  show ?thesis
  proof (cases "opt_dry_run (cfg t)")
    case True
    then show ?thesis using assms pending_keeps [of t] by (auto simp: turn_wait_def sticky_def)
  next
    case False
    then show ?thesis
      using assms st by (auto simp: turn_wait_def io_wait_def sticky_def split: if_splits dest!: r)
  qed
qed

lemma loop_turn_cases:
  assumes "loop_turn send receive t = Some (go_on, t')"
  obtains (stopped) "reason (ctx (handle_pending_signals t)) \<noteq> HPING_STOP_NONE" "go_on = False" "t' = handle_pending_signals t"
  | (deadline) p where "p = handle_pending_signals t" "reason (ctx p) = HPING_STOP_NONE" "go_on = False"
      "t' = hping_stop HPING_STOP_SENT (p\<lparr>clock_calls := clock_calls p + 1\<rparr>)"
      "end_deadline_us (ctx p) \<noteq> -1" "end_deadline_us (ctx p) \<le> clock_at p (clock_calls p)"
  | (send) p ok now u where "p = handle_pending_signals t" "reason (ctx p) = HPING_STOP_NONE"
      "turn_send send (clock_at p (clock_calls p)) (p\<lparr>clock_calls := clock_calls p + 1\<rparr>) = Some (ok, now, u)"
      "\<not> ok \<and> go_on = False \<and> t' = hping_stop HPING_STOP_ERROR u \<or> ok \<and> turn_wait receive now u = Some (go_on, t')"
proof (cases "reason (ctx (handle_pending_signals t)) = HPING_STOP_NONE")
  case True
  let ?p = "handle_pending_signals t"
  let ?u = "?p\<lparr>clock_calls := clock_calls ?p + 1\<rparr>"
  have "loop_turn send receive t =
      (if end_deadline_us (ctx ?p) \<noteq> -1 \<and> clock_at ?p (clock_calls ?p) \<ge> end_deadline_us (ctx ?p) then Some (False, hping_stop HPING_STOP_SENT ?u)
       else do { (ok, now, u) \<leftarrow> turn_send send (clock_at ?p (clock_calls ?p)) ?u;
             if \<not> ok then Some (False, hping_stop HPING_STOP_ERROR u) else turn_wait receive now u })"
    using True by (simp add: loop_turn_def Let_def clock_at_reading)
  note e = this
  show thesis
  proof (cases "end_deadline_us (ctx ?p) \<noteq> -1 \<and> clock_at ?p (clock_calls ?p) \<ge> end_deadline_us (ctx ?p)")
    case D: True
    then have "Some (go_on, t') = Some (False, hping_stop HPING_STOP_SENT ?u)" using e assms by simp
    then show thesis using D by (intro deadline [OF refl True]) simp_all
  next
    case False
    then have "do { (ok, now, u) \<leftarrow> turn_send send (clock_at ?p (clock_calls ?p)) ?u;
        if \<not> ok then Some (False, hping_stop HPING_STOP_ERROR u) else turn_wait receive now u } = Some (go_on, t')"
      using e assms by (simp only: if_False)
    then obtain ok now u where "turn_send send (clock_at ?p (clock_calls ?p)) ?u = Some (ok, now, u)"
      "(if \<not> ok then Some (False, hping_stop HPING_STOP_ERROR u) else turn_wait receive now u) = Some (go_on, t')"
      by (auto simp: bind_eq_Some_conv)
    then show thesis by (cases ok) (auto intro: send [OF refl True])
  qed
next
  case False
  then have "loop_turn send receive t = Some (False, handle_pending_signals t)" unfolding loop_turn_def Let_def by (rule if_P)
  then have "go_on = False" "t' = handle_pending_signals t" using assms by (simp_all only: option.inject prod.inject)
  then show thesis by (rule stopped [OF False])
qed

lemma loop_turn_law:
  assumes "paced start s0 t" "0 \<le> hping_send_interval_us (cfg t)" "loop_turn send receive t = Some (go_on, t')"
  shows "env t' = env t \<and> loop_cfg (cfg t') = loop_cfg (cfg t) \<and> clock_at t' = clock_at t \<and> clock_calls t \<le> clock_calls t'
    \<and> sticky t t' \<and> paced start s0 t' \<and> sent_on_time start s0 t t'"
  using assms(3)
proof (cases rule: loop_turn_cases)
  case stopped
  then show ?thesis
    using pending_keeps [of t] pace_fields [of t' t] paced_pace [of t' t] assms(1) by (auto simp: sent_on_time_def sticky_def)
next
  case (deadline p)
  have "pace t' = pace t" using deadline(4) pending_keeps(1) [of t] by (simp add: deadline(1))
  moreover have "clock_calls t \<le> clock_calls t'" using deadline(4) pending_keeps(2) [of t] by (simp add: deadline(1))
  moreover have "sticky t t'" using deadline(1,2) pending_keeps(4) [of t] by (auto simp: sticky_def)
  ultimately show ?thesis
    using pace_fields [of t' t] paced_pace [of t' t] assms(1) by (simp add: sent_on_time_def)
next
  case (send p ok now u)
  let ?q = "p\<lparr>clock_calls := clock_calls p + 1\<rparr>"
  have q: "pace ?q = pace t" "clock_calls t \<le> clock_calls p" using pending_keeps(1,2) [of t] by (simp_all add: send(1))
  note qf = pace_fields [OF q(1)]
  have cq: "clock_at p = clock_at t" using pace_fields(5) [OF pending_keeps(1)] by (simp add: send(1))
  have u: "env u = env ?q \<and> loop_cfg (cfg u) = loop_cfg (cfg ?q) \<and> clock_at u = clock_at ?q \<and> clock_calls ?q \<le> clock_calls u
    \<and> reason (ctx u) = reason (ctx ?q) \<and> paced start s0 u
    \<and> (sent (stats u) = sent (stats ?q)
       \<or> sent (stats u) = sent (stats ?q) + 1 \<and> \<not> all_probes_sent ?q
         \<and> start + hping_send_interval_us (cfg ?q) * int (unat (sent (stats ?q) - s0)) \<le> clock_at p (clock_calls p))"
  proof (rule turn_send_law [OF _ _ _ _ _ send(3)])
    show "paced start s0 ?q" using paced_pace [OF q(1)] assms(1) by simp
    show "0 \<le> hping_send_interval_us (cfg ?q)" using qf(8) assms(2) by simp
    show "clock_at ?q (clock_calls p) = clock_at p (clock_calls p)" using qf(5) cq by simp
    show "clock_calls p < clock_calls ?q" by simp
  qed (rule order_refl)
  have w: "pace t' = pace u \<and> clock_calls u \<le> clock_calls t'" using send(4) turn_wait_law [of now u go_on t'] by auto
  have e: "env t' = env t" "loop_cfg (cfg t') = loop_cfg (cfg t)" "clock_at t' = clock_at t" "sent (stats t') = sent (stats u)"
    "paced start s0 t'" "clock_calls p < clock_calls t'"
    using u w pace_fields [of t' u] qf(1,2,5) paced_pace [of t' u] by simp_all
  have "sticky t t'" using send(1,2) pending_keeps(4) [of t] by (auto simp: sticky_def split: if_splits)
  moreover have "sent_on_time start s0 t t'"
    unfolding sent_on_time_def e(4) using u qf(6,8,10) cq q(2) e(6) by auto
  ultimately show ?thesis using e q(2) by auto
qed

end

interpretation main: event_loop send_packet wait_packet
  by unfold_locales (rule send_packet_keeps, rule wait_packet_keeps)

text \<open>Runs of the loop.\<close>

lemma on_signal_keeps: "pace (on_signal n t) = pace t" "clock_calls (on_signal n t) = clock_calls t" "ctx (on_signal n t) = ctx t"
  by (simp_all add: on_signal_def)

lemma loop_start_keeps:
  "clock_at (loop_start t0) = clock_at t0" "hping_send_interval_us (cfg (loop_start t0)) = hping_send_interval_us (cfg t0)"
  "cfg_count (cfg (loop_start t0)) = cfg_count (cfg t0)" "sent (stats (loop_start t0)) = sent (stats t0)"
  "next_send_us (ctx (loop_start t0)) = clock_at t0 (clock_calls t0)" "clock_calls t0 \<le> clock_calls (loop_start t0)"
  by (auto simp: loop_start_def clock_at_reading clock_at_def fun_eq_iff split: source.split)

text \<open>The invariant of all states that the loop reaches from \<open>t0\<close>.\<close>

definition loop_inv :: "tool \<Rightarrow> tool \<Rightarrow> bool" where
  "loop_inv t0 t \<longleftrightarrow> clock_at t = clock_at t0 \<and> clock_calls t0 \<le> clock_calls t
     \<and> hping_send_interval_us (cfg t) = hping_send_interval_us (cfg t0) \<and> cfg_count (cfg t) = cfg_count (cfg t0)
     \<and> paced (clock_at t0 (clock_calls t0)) (sent (stats t0)) t
     \<and> (cfg_count (cfg t0) \<noteq> -1 \<and> sent (stats t0) \<le> word_of_int (cfg_count (cfg t0)) \<longrightarrow> sent (stats t) \<le> word_of_int (cfg_count (cfg t0)))"

lemma main_turn_inv:
  assumes "loop_inv t0 t" "0 \<le> hping_send_interval_us (cfg t0)" "main_turn t = Some (go_on, t')"
  shows "loop_inv t0 t' \<and> sent_on_time (clock_at t0 (clock_calls t0)) (sent (stats t0)) t t' \<and> sticky t t'"
proof -
  have "paced (clock_at t0 (clock_calls t0)) (sent (stats t0)) t" "0 \<le> hping_send_interval_us (cfg t)"
    using assms(1,2) by (simp_all add: loop_inv_def)
  note law = main.loop_turn_law [OF this assms(3) [unfolded main_turn_def]]
  have c: "hping_send_interval_us (cfg t') = hping_send_interval_us (cfg t)" "cfg_count (cfg t') = cfg_count (cfg t)"
    using law loop_cfg_fields [of "cfg t'" "cfg t"] by simp_all
  have "sent (stats t') \<le> word_of_int (cfg_count (cfg t0))"
    if "cfg_count (cfg t0) \<noteq> -1" "sent (stats t) \<le> word_of_int (cfg_count (cfg t0))"
  proof (cases "sent (stats t') = sent (stats t)")
    case False
    then have "sent (stats t') = sent (stats t) + 1" "\<not> all_probes_sent t" using law by (auto simp: sent_on_time_def)
    then show ?thesis using that(1) assms(1) by (auto simp: all_probes_sent_def loop_inv_def not_le intro: inc_le)
  qed (use that in simp)
  then show ?thesis using law c assms(1) by (auto simp: loop_inv_def)
qed

lemma reaches_inv:
  assumes "reaches t0 s" "0 \<le> hping_send_interval_us (cfg t0)"
  shows "loop_inv t0 (tool_of s)"
  using assms(1)
proof induction
  case start
  have "clock_at t0 (clock_calls t0) + hping_send_interval_us (cfg t0) * int (unat (sent (stats t0) - sent (stats t0)))
      \<le> next_send_us (ctx (loop_start t0))"
    by (simp add: loop_start_keeps)
  then show ?case by (auto simp: loop_inv_def paced_def loop_start_keeps)
next
  case (step s s')
  from step(2) show ?case
  proof cases
    case (signal t n)
    then show ?thesis
      using step.IH pace_fields [OF on_signal_keeps(1), of n t] paced_pace [OF on_signal_keeps(1)] on_signal_keeps(2) [of n t]
      by (simp add: loop_inv_def)
  qed (use step.IH main_turn_inv [OF _ assms(2)] in auto)
qed

section \<open>The end of the loop\<close>

text \<open>All that the late-reply phase depends on.\<close>

definition view :: "tool \<Rightarrow> _" where
  "view t = (fixed_cfg (cfg t), fixed_ctx (ctx t), env t, length (old_rr t), sent (stats t))"

text \<open>All probes are sent, replies are awaited until \<open>d\<close>, and \<open>wait_packet\<close> copes with all frames.\<close>

definition settled :: "int \<Rightarrow> tool \<Rightarrow> bool" where
  "settled d t \<longleftrightarrow> all_probes_sent t \<and> end_deadline_us (ctx t) = d \<and> d \<noteq> -1
     \<and> \<not> opt_tcp_timestamp (cfg t) \<and> length (old_rr t) = 40 \<and> (opt_sign (cfg t) \<longrightarrow> data_file (env t) \<noteq> None)
     \<and> (\<forall>n bs. frames (env t) n = Frame bs \<longrightarrow>
          known_error (drop (unat (linkhdr_size (ctx t))) (take (65535 + unat (linkhdr_size (ctx t))) bs)) (cfg t))"

lemma settled_view:
  assumes "view t' = view t"
  shows "settled d t' = settled d t" "clock_at t' = clock_at t"
proof -
  have c: "fixed_cfg (cfg t') = fixed_cfg (cfg t)" "fixed_ctx (ctx t') = fixed_ctx (ctx t)" "env t' = env t"
    "length (old_rr t') = length (old_rr t)" "sent (stats t') = sent (stats t)" using assms by (simp_all add: view_def)
  have k: "known_error p (cfg t') = known_error p (cfg t)" for p by (simp only: known_error_def code_ok_cfg [OF c(1)])
  show "settled d t' = settled d t"
    unfolding settled_def all_probes_sent_def k fixed_cfgD [OF c(1)] fixed_ctxD [OF c(2)] c(3-5) ..
  show "clock_at t' = clock_at t" unfolding clock_at_def fixed_ctxD [OF c(2)] c(3) ..
qed

lemma view_updates [simp]:
  "view (t\<lparr>clock_calls := n\<rparr>) = view t" "view (t\<lparr>waits_done := n\<rparr>) = view t" "view (hping_stop r t) = view t"
  by (simp_all add: view_def hping_stop_def upd_ctx_def fixed_ctx_def)

lemma view_pending: "view (handle_pending_signals t) = view t"
proof -
  have "view (inc_destparm u) = view u" for u
    by (simp add: inc_destparm_def clock_at_reading Let_def view_def fixed_cfg_def upd_cfg_def)
  moreover have "view (u\<lparr>sig_tstp := b\<rparr>) = view u" for u b by (simp add: view_def)
  ultimately show ?thesis by (simp add: handle_pending_signals_def Let_def)
qed

lemma wait_packet_settled:
  assumes "settled d t"
  obtains t' where "wait_packet t = Some t'" "view t' = view t" "clock_calls t \<le> clock_calls t'"
proof -
  have "yields (wait_packet t) (once t)"
    using assms by (intro wait_packet_ok) (auto simp: settled_def recv_ready_def ts_ready_def)
  then obtain t' where "wait_packet t = Some t'" "once t t'" by (auto elim: yieldsE)
  then show thesis by (intro that [of t']) (auto simp: once_def recv_step_def view_def)
qed

lemma stop_reason: "reason (ctx (hping_stop r t)) = (if reason (ctx t) = HPING_STOP_NONE then r else reason (ctx t))"
  by (simp add: hping_stop_def)

lemma settled_turn:
  assumes "settled d t"
  obtains (ends) t' where "main_turn t = Some (False, t')" "reason (ctx t') \<noteq> HPING_STOP_NONE"
  | (goes_on) t' n where "main_turn t = Some (True, t')" "settled d t'" "clock_at t' = clock_at t" "clock_calls t \<le> n" "n < clock_calls t'"
      "clock_at t n < d"
proof -
  let ?p = "handle_pending_signals t"
  let ?n = "clock_calls ?p"
  let ?u = "?p\<lparr>clock_calls := ?n + 1\<rparr>"
  have sp: "settled d ?p" "settled d ?u" "clock_at ?p = clock_at t"
    using settled_view(1) [OF view_pending [of t], of d] settled_view(2) [OF view_pending [of t]] settled_view(1) [of ?u ?p d] assms
    by simp_all
  have n: "clock_calls t \<le> ?n" by (rule pending_keeps(2))
  have turn: "main_turn t = (if reason (ctx ?p) \<noteq> HPING_STOP_NONE then Some (False, ?p)
      else if clock_at t ?n \<ge> d then Some (False, hping_stop HPING_STOP_SENT ?u)
      else turn_wait wait_packet (clock_at t ?n) ?u)"
    using sp by (simp add: main_turn_def loop_turn_def Let_def clock_at_reading turn_send_def settled_def)
  show thesis
  proof (cases "reason (ctx ?p) \<noteq> HPING_STOP_NONE \<or> clock_at t ?n \<ge> d")
    case True
    then show thesis using ends turn by (cases "reason (ctx ?p) \<noteq> HPING_STOP_NONE") (simp_all add: stop_reason)
  next
    case False
    then have t': "main_turn t = turn_wait wait_packet (clock_at t ?n) ?u" using turn by simp
    have step: "settled d v \<and> clock_at v = clock_at t" if "view v = view ?u" for v
      using settled_view [OF that] sp(2,3) settled_view(2) [of ?u ?p] by simp
    show thesis
    proof (cases "opt_dry_run (cfg ?u)")
      case True
      then have "main_turn t = Some (True, handle_pending_signals ?u)" using t' by (simp add: turn_wait_def)
      moreover have "?n < clock_calls (handle_pending_signals ?u)" using pending_keeps(2) [of ?u] by simp
      ultimately show thesis using goes_on step [OF view_pending] n False by auto
    next
      case dry: False
      let ?v = "?u\<lparr>waits_done := waits_done ?u + 1\<rparr>"
      let ?r = "waits (env ?u) (waits_done ?u) (loop_timeout (clock_at t ?n) ?u)"
      have wt: "main_turn t = (if ?r < 0 then Some (False, hping_stop HPING_STOP_ERROR ?v)
          else if ?r > 0 then map_option (Pair True) (wait_packet ?v) else Some (True, ?v))"
        using t' dry by (simp add: turn_wait_def io_wait_def)
      have sv: "settled d ?v" "clock_at ?v = clock_at t" using step [of ?v] by simp_all
      consider "?r < 0" | "?r > 0" | "?r = 0" by linarith
      then show thesis
      proof cases
        case 1
        then show thesis using wt by (intro ends [of "hping_stop HPING_STOP_ERROR ?v"]) (simp_all add: stop_reason)
      next
        case 2
        obtain w where w: "wait_packet ?v = Some w" "view w = view ?v" "clock_calls ?v \<le> clock_calls w" by (rule wait_packet_settled [OF sv(1)])
        then have "main_turn t = Some (True, w)" using wt 2 by simp
        then show thesis using goes_on [of w ?n] w step [of w] n False by auto
      next
        case 3
        then show thesis using goes_on [of ?v ?n] wt sv n False by simp
      qed
    qed
  qed
qed

lemma loop_run_ends:
  assumes "settled d t" "\<forall>n \<ge> N. d \<le> clock_at t n"
  shows "\<exists>t'. loop_run t = Some t' \<and> reason (ctx t') \<noteq> HPING_STOP_NONE"
  using assms
proof (induction "N - clock_calls t" arbitrary: t rule: less_induct)
  case less
  from less.prems(1) show ?case
  proof (cases rule: settled_turn)
    case (ends t')
    then show ?thesis by (subst loop_run.simps) simp
  next
    case (goes_on t' n)
    have "n < N" using goes_on(6) less.prems(2) by (meson leD le_less_linear)
    then have "N - clock_calls t' < N - clock_calls t" using goes_on(4,5) by linarith
    then have "\<exists>t''. loop_run t' = Some t'' \<and> reason (ctx t'') \<noteq> HPING_STOP_NONE"
      using less.hyps [of t'] goes_on(2,3) less.prems(2) by simp
    then show ?thesis using goes_on(1) by (subst loop_run.simps) simp
  qed
qed

section \<open>Listening with --safe\<close>

text \<open>The listener after the first \<open>m\<close> messages, where \<open>msg k\<close> is the data of the packet with id \<open>k\<close>.\<close>

definition delivered :: "tool \<Rightarrow> (nat \<Rightarrow> bytes) \<Rightarrow> nat \<Rightarrow> tool \<Rightarrow> bool" where
  "delivered t0 msg m t \<longleftrightarrow> env t = env t0 \<and> opt_safe (cfg t) \<and> cfg_sign (cfg t) = cfg_sign (cfg t0)
     \<and> linkhdr_size (ctx t) = linkhdr_size (ctx t0)
     \<and> exp_id t = word_of_nat (m + 1) \<and> printed t = printed t0 @ map msg [1..<m + 1]"

lemma delivered_kept:
  assumes "kept t' = kept t"
  shows "delivered t0 msg m t' = delivered t0 msg m t"
  using assms by (auto simp: delivered_def kept_def loop_cfg_def)

lemma send_hcmp_kept: "send_hcmp type arg t = Some (r, t') \<Longrightarrow> kept t' = kept t"
proof -
  assume "send_hcmp type arg t = Some (r, t')"
  then obtain h where "send_packet (upd_ctx (\<lambda>c. c\<lparr>hcmphdr_p := h\<rparr>) (upd_cfg (\<lambda>c. c\<lparr>data_size := ucast (signlen c + 8)\<rparr>) t)) = Some (r, t')"
    by (auto simp: send_hcmp_def bind_eq_Some_conv)
  from alwaysD [OF send_packet_keeps this] show ?thesis by (simp add: sent_one_def kept_def loop_cfg_def upd_cfg_def upd_ctx_def)
qed

lemma listen_data_delivers:
  assumes "delivered t0 msg m t" "1 \<le> k" "k \<le> n" "n < 65535" "m \<le> n"
    "\<forall>i s. stdout_write (env t0) i s = int s" "listen_data (word_of_nat k) (msg k) t = Some t'"
  shows "\<exists>m' \<le> n. delivered t0 msg m' t'"
proof (cases "word_of_nat k = exp_id t")
  case True
  have e: "exp_id t = word_of_nat (m + 1)" using assms(1) by (simp add: delivered_def)
  have "unat (word_of_nat j :: u16) = j" if "j < 65536" for j using that by (simp add: unat_of_nat take_bit_eq_mod)
  from this [of k] this [of "m + 1"] have "unat (word_of_nat k :: u16) = k" "unat (word_of_nat (m + 1) :: u16) = m + 1"
    using assms(3-5) by simp_all
  then have k: "k = m + 1" using True unfolding e by metis
  have t': "t' = write_data (msg k) (t\<lparr>exp_id := exp_id t + 1\<rparr>)"
    using assms(1,7) True by (simp add: listen_data_def delivered_def)
  have "exp_id t + 1 = word_of_nat (k + 1)" unfolding e k by (simp add: add.commute)
  moreover have "printed t0 @ map msg [1..<m + 1] @ [msg k] = printed t0 @ map msg [1..<k + 1]" unfolding k by simp
  ultimately have "delivered t0 msg k t'"
    using assms(1,6) by (simp add: t' delivered_def write_data_def Let_def del: of_nat_Suc of_nat_add)
  then show ?thesis using assms(3) by blast
next
  case False
  then obtain r where "send_hcmp HCMP_RESTART (ucast (exp_id t)) t = Some (r, t')"
    using assms(1,7) by (auto simp: listen_data_def delivered_def)
  from delivered_kept [OF send_hcmp_kept [OF this]] show ?thesis using assms(1,5) by blast
qed

text \<open>\<open>k\<close> turns of the listener.\<close>

fun listen_turns :: "nat \<Rightarrow> tool \<Rightarrow> (bool \<times> tool) option" where
  "listen_turns 0 t = Some (True, t)"
| "listen_turns (Suc k) t = do { (go_on, t) \<leftarrow> listen_turn t; if go_on then listen_turns k t else Some (False, t) }"

text \<open>Every frame that carries the signature is one of the messages.\<close>

definition only_messages :: "tool \<Rightarrow> (nat \<Rightarrow> bytes) \<Rightarrow> nat \<Rightarrow> bool" where
  "only_messages t msg n \<longleftrightarrow> (\<forall>i bs ident data. frames (env t) i = Frame bs \<longrightarrow>
     signed_data (unat (linkhdr_size (ctx t))) (cfg_sign (cfg t)) (take (65535 + unat (linkhdr_size (ctx t))) bs) = Some (Some (ident, data)) \<longrightarrow>
     (\<exists>k. 1 \<le> k \<and> k \<le> n \<and> ident = word_of_nat k \<and> data = msg k))"

lemma delivered_updates [simp]:
  "delivered t0 msg m (t\<lparr>waits_done := w\<rparr>) = delivered t0 msg m t" "delivered t0 msg m (t\<lparr>reads := r\<rparr>) = delivered t0 msg m t"
  "delivered t0 msg m (hping_stop x t) = delivered t0 msg m t"
  by (simp_all add: delivered_def hping_stop_def upd_ctx_def)

lemma listen_turn_delivers:
  assumes "delivered t0 msg m t" "m \<le> n" "n < 65535" "only_messages t0 msg n" "\<forall>i s. stdout_write (env t0) i s = int s"
    "listen_turn t = Some (go_on, t')"
  shows "\<exists>m' \<le> n. delivered t0 msg m' t'"
proof -
  let ?lhs = "unat (linkhdr_size (ctx t))"
  let ?v = "t\<lparr>waits_done := waits_done t + 1\<rparr>"
  let ?r = "?v\<lparr>reads := reads t + 1\<rparr>"
  have stays: "\<exists>m' \<le> n. delivered t0 msg m' u" if "u = t \<or> u = ?v \<or> u = ?r \<or> (\<exists>x. u = hping_stop x ?v \<or> u = hping_stop x ?r)" for u
    using that assms(1,2) by auto
  have turn: "listen_turn t = (if hping_stop_requested t then Some (False, t)
      else if waits (env t) (waits_done t) (-1) < 0 then Some (False, hping_stop HPING_STOP_ERROR ?v)
      else if waits (env t) (waits_done t) (-1) = 0 then Some (True, ?v)
      else case frames (env t) (reads t) of
         End_of_input \<Rightarrow> Some (True, hping_stop HPING_STOP_EOF ?r)
       | No_frame \<Rightarrow> Some (True, ?r)
       | Frame bs \<Rightarrow> if take (65535 + ?lhs) bs = [] then Some (True, ?r)
           else do { d \<leftarrow> signed_data ?lhs (cfg_sign (cfg t)) (take (65535 + ?lhs) bs);
             (case d of None \<Rightarrow> Some (True, ?r) | Some (ident, bs) \<Rightarrow> map_option (Pair True) (listen_data ident bs ?r)) })"
    by (simp add: listen_turn_def io_wait_def read_packet_def Let_def split: frame.split)
  consider (quiet) "t' = t \<or> t' = ?v \<or> t' = ?r \<or> (\<exists>x. t' = hping_stop x ?v \<or> t' = hping_stop x ?r)"
    | (data) bs ident data where "frames (env t) (reads t) = Frame bs"
        "signed_data ?lhs (cfg_sign (cfg t)) (take (65535 + ?lhs) bs) = Some (Some (ident, data))" "listen_data ident data ?r = Some t'"
  proof (cases "hping_stop_requested t \<or> waits (env t) (waits_done t) (-1) \<le> 0")
    case True
    have "t' = t \<or> (\<exists>x. t' = hping_stop x ?v) \<or> t' = ?v"
    proof (cases "hping_stop_requested t")
      case False
      then have "waits (env t) (waits_done t) (-1) < 0 \<or> waits (env t) (waits_done t) (-1) = 0" using True by auto
      then show ?thesis using assms(6) False unfolding turn by (elim disjE) (simp_all only: if_True if_False option.inject prod.inject, auto)
    qed (use assms(6) turn in simp)
    then show thesis by (intro quiet) blast
  next
    case False
    then have go: "\<not> hping_stop_requested t" "\<not> waits (env t) (waits_done t) (-1) < 0" "waits (env t) (waits_done t) (-1) \<noteq> 0" by auto
    have t: "listen_turn t = (case frames (env t) (reads t) of
         End_of_input \<Rightarrow> Some (True, hping_stop HPING_STOP_EOF ?r)
       | No_frame \<Rightarrow> Some (True, ?r)
       | Frame bs \<Rightarrow> if take (65535 + ?lhs) bs = [] then Some (True, ?r)
           else do { d \<leftarrow> signed_data ?lhs (cfg_sign (cfg t)) (take (65535 + ?lhs) bs);
             (case d of None \<Rightarrow> Some (True, ?r) | Some (ident, bs) \<Rightarrow> map_option (Pair True) (listen_data ident bs ?r)) })"
      unfolding turn using go by (simp only: if_False)
    show thesis
    proof (cases "frames (env t) (reads t)")
      case (Frame bs)
      show thesis
      proof (cases "take (65535 + ?lhs) bs = []")
        case True
        then show thesis using assms(6) t Frame by (intro quiet) simp
      next
        case nonempty: False
        then obtain d where d: "signed_data ?lhs (cfg_sign (cfg t)) (take (65535 + ?lhs) bs) = Some d"
          "(case d of None \<Rightarrow> Some (True, ?r) | Some (ident, bs) \<Rightarrow> map_option (Pair True) (listen_data ident bs ?r)) = Some (go_on, t')"
          using assms(6) t Frame by (simp only: frame.case if_False bind_eq_Some_conv) blast
        show thesis
        proof (cases d)
          case None
          then show thesis using d(2) by (intro quiet) simp
        next
          case (Some p)
          then show thesis using d data [OF Frame, of "fst p" "snd p"] by (auto simp: case_prod_unfold)
        qed
      qed
    qed (use assms(6) t quiet in auto)
  qed
  then show ?thesis
  proof cases
    case quiet
    then show ?thesis by (rule stays)
  next
    case data
    have "env t = env t0" "linkhdr_size (ctx t) = linkhdr_size (ctx t0)" "cfg_sign (cfg t) = cfg_sign (cfg t0)"
      using assms(1) by (simp_all add: delivered_def)
    then obtain k where k: "1 \<le> k" "k \<le> n" "ident = word_of_nat k" "data = msg k"
      using assms(4) data(1,2) unfolding only_messages_def by metis
    show ?thesis
      using data(3) assms(1) unfolding k(3,4) by (intro listen_data_delivers [OF _ k(1,2) assms(3,2,5)]) simp_all
  qed
qed

lemma listen_turns_deliver:
  "delivered t0 msg m t \<Longrightarrow> m \<le> n \<Longrightarrow> n < 65535 \<Longrightarrow> only_messages t0 msg n \<Longrightarrow> \<forall>i s. stdout_write (env t0) i s = int s \<Longrightarrow>
    listen_turns k t = Some (go_on, t') \<Longrightarrow> \<exists>m' \<le> n. delivered t0 msg m' t'"
proof (induction k arbitrary: m t)
  case (Suc k)
  from Suc.prems(6) obtain go u where u: "listen_turn t = Some (go, u)" "(if go then listen_turns k u else Some (False, u)) = Some (go_on, t')"
    by (auto simp: bind_eq_Some_conv)
  from listen_turn_delivers [OF Suc.prems(1-5) u(1)] obtain m' where "m' \<le> n" "delivered t0 msg m' u" by blast
  then show ?case using Suc.IH Suc.prems(3-5) u(2) by (cases go) auto
qed auto

section \<open>Properties\<close>

text \<open>C24. Probes are never sent faster than asked for: in every state that the event loop reaches, with
  signals arriving at any time, a turn sends at most one probe, and the probe after the first
  \<open>k\<close> ones is sent at a reading of the clock that is at least \<open>k\<close> intervals after the start.\<close>

theorem probes_are_paced:
  assumes "reaches t0 (Running t)" "main_turn t = Some (go_on, t')" "0 \<le> hping_send_interval_us (cfg t0)"
  shows "sent (stats t') = sent (stats t)
    \<or> sent (stats t') = sent (stats t) + 1
      \<and> (\<exists>n. clock_calls t \<le> n \<and> n < clock_calls t' \<and>
           clock_at t0 (clock_calls t0) + hping_send_interval_us (cfg t0) * int (unat (sent (stats t) - sent (stats t0))) \<le> clock_at t0 n)"
proof -
  have inv: "loop_inv t0 t" using reaches_inv [OF assms(1,3)] by simp
  then have e: "clock_at t = clock_at t0" "hping_send_interval_us (cfg t) = hping_send_interval_us (cfg t0)" by (simp_all add: loop_inv_def)
  show ?thesis using main_turn_inv [OF inv assms(3,2)] unfolding sent_on_time_def e by blast
qed

text \<open>A dry run of raw IP probes without data.\<close>

definition demo_start :: tool where
  "demo_start = tool_init demo_env
     \<lparr>cfg := hping_config_init\<lparr>cfg_count := 2, sending_wait := 1, opt_rawipmode := True, opt_dry_run := True, src_id := 7\<rparr>,
      ctx := hping_context_init\<lparr>h_if_mtu := 1500\<rparr>\<rparr>"

lemma demo_probe_sent:
  assumes "cfg t = cfg demo_start" "env t = demo_env" "h_if_mtu (ctx t) = 1500"
  shows "\<exists>u. send_packet t = Some (0, u)"
proof -
  have c: "opt_rand_dest (cfg t) = False" "opt_rand_source (cfg t) = False" "opt_rawipmode (cfg t) = True" "data_size (cfg t) = 0"
    "opt_listenmode (cfg t) = False" "opt_sign (cfg t) = False" "opt_lsrr (cfg t) = False" "opt_ssrr (cfg t) = False"
    "opt_rroute (cfg t) = False" "opt_fragment (cfg t) = False" "opt_dry_run (cfg t) = True" "src_id (cfg t) = 7"
    "mem (env t) n = True" for n
    using assms by (simp_all add: demo_start_def hping_config_init_def demo_env_def)
  then show ?thesis
    by (simp add: send_packet_def send_rawip_def data_handler_def send_ip_handler_def ip_opt_build_def opt_build_lsrr_def opt_build_ssrr_def
        opt_build_rroute_def auto_fragment_def assms(3) send_ip_def ip_id_def ld_eq_Some Let_def)
qed

text \<open>The first turn sends the first probe.\<close>

lemma demo_turn: "\<exists>t'. main_turn (loop_start demo_start) = Some (True, t') \<and> sent (stats t') = 1"
proof -
  let ?t = "loop_start demo_start"
  let ?u = "?t\<lparr>clock_calls := clock_calls ?t + 1\<rparr>"
  have f: "cfg ?u = cfg demo_start" "env ?u = demo_env" "h_if_mtu (ctx ?u) = 1500" "sent (stats ?u) = 0" "cfg ?t = cfg demo_start"
    "reason (ctx ?t) = HPING_STOP_NONE" "end_deadline_us (ctx ?t) = -1" "next_send_us (ctx ?t) = 0" "clock_at ?t n = 1000 * int n"
    "sig_tstp ?t = False" "sig_stop ?t = 0" for n
    by (simp_all add: loop_start_def clock_at_reading clock_at_def demo_start_def tool_init_def demo_env_def hping_context_init_def
        hping_clock_system_def hping_stats_init_def upd_ctx_def)
  have c: "opt_dry_run (cfg demo_start)" "readfile (cfg demo_start) = None" "cfg_count (cfg demo_start) = 2"
    by (simp_all add: demo_start_def hping_config_init_def)
  obtain v where v: "send_packet ?u = Some (0, v)" using demo_probe_sent [OF f(1-3)] by blast
  have k: "kept v = kept ?u" "sent (stats v) = 1" using alwaysD [OF send_packet_keeps v] f(4) by (auto simp: sent_one_def)
  then have kc: "loop_cfg (cfg v) = loop_cfg (cfg demo_start)" using f(1) by (simp add: kept_def)
  note vc = loop_cfg_fields [OF kc]
  have "\<not> all_probes_sent ?u" "\<not> all_probes_sent v" using f(1,4) k(2) vc(1) c(3) by (simp_all add: all_probes_sent_def word_le_nat_alt)
  then obtain w where w: "send_due_probe send_packet (clock_at ?t (clock_calls ?t)) ?u = Some (True, w)" "sent (stats w) = 1"
    "cfg w = cfg v"
    using v k(2) by (simp add: send_due_probe_def Let_def)
  let ?x = "w\<lparr>clock_calls := clock_calls w + 1\<rparr>"
  have "handle_pending_signals ?t = ?t" using f(10,11) by (simp add: handle_pending_signals_def)
  then have "main_turn ?t = Some (True, handle_pending_signals ?x)"
    using f(5-8) f(9) [of "clock_calls ?t"] w(1,3) c(1,2) vc(4) \<open>\<not> all_probes_sent ?u\<close>
    by (simp add: main_turn_def loop_turn_def Let_def clock_at_reading turn_send_def turn_wait_def)
  moreover have "sent (stats (handle_pending_signals ?x)) = 1"
    using pace_fields(6) [OF pending_keeps(1), of ?x] w(2) by simp
  ultimately show ?thesis by blast
qed

theorem probes_are_paced_witness:
  "\<exists>t' n. main_turn (loop_start demo_start) = Some (True, t') \<and> sent (stats t') = 1 \<and> 0 \<le> clock_at demo_start n"
proof -
  obtain t' where t': "main_turn (loop_start demo_start) = Some (True, t')" "sent (stats t') = 1" using demo_turn by blast
  have "0 \<le> hping_send_interval_us (cfg demo_start)" by (simp add: demo_start_def hping_send_interval_us_def hping_config_init_def)
  moreover have "sent (stats (loop_start demo_start)) = 0" "sent (stats demo_start) = 0" "clock_at demo_start (clock_calls demo_start) = 0"
    by (simp_all add: loop_start_keeps demo_start_def tool_init_def hping_stats_init_def clock_at_def demo_env_def hping_context_init_def
        hping_clock_system_def)
  ultimately show ?thesis using probes_are_paced [OF reaches.start t'(1)] t' by fastforce
qed

text \<open>C25. With --count no state that the event loop reaches has sent more probes than that.\<close>

theorem count_respected:
  assumes "reaches t0 s" "0 \<le> hping_send_interval_us (cfg t0)" "sent (stats t0) = 0" "0 < cfg_count (cfg t0)" "cfg_count (cfg t0) < 2 ^ 31"
  shows "int (unat (sent (stats (tool_of s)))) \<le> cfg_count (cfg t0)"
proof -
  let ?c = "cfg_count (cfg t0)"
  have "sent (stats (tool_of s)) \<le> word_of_int ?c"
    using reaches_inv [OF assms(1,2)] assms(3,4) by (simp add: loop_inv_def)
  moreover have "unat (word_of_int ?c :: u64) = nat ?c"
    using assms(4,5) by (simp add: unat_eq_nat_uint uint_word_of_int)
  ultimately show ?thesis using assms(4) by (simp add: word_le_nat_alt nat_le_iff le_nat_iff)
qed

theorem count_respected_witness:
  "\<exists>t'. main_turn (loop_start demo_start) = Some (True, t') \<and> int (unat (sent (stats t'))) \<le> 2"
proof -
  obtain t' where t': "main_turn (loop_start demo_start) = Some (True, t')" using demo_turn by blast
  then have "reaches demo_start (Running t')" by (intro reaches.step [OF reaches.start loop_step.turn])
  moreover have "0 \<le> hping_send_interval_us (cfg demo_start)" "cfg_count (cfg demo_start) = 2" "sent (stats demo_start) = 0"
    by (simp_all add: demo_start_def hping_send_interval_us_def hping_config_init_def tool_init_def hping_stats_init_def)
  ultimately have "int (unat (sent (stats (tool_of (Running t'))))) \<le> cfg_count (cfg demo_start)" by (intro count_respected) simp_all
  then show ?thesis using t' \<open>cfg_count (cfg demo_start) = 2\<close> by simp
qed




definition demo_late :: tool where
  "demo_late = demo_receiver (Frame demo_synack)
     \<lparr>cfg := hping_config_init\<lparr>dst_port := 80, cfg_count := 1\<rparr>, stats := hping_stats_init\<lparr>sent := 1\<rparr>,
      ctx := hping_context_init\<lparr>linkhdr_size := 14, local_addr := le32 10 0 0 1, remote_addr := le32 10 0 0 2, end_deadline_us := 5000\<rparr>\<rparr>"



text \<open>Two turns at a capture that delivers nothing.\<close>

definition demo_listener :: tool where
  "demo_listener = tool_init (demo_env\<lparr>waits := (\<lambda>_ _. 1)\<rparr>)
     \<lparr>cfg := hping_config_init\<lparr>opt_safe := True, opt_listenmode := True, cfg_sign := ''x''\<rparr>\<rparr>"


end
