(* ===== verification/Bignum.thy ===== *)
theory Bignum
  imports Prelude
begin

text \<open>
  The big numbers of sbignum.c: their representation, allocation, normalisation and assignment.

  A number \<open>struct_sbnz\<close> is a record: \<open>atoms\<close> are the allocated 32 bit words (the field \<open>d\<close>; its
  length is the field \<open>a\<close>, and \<open>[]\<close> is the null pointer), \<open>used\<close> is \<open>l\<close>, \<open>neg\<close> is \<open>s\<close>.  The functions
  of sbignum.c take pointers that may be equal, so they are operations on a store \<open>bn\<close> that maps
  pointers to numbers.  \<open>Var n\<close> are the variables of a caller, the other pointers the local variables
  of the functions (none is recursive, so each local variable has one place).  \<open>grants\<close> says which
  of the allocations succeed, \<open>allocs\<close> counts them.  The result of an operation is its error code
  and the store; \<open>None\<close> is undefined behaviour: an access outside of the allocated words or through
  a pointer that \<open>realloc\<close> has made invalid.
\<close>

section \<open>Numbers and the store\<close>

datatype sbn_err = SBN_OK | SBN_MEM | SBN_INVAL

record mpz =
  atoms :: "u32 list"
  used :: nat
  neg :: bool

datatype ptr = Var nat | Imm | Muli_rt | Div_z | Div_d | Div_r | Mod_m | Powm_m | Pow_B | Pow_E
  | Sqrt_s | Sqrt_R | Sqrt_X | Sqrt_z | Gcd_a | Gcd_B | Gcd_t | Str_pow | Str_toadd | Str_t

record bn =
  cells :: "ptr \<Rightarrow> mpz"
  grants :: "nat \<Rightarrow> bool"
  allocs :: nat

definition poke :: "ptr \<Rightarrow> mpz \<Rightarrow> bn \<Rightarrow> bn" where
  "poke z v h = h\<lparr>cells := (cells h)(z := v)\<rparr>"

definition upd :: "ptr \<Rightarrow> (mpz \<Rightarrow> mpz) \<Rightarrow> bn \<Rightarrow> bn" where
  "upd z f h = poke z (f (cells h z)) h"

type_synonym outcome = "(sbn_err \<times> bn) option"

text \<open>\<open>if ((err = m) != SBN_OK) return err;\<close> and then \<open>f\<close>.\<close>

definition ok_then :: "outcome \<Rightarrow> (bn \<Rightarrow> outcome) \<Rightarrow> outcome" where
  "ok_then m f = Option.bind m (\<lambda>(e, h). if e = SBN_OK then f h else Some (e, h))"

text \<open>One allocation.\<close>

definition allocate :: "bn \<Rightarrow> outcome" where
  "allocate h = Some (if grants h (allocs h) then SBN_OK else SBN_MEM, h\<lparr>allocs := allocs h + 1\<rparr>)"

definition overwrite :: "u32 list \<Rightarrow> u32 list \<Rightarrow> u32 list option" where
  "overwrite xs bs = (if length bs \<le> length xs then Some (bs @ drop (length bs) xs) else None)"

section \<open>Initialisation and allocation\<close>

definition zero_mpz :: mpz where
  "zero_mpz = \<lparr>atoms = [], used = 0, neg = False\<rparr>"

definition mpz_init :: "ptr \<Rightarrow> bn \<Rightarrow> bn" where
  "mpz_init z = poke z zero_mpz"

text \<open>\<open>mpz_realloc\<close> makes the word \<open>i\<close> accessible; new words are 0, and on failure the number is kept.
  (For \<open>i = 2 ^ 32 - 1\<close> the size wraps around to 0.)\<close>

definition mpz_realloc :: "ptr \<Rightarrow> nat \<Rightarrow> bn \<Rightarrow> outcome" where
  "mpz_realloc z i h =
     (if i < length (atoms (cells h z)) then Some (SBN_OK, h)
      else if i + 1 \<ge> 2 ^ 32 then None
      else ok_then (allocate h) (\<lambda>h.
        Some (SBN_OK, upd z (\<lambda>m. m\<lparr>atoms := atoms m @ replicate (i + 1 - length (atoms m)) 0\<rparr>) h)))"

text \<open>Index of the topmost word that is not 0, plus 1.\<close>

definition top_used :: "u32 list \<Rightarrow> nat" where
  "top_used xs = length (dropWhile (\<lambda>a. a = 0) (rev xs))"

definition mpz_normalize :: "mpz \<Rightarrow> mpz" where
  "mpz_normalize z =
     (if atoms z = [] then z
      else let l = top_used (atoms z) in z\<lparr>used := l, neg := (if l = 0 then False else neg z)\<rparr>)"

text \<open>The macro \<open>_mpz_normalize\<close>, which keeps the sign.\<close>

definition mpz_normalize_macro :: "mpz \<Rightarrow> mpz" where
  "mpz_normalize_macro z = z\<lparr>used := top_used (atoms z)\<rparr>"

definition mpz_normalize_sign :: "mpz \<Rightarrow> mpz" where
  "mpz_normalize_sign z = (if used z = 0 then z\<lparr>neg := False\<rparr> else z)"

definition mpz_zero :: "mpz \<Rightarrow> mpz option" where
  "mpz_zero z =
     (if used z = 0 then Some z
      else map_option (\<lambda>xs. z\<lparr>atoms := xs, used := 0\<rparr>) (overwrite (atoms z) (replicate (used z) 0)))"

definition mpz_zero_realloc :: "ptr \<Rightarrow> nat \<Rightarrow> bn \<Rightarrow> outcome" where
  "mpz_zero_realloc z i h =
     ok_then (mpz_realloc z i h) (\<lambda>h. map_option (\<lambda>m. (SBN_OK, poke z m h)) (mpz_zero (cells h z)))"

text \<open>The stack copies of \<open>_mpz_clone_stack\<close> (all words) and \<open>_mpz_rawclone_stack\<close>.\<close>

definition mpz_clone_stack :: "ptr \<Rightarrow> ptr \<Rightarrow> bn \<Rightarrow> bn" where
  "mpz_clone_stack t z h = poke t (cells h z) h"

definition mpz_rawclone_stack :: "ptr \<Rightarrow> u32 list \<Rightarrow> bn \<Rightarrow> bn" where
  "mpz_rawclone_stack t xs = poke t \<lparr>atoms = xs, used = length xs, neg = False\<rparr>"

section \<open>Assignment\<close>

text \<open>The local number of \<open>u32tompz\<close> and \<open>u32pack\<close>.\<close>

definition u32pack :: "u32 \<Rightarrow> mpz" where
  "u32pack u = (if u = 0 then zero_mpz else \<lparr>atoms = [u], used = 1, neg = False\<rparr>)"

definition s32pack :: "32 word \<Rightarrow> mpz" where
  "s32pack v = (u32pack (if sint v > 0 then v else - v))\<lparr>neg := sint v < 0\<rparr>"

text \<open>\<open>mpz_set\<close> with the source read by \<open>rd\<close>: when source and destination are the same number it has
  been cleared before it is copied.\<close>

definition mpz_set_from :: "ptr \<Rightarrow> (bn \<Rightarrow> mpz) \<Rightarrow> bn \<Rightarrow> outcome" where
  "mpz_set_from d rd h =
     ok_then (mpz_zero_realloc d (used (rd h)) h) (\<lambda>h. let s = rd h in
       Option.bind (overwrite (atoms (cells h d)) (take (used s) (atoms s)))
         (\<lambda>xs. Some (SBN_OK, upd d (\<lambda>m. m\<lparr>atoms := xs, used := used s, neg := neg s\<rparr>) h)))"

definition mpz_set :: "ptr \<Rightarrow> ptr \<Rightarrow> bn \<Rightarrow> outcome" where
  "mpz_set d s = mpz_set_from d (\<lambda>h. cells h s)"

definition mpz_setzero :: "ptr \<Rightarrow> bn \<Rightarrow> outcome" where
  "mpz_setzero z h = mpz_zero_realloc z 0 (upd z (\<lambda>m. m\<lparr>neg := False\<rparr>) h)"

definition mpz_set_ui :: "ptr \<Rightarrow> u32 \<Rightarrow> bn \<Rightarrow> outcome" where
  "mpz_set_ui z u = mpz_set_from z (\<lambda>_. u32pack u)"

definition mpz_neg_macro :: "ptr \<Rightarrow> bn \<Rightarrow> bn" where
  "mpz_neg_macro z = upd z (\<lambda>m. m\<lparr>neg := \<not> neg m\<rparr>)"

definition mpz_abs_macro :: "ptr \<Rightarrow> bn \<Rightarrow> bn" where
  "mpz_abs_macro z = upd z (\<lambda>m. m\<lparr>neg := False\<rparr>)"

definition mpz_set_si :: "ptr \<Rightarrow> 32 word \<Rightarrow> bn \<Rightarrow> outcome" where
  "mpz_set_si z v h =
     ok_then (mpz_set_from z (\<lambda>_. u32pack (if sint v < 0 then - v else v)) h) (\<lambda>h.
       Some (SBN_OK, if sint v < 0 then mpz_neg_macro z h else h))"

text \<open>\<open>mpz_set_ui64\<close> does not clear the words of the old value.\<close>

definition ui64_atoms :: "u64 \<Rightarrow> u32 list" where
  "ui64_atoms u =
     (if u = 0 then [] else if drop_bit 32 u = 0 then [ucast u] else [ucast u, ucast (drop_bit 32 u)])"

definition mpz_set_ui64 :: "ptr \<Rightarrow> u64 \<Rightarrow> bn \<Rightarrow> outcome" where
  "mpz_set_ui64 z u h =
     ok_then (mpz_realloc z 8 (upd z (\<lambda>m. m\<lparr>neg := False\<rparr>) h)) (\<lambda>h.
       Option.bind (overwrite (atoms (cells h z)) (ui64_atoms u))
         (\<lambda>xs. Some (SBN_OK, upd z (\<lambda>m. m\<lparr>atoms := xs, used := length (ui64_atoms u)\<rparr>) h)))"

definition mpz_set_si64 :: "ptr \<Rightarrow> 64 word \<Rightarrow> bn \<Rightarrow> outcome" where
  "mpz_set_si64 z v h =
     ok_then (mpz_set_ui64 z (if sint v > 0 then v else - v) h) (\<lambda>h.
       Some (SBN_OK, upd z (\<lambda>m. m\<lparr>neg := sint v < 0\<rparr>) h))"

definition mpz_abs :: "ptr \<Rightarrow> ptr \<Rightarrow> bn \<Rightarrow> outcome" where
  "mpz_abs d s h =
     ok_then (if d \<noteq> s then mpz_set d s h else Some (SBN_OK, h)) (\<lambda>h. Some (SBN_OK, mpz_abs_macro d h))"

definition mpz_neg :: "ptr \<Rightarrow> ptr \<Rightarrow> bn \<Rightarrow> outcome" where
  "mpz_neg d s h =
     ok_then (if d \<noteq> s then mpz_set d s h else Some (SBN_OK, h)) (\<lambda>h. Some (SBN_OK, mpz_neg_macro d h))"

section \<open>Values\<close>

text \<open>The value of a list of words, the least significant first.\<close>

primrec nval :: "u32 list \<Rightarrow> nat" where
  "nval [] = 0"
| "nval (a # as) = unat a + 4294967296 * nval as"

definition digits :: "mpz \<Rightarrow> u32 list" where
  "digits z = take (used z) (atoms z)"

definition mag :: "mpz \<Rightarrow> nat" where
  "mag z = nval (digits z)"

definition ival :: "mpz \<Rightarrow> int" where
  "ival z = (if neg z then - int (mag z) else int (mag z))"

text \<open>The topmost word is not 0, and the allocated words above it are 0.\<close>

definition normal :: "u32 list \<Rightarrow> bool" where
  "normal xs \<longleftrightarrow> (xs = [] \<or> last xs \<noteq> 0)"

definition wf_mpz :: "mpz \<Rightarrow> bool" where
  "wf_mpz z \<longleftrightarrow> used z \<le> length (atoms z) \<and> set (drop (used z) (atoms z)) \<subseteq> {0} \<and> normal (digits z)"

lemma nval_append: "nval (xs @ ys) = nval xs + 4294967296 ^ length xs * nval ys"
  by (induction xs) (simp_all add: algebra_simps)

lemma nval_less: "nval xs < 4294967296 ^ length xs"
proof (induction xs)
  case (Cons a xs)
  have "unat a + 4294967296 * nval xs < 4294967296 + 4294967296 * nval xs" by simp
  also have "\<dots> \<le> 4294967296 * 4294967296 ^ length xs" using Cons by simp
  finally show ?case by simp
qed simp

lemma nval_zeros: "set xs \<subseteq> {0} \<Longrightarrow> nval xs = 0"
  by (induction xs) auto

lemma nval_replicate [simp]: "nval (replicate n 0) = 0"
  by (rule nval_zeros) auto

lemma nval_eq_0_iff: "nval xs = 0 \<longleftrightarrow> set xs \<subseteq> {0}"
proof (induction xs)
  case (Cons a xs)
  then show ?case by (auto simp: unsigned_eq_0_iff)
qed simp

lemma nval_normal_ge:
  assumes "normal xs" "xs \<noteq> []" shows "4294967296 ^ (length xs - 1) \<le> nval xs"
proof -
  have xs: "xs = butlast xs @ [last xs]" using assms(2) by simp
  have "last xs \<noteq> 0" using assms by (auto simp: normal_def)
  then have "unat (last xs) \<noteq> 0" by (simp add: unsigned_eq_0_iff)
  then have "1 \<le> unat (last xs)" by linarith
  then have "(4294967296 :: nat) ^ (length xs - 1) * 1 \<le> 4294967296 ^ (length xs - 1) * unat (last xs)"
    by (rule mult_le_mono2)
  then have "4294967296 ^ (length xs - 1) \<le> 4294967296 ^ (length xs - 1) * unat (last xs)" by simp
  also have "\<dots> \<le> nval (butlast xs @ [last xs])" by (simp add: nval_append)
  finally show ?thesis using xs by simp
qed

lemma normal_iff: "normal xs \<longleftrightarrow> xs = [] \<or> 4294967296 ^ (length xs - 1) \<le> nval xs"
proof
  assume "normal xs" then show "xs = [] \<or> 4294967296 ^ (length xs - 1) \<le> nval xs"
    using nval_normal_ge by blast
next
  assume *: "xs = [] \<or> 4294967296 ^ (length xs - 1) \<le> nval xs"
  have "last xs \<noteq> 0" if "xs \<noteq> []"
  proof
    assume "last xs = 0"
    then have xs: "xs = butlast xs @ [0]" using that append_butlast_last_id by metis
    have "nval xs = nval (butlast xs)" by (subst xs) (simp add: nval_append)
    then show False using * that nval_less [of "butlast xs"] by simp
  qed
  then show "normal xs" by (auto simp: normal_def)
qed

lemma normal_length_le:
  assumes "normal xs" "nval xs < 4294967296 ^ k" shows "length xs \<le> k"
proof (cases "xs = []")
  case False
  then have "(4294967296 :: nat) ^ (length xs - 1) < 4294967296 ^ k"
    using nval_normal_ge [OF assms(1)] assms(2) by linarith
  then show ?thesis by (simp add: power_strict_increasing_iff)
qed simp

lemma nval_inj: "length xs = length ys \<Longrightarrow> nval xs = nval ys \<Longrightarrow> xs = ys"
proof (induction xs ys rule: list_induct2)
  case (Cons a xs b ys)
  have "unat a = nval (a # xs) mod 4294967296" "unat b = nval (b # ys) mod 4294967296" by simp_all
  moreover have "nval xs = nval (a # xs) div 4294967296" "nval ys = nval (b # ys) div 4294967296" by simp_all
  ultimately show ?case using Cons by (metis word_unat_eqI)
qed simp

lemma top_used_drop: "set (drop (top_used xs) xs) \<subseteq> {0}"
proof -
  have "rev xs = takeWhile (\<lambda>a. a = 0) (rev xs) @ dropWhile (\<lambda>a. a = 0) (rev xs)" by simp
  then have "xs = rev (dropWhile (\<lambda>a. a = 0) (rev xs)) @ rev (takeWhile (\<lambda>a. a = 0) (rev xs))"
    by (metis rev_append rev_rev_ident)
  then have "drop (top_used xs) xs = rev (takeWhile (\<lambda>a. a = 0) (rev xs))"
    unfolding top_used_def by (metis append_eq_conv_conj length_rev)
  then show ?thesis by (auto dest: set_takeWhileD)
qed

lemma top_used_take: "take (top_used xs) xs = rev (dropWhile (\<lambda>a. a = 0) (rev xs))"
proof -
  have "rev xs = takeWhile (\<lambda>a. a = 0) (rev xs) @ dropWhile (\<lambda>a. a = 0) (rev xs)" by simp
  then have "xs = rev (dropWhile (\<lambda>a. a = 0) (rev xs)) @ rev (takeWhile (\<lambda>a. a = 0) (rev xs))"
    by (metis rev_append rev_rev_ident)
  then show ?thesis unfolding top_used_def by (metis append_eq_conv_conj length_rev)
qed

lemma top_used_normal: "normal (take (top_used xs) xs)"
proof -
  have "hd (dropWhile (\<lambda>a. a = 0) (rev xs)) \<noteq> 0" if "dropWhile (\<lambda>a. a = 0) (rev xs) \<noteq> []"
    using hd_dropWhile [OF that] .
  then show ?thesis unfolding top_used_take normal_def by (auto simp: last_rev)
qed

lemma top_used_le: "top_used xs \<le> length xs"
  unfolding top_used_def by (metis length_dropWhile_le length_rev)

lemma take_drop_nval: "set (drop k xs) \<subseteq> {0} \<Longrightarrow> nval (take k xs) = nval xs"
  using nval_append [of "take k xs" "drop k xs"] by (simp add: nval_zeros)

lemma top_used_unique:
  assumes "k \<le> length xs" "set (drop k xs) \<subseteq> {0}" "normal (take k xs)" shows "top_used xs = k"
proof -
  have v: "nval (take (top_used xs) xs) = nval xs" "nval (take k xs) = nval xs"
    using assms top_used_drop take_drop_nval by blast+
  have "k \<le> top_used xs"
    using normal_length_le [OF assms(3), of "top_used xs"] assms(1) v nval_less [of "take (top_used xs) xs"] top_used_le [of xs]
    by (simp add: min_absorb2)
  moreover have "top_used xs \<le> k"
    using normal_length_le [OF top_used_normal, of xs k] assms(1) v nval_less [of "take k xs"] top_used_le [of xs]
    by (simp add: min_absorb2)
  ultimately show ?thesis by simp
qed

lemma wf_top_used: "wf_mpz z \<Longrightarrow> top_used (atoms z) = used z"
  by (auto simp: wf_mpz_def digits_def intro: top_used_unique)

lemma wf_nval_atoms: "wf_mpz z \<Longrightarrow> nval (atoms z) = mag z"
  by (simp add: wf_mpz_def mag_def digits_def take_drop_nval)

lemma length_digits: "wf_mpz z \<Longrightarrow> length (digits z) = used z"
  by (simp add: wf_mpz_def digits_def)

lemma mag_less: "wf_mpz z \<Longrightarrow> mag z < 4294967296 ^ used z"
  using nval_less [of "digits z"] by (simp add: mag_def length_digits)

lemma used_le: "wf_mpz z \<Longrightarrow> mag z < 4294967296 ^ k \<Longrightarrow> used z \<le> k"
  using normal_length_le [of "digits z" k] by (simp add: wf_mpz_def mag_def digits_def)

lemma used_0_iff: "wf_mpz z \<Longrightarrow> used z = 0 \<longleftrightarrow> mag z = 0"
  using used_le [of z 0] by (auto simp: mag_def digits_def)

lemma mag_ge: "wf_mpz z \<Longrightarrow> used z \<noteq> 0 \<Longrightarrow> 4294967296 ^ (used z - 1) \<le> mag z"
  using nval_normal_ge [of "digits z"] length_digits [of z]
  by (cases "digits z = []") (auto simp: wf_mpz_def mag_def)

lemma wf_zero [simp]: "wf_mpz zero_mpz" "mag zero_mpz = 0" "ival zero_mpz = 0"
  by (simp_all add: zero_mpz_def wf_mpz_def digits_def normal_def mag_def ival_def)

lemma nat_abs_ival [simp]: "nat \<bar>ival z\<bar> = mag z"
  by (simp add: ival_def)

text \<open>Setting the length by normalisation.\<close>

lemma normalize_atoms [simp]: "atoms (mpz_normalize z) = atoms z" "atoms (mpz_normalize_macro z) = atoms z"
  by (simp_all add: mpz_normalize_def mpz_normalize_macro_def Let_def)

lemma normalize_macro_wf:
  "wf_mpz (mpz_normalize_macro z)" "mag (mpz_normalize_macro z) = nval (atoms z)" "neg (mpz_normalize_macro z) = neg z"
  by (simp_all add: mpz_normalize_macro_def wf_mpz_def mag_def digits_def top_used_drop top_used_normal top_used_le take_drop_nval)

lemma normalize_wf:
  assumes "atoms z \<noteq> []"
  shows "wf_mpz (mpz_normalize z)" "mag (mpz_normalize z) = nval (atoms z)"
    "neg (mpz_normalize z) \<longleftrightarrow> neg z \<and> nval (atoms z) \<noteq> 0"
proof -
  have "nval (take (top_used (atoms z)) (atoms z)) = nval (atoms z)" by (simp add: top_used_drop take_drop_nval)
  moreover have "top_used (atoms z) = 0 \<longleftrightarrow> nval (atoms z) = 0"
    using top_used_unique [of 0 "atoms z"] calculation by (auto simp: nval_eq_0_iff normal_def)
  ultimately show "wf_mpz (mpz_normalize z)" "mag (mpz_normalize z) = nval (atoms z)"
    "neg (mpz_normalize z) \<longleftrightarrow> neg z \<and> nval (atoms z) \<noteq> 0"
    using assms by (simp_all add: mpz_normalize_def Let_def wf_mpz_def mag_def digits_def top_used_drop top_used_normal top_used_le)
qed

lemma normalize_macro_same: "wf_mpz z \<Longrightarrow> mpz_normalize_macro z = z"
  by (simp add: mpz_normalize_macro_def wf_top_used)

section \<open>Reasoning about operations\<close>

text \<open>\<open>gives m Q\<close>: the operation succeeds, and the store afterwards has the property \<open>Q\<close>.\<close>

definition gives :: "outcome \<Rightarrow> (bn \<Rightarrow> bool) \<Rightarrow> bool" where
  "gives m Q \<longleftrightarrow> (\<exists>h. m = Some (SBN_OK, h) \<and> Q h)"

lemma gives_Some [simp]: "gives (Some (e, h)) Q \<longleftrightarrow> e = SBN_OK \<and> Q h"
  by (auto simp: gives_def)

lemma gives_ok_then [simp]: "gives (ok_then m f) Q \<longleftrightarrow> gives m (\<lambda>h. gives (f h) Q)"
  by (auto simp: gives_def ok_then_def bind_eq_Some_conv split: if_splits)

lemma gives_mono: "gives m Q \<Longrightarrow> (\<And>h. Q h \<Longrightarrow> R h) \<Longrightarrow> gives m R"
  by (auto simp: gives_def)

lemma givesE: "gives m Q \<Longrightarrow> (\<And>h. m = Some (SBN_OK, h) \<Longrightarrow> Q h \<Longrightarrow> thesis) \<Longrightarrow> thesis"
  by (auto simp: gives_def)

lemma gives_bind: "m = Some x \<Longrightarrow> gives (f x) Q \<Longrightarrow> gives (Option.bind m f) Q"
  by simp

text \<open>\<open>ext x y\<close>: the number \<open>y\<close> is \<open>x\<close> with more words allocated.  \<open>keeps S h h'\<close>: all numbers
  outside of \<open>S\<close> are the same in \<open>h'\<close>, apart from allocated words.\<close>

definition ext :: "mpz \<Rightarrow> mpz \<Rightarrow> bool" where
  "ext x y \<longleftrightarrow> (\<exists>n. y = x\<lparr>atoms := atoms x @ replicate n 0\<rparr>)"

definition keeps :: "ptr set \<Rightarrow> bn \<Rightarrow> bn \<Rightarrow> bool" where
  "keeps S h h' \<longleftrightarrow> grants h' = grants h \<and> (\<forall>p. p \<notin> S \<longrightarrow> ext (cells h p) (cells h' p))"

text \<open>Every allocation succeeds.\<close>

definition plenty :: "bn \<Rightarrow> bool" where
  "plenty h \<longleftrightarrow> (\<forall>n. grants h n)"

text \<open>A number with the value \<open>v\<close>, in normal form.\<close>

definition has :: "bn \<Rightarrow> ptr \<Rightarrow> int \<Rightarrow> bool" where
  "has h p v \<longleftrightarrow> wf_mpz (cells h p) \<and> ival (cells h p) = v"

lemma ext_refl [simp]: "ext x x"
  unfolding ext_def by (rule exI [of _ 0]) simp

lemma ext_pad [simp]: "ext x (x\<lparr>atoms := atoms x @ replicate n 0\<rparr>)"
  unfolding ext_def by blast

lemma ext_trans: "ext x y \<Longrightarrow> ext y z \<Longrightarrow> ext x z"
  by (auto simp: ext_def replicate_add [symmetric])

lemma ext_props:
  assumes "ext x y" shows "used y = used x" "neg y = neg x" "wf_mpz x \<Longrightarrow> wf_mpz y" "wf_mpz x \<Longrightarrow> mag y = mag x"
    "wf_mpz x \<Longrightarrow> ival y = ival x" "length (atoms x) \<le> length (atoms y)" "wf_mpz x \<Longrightarrow> digits y = digits x"
proof -
  obtain n where y: "y = x\<lparr>atoms := atoms x @ replicate n 0\<rparr>" using assms by (auto simp: ext_def)
  then show "used y = used x" "neg y = neg x" "length (atoms x) \<le> length (atoms y)" by auto
  assume w: "wf_mpz x"
  then show d: "digits y = digits x" by (simp add: y wf_mpz_def digits_def)
  with w show "wf_mpz y" by (auto simp: y wf_mpz_def)
  from d show "mag y = mag x" "ival y = ival x" by (simp_all add: mag_def ival_def y)
qed

lemma keeps_refl [simp]: "keeps S h h"
  by (simp add: keeps_def)

lemma keeps_trans: "keeps S h h' \<Longrightarrow> keeps S' h' h'' \<Longrightarrow> keeps (S \<union> S') h h''"
  by (auto simp: keeps_def intro: ext_trans)

lemma keeps_mono: "keeps S h h' \<Longrightarrow> S \<subseteq> S' \<Longrightarrow> keeps S' h h'"
  by (auto simp: keeps_def)

lemma keeps_step: "keeps S h h' \<Longrightarrow> keeps S h' h'' \<Longrightarrow> keeps S h h''"
  using keeps_trans [of S h h' S h''] by simp

lemma keeps_plenty: "keeps S h h' \<Longrightarrow> plenty h \<Longrightarrow> plenty h'"
  by (simp add: keeps_def plenty_def)

lemma keeps_ext: "keeps S h h' \<Longrightarrow> p \<notin> S \<Longrightarrow> ext (cells h p) (cells h' p)"
  by (simp add: keeps_def)

lemma keeps_has: "keeps S h h' \<Longrightarrow> p \<notin> S \<Longrightarrow> has h p v \<Longrightarrow> has h' p v"
  using ext_props(3,5) [OF keeps_ext, of S h h' p] by (simp add: has_def)

lemma cells_put [simp]: "cells (poke p v h) = (cells h)(p := v)" "grants (poke p v h) = grants h" "allocs (poke p v h) = allocs h"
  by (simp_all add: poke_def)

lemma cells_upd [simp]: "cells (upd p f h) = (cells h)(p := f (cells h p))" "grants (upd p f h) = grants h"
  "allocs (upd p f h) = allocs h"
  by (simp_all add: upd_def)

lemma keeps_put: "p \<in> S \<Longrightarrow> keeps S h (poke p v h)"
  by (auto simp: keeps_def)

lemma keeps_put_iff: "p \<in> S \<Longrightarrow> keeps S h (poke p v h') \<longleftrightarrow> keeps S h h'"
  by (auto simp: keeps_def)

lemma keeps_upd_iff: "p \<in> S \<Longrightarrow> keeps S h (upd p f h') \<longleftrightarrow> keeps S h h'"
  by (simp add: upd_def keeps_put_iff)

lemma plenty_put [simp]: "plenty (poke p v h) = plenty h" "plenty (upd p f h) = plenty h"
  by (simp_all add: plenty_def)

text \<open>\<open>only z h h'\<close>: nothing but \<open>z\<close> was written.\<close>

definition only :: "ptr \<Rightarrow> bn \<Rightarrow> bn \<Rightarrow> bool" where
  "only z h h' \<longleftrightarrow> grants h' = grants h \<and> (\<forall>p. p \<noteq> z \<longrightarrow> cells h' p = cells h p)"

lemma only_keeps: "only z h h' \<Longrightarrow> z \<in> S \<Longrightarrow> keeps S h h'"
  by (auto simp: only_def keeps_def)

lemma only_keeps1: "only z h h' \<Longrightarrow> keeps {z} h h'"
  using only_keeps by blast

lemma only_plenty: "only z h h' \<Longrightarrow> plenty h \<Longrightarrow> plenty h'"
  by (simp add: only_def plenty_def)

lemma only_refl [simp]: "only z h h"
  by (simp add: only_def)

lemma only_trans: "only z h h' \<Longrightarrow> only z h' h'' \<Longrightarrow> only z h h''"
  by (simp add: only_def)

lemma only_put: "only z h h' \<Longrightarrow> only z h (poke z v h')" "only z h h' \<Longrightarrow> only z h (upd z f h')"
  by (simp_all add: only_def)

lemma only_other: "only z h h' \<Longrightarrow> p \<noteq> z \<Longrightarrow> cells h' p = cells h p"
  by (simp add: only_def)

section \<open>Allocation and assignment are correct\<close>

lemma realloc_gives:
  assumes "plenty h" "i + 1 < 2 ^ 32"
  shows "gives (mpz_realloc z i h) (\<lambda>h'. only z h h' \<and> ext (cells h z) (cells h' z) \<and>
    i < length (atoms (cells h' z)) \<and> (i < length (atoms (cells h z)) \<longrightarrow> h' = h))"
  using assms by (auto simp: mpz_realloc_def allocate_def plenty_def only_def)

lemma zero_spec:
  assumes "wf_mpz x"
  obtains m where "mpz_zero x = Some m" "length (atoms m) = length (atoms x)" "set (atoms m) \<subseteq> {0}" "used m = 0" "neg m = neg x"
proof (cases "used x = 0")
  case True
  show thesis by (rule that [of x]) (use assms True in \<open>simp_all add: mpz_zero_def wf_mpz_def\<close>)
next
  case False
  let ?xs = "replicate (used x) 0 @ drop (used x) (atoms x)"
  show thesis
    by (rule that [of "x\<lparr>atoms := ?xs, used := 0\<rparr>"])
      (use assms False in \<open>auto simp: mpz_zero_def wf_mpz_def overwrite_def\<close>)
qed

lemma zero_realloc_gives:
  assumes "plenty h" "i + 1 < 2 ^ 32" "wf_mpz (cells h z)"
  shows "gives (mpz_zero_realloc z i h) (\<lambda>h'. only z h h' \<and> i < length (atoms (cells h' z)) \<and>
    set (atoms (cells h' z)) \<subseteq> {0} \<and> used (cells h' z) = 0 \<and> neg (cells h' z) = neg (cells h z))"
proof -
  have *: "gives (map_option (\<lambda>m. (SBN_OK, poke z m h')) (mpz_zero (cells h' z))) (\<lambda>h'. only z h h' \<and>
      i < length (atoms (cells h' z)) \<and> set (atoms (cells h' z)) \<subseteq> {0} \<and> used (cells h' z) = 0 \<and>
      neg (cells h' z) = neg (cells h z))"
    if "only z h h'" "ext (cells h z) (cells h' z)" "i < length (atoms (cells h' z))" for h'
    by (rule zero_spec [OF ext_props(3) [OF that(2) assms(3)]])
      (use that ext_props(2) [OF that(2)] in \<open>simp add: only_put\<close>)
  show ?thesis unfolding mpz_zero_realloc_def gives_ok_then
    by (rule gives_mono [OF realloc_gives [OF assms(1,2)]]) (simp add: *)
qed

lemma set_from_gives:
  assumes "plenty h" "used s + 1 < 2 ^ 32" "wf_mpz (cells h d)" "wf_mpz s" "\<And>h'. only d h h' \<Longrightarrow> rd h' = s"
  shows "gives (mpz_set_from d rd h) (\<lambda>h'. only d h h' \<and> wf_mpz (cells h' d) \<and> digits (cells h' d) = digits s \<and>
    used (cells h' d) = used s \<and> neg (cells h' d) = neg s \<and> used s < length (atoms (cells h' d)))"
proof -
  have s: "length (take (used s) (atoms s)) = used s" using assms(4) by (simp add: wf_mpz_def)
  have "gives (Option.bind (overwrite (atoms (cells h' d)) (take (used (rd h')) (atoms (rd h'))))
         (\<lambda>xs. Some (SBN_OK, upd d (\<lambda>m. m\<lparr>atoms := xs, used := used (rd h'), neg := neg (rd h')\<rparr>) h')))
       (\<lambda>h'. only d h h' \<and> wf_mpz (cells h' d) \<and> digits (cells h' d) = digits s \<and>
    used (cells h' d) = used s \<and> neg (cells h' d) = neg s \<and> used s < length (atoms (cells h' d)))"
    if "only d h h' \<and> used s < length (atoms (cells h' d)) \<and> set (atoms (cells h' d)) \<subseteq> {0}" for h'
  proof -
    have rd: "rd h' = s" using that assms(5) by blast
    have "set (drop (used s) (atoms (cells h' d))) \<subseteq> {0}" using that set_drop_subset by (metis subset_trans)
    then show ?thesis using that assms(4) s
      by (simp add: rd overwrite_def only_put wf_mpz_def digits_def)
  qed
  then show ?thesis unfolding mpz_set_from_def gives_ok_then Let_def assms(5) [OF only_refl]
    by (intro gives_mono [OF zero_realloc_gives [OF assms(1-3)]]) blast
qed

lemma same_value: "digits x = digits y \<Longrightarrow> neg x = neg y \<Longrightarrow> mag x = mag y \<and> ival x = ival y"
  by (simp add: mag_def ival_def)

lemma set_gives:
  assumes "plenty h" "used (cells h s) + 1 < 2 ^ 32" "wf_mpz (cells h d)" "wf_mpz (cells h s)" "s \<noteq> d"
  shows "gives (mpz_set d s h) (\<lambda>h'. only d h h' \<and> wf_mpz (cells h' d) \<and> digits (cells h' d) = digits (cells h s) \<and>
    used (cells h' d) = used (cells h s) \<and> neg (cells h' d) = neg (cells h s) \<and> used (cells h s) < length (atoms (cells h' d)))"
  unfolding mpz_set_def by (rule set_from_gives) (use assms in \<open>simp_all add: only_def\<close>)

lemma u32pack_wf [simp]: "wf_mpz (u32pack u)" "mag (u32pack u) = unat u" "ival (u32pack u) = int (unat u)"
  "\<not> neg (u32pack u)" "used (u32pack u) \<le> 1"
  by (simp_all add: u32pack_def wf_mpz_def digits_def normal_def mag_def ival_def zero_mpz_def)

lemma set_ui_gives:
  assumes "plenty h" "wf_mpz (cells h d)"
  shows "gives (mpz_set_ui d u h) (\<lambda>h'. only d h h' \<and> has h' d (int (unat u)) \<and> \<not> neg (cells h' d) \<and> mag (cells h' d) = unat u
     \<and> used (cells h' d) < length (atoms (cells h' d)))"
  unfolding mpz_set_ui_def
proof (rule gives_mono [OF set_from_gives [of h "u32pack u" d]])
  show "plenty h" "wf_mpz (cells h d)" "wf_mpz (u32pack u)" using assms by simp_all
  show "used (u32pack u) + 1 < 2 ^ 32" using u32pack_wf(5) [of u] by simp
  fix h'
  assume "only d h h' \<and> wf_mpz (cells h' d) \<and> digits (cells h' d) = digits (u32pack u) \<and> used (cells h' d) = used (u32pack u) \<and>
    neg (cells h' d) = neg (u32pack u) \<and> used (u32pack u) < length (atoms (cells h' d))"
  then show "only d h h' \<and> has h' d (int (unat u)) \<and> \<not> neg (cells h' d) \<and> mag (cells h' d) = unat u
     \<and> used (cells h' d) < length (atoms (cells h' d))"
    using same_value [of "cells h' d" "u32pack u"] by (simp add: has_def)
qed simp

lemma setzero_gives:
  assumes "plenty h" "wf_mpz (cells h z)"
  shows "gives (mpz_setzero z h) (\<lambda>h'. only z h h' \<and> has h' z 0 \<and> \<not> neg (cells h' z) \<and> mag (cells h' z) = 0)"
  unfolding mpz_setzero_def
proof (rule gives_mono [OF zero_realloc_gives])
  fix h'
  assume "only z (upd z (\<lambda>m. m\<lparr>neg := False\<rparr>) h) h' \<and> 0 < length (atoms (cells h' z)) \<and> set (atoms (cells h' z)) \<subseteq> {0} \<and>
    used (cells h' z) = 0 \<and> neg (cells h' z) = neg (cells (upd z (\<lambda>m. m\<lparr>neg := False\<rparr>) h) z)"
  then show "only z h h' \<and> has h' z 0 \<and> \<not> neg (cells h' z) \<and> mag (cells h' z) = 0"
    by (simp add: has_def wf_mpz_def digits_def normal_def mag_def ival_def only_def)
qed (use assms in \<open>simp_all add: wf_mpz_def digits_def\<close>)

text \<open>Assigning a number to itself clears it.\<close>

lemma set_self:
  assumes "plenty h" "used (cells h z) + 1 < 2 ^ 32" "wf_mpz (cells h z)"
  shows "gives (mpz_set z z h) (\<lambda>h'. has h' z 0)"
proof -
  have "gives (Option.bind (overwrite (atoms (cells h' z)) (take (used (cells h' z)) (atoms (cells h' z))))
         (\<lambda>xs. Some (SBN_OK, upd z (\<lambda>m. m\<lparr>atoms := xs, used := used (cells h' z), neg := neg (cells h' z)\<rparr>) h')))
       (\<lambda>h'. has h' z 0)"
    if "set (atoms (cells h' z)) \<subseteq> {0} \<and> used (cells h' z) = 0" for h'
    using that by (simp add: overwrite_def has_def wf_mpz_def digits_def normal_def ival_def mag_def)
  then show ?thesis unfolding mpz_set_def mpz_set_from_def gives_ok_then Let_def
    by (intro gives_mono [OF zero_realloc_gives [OF assms]]) blast
qed

end
