(* ===== verification/Bigadd.thy ===== *)
theory Bigadd
  imports Bignum
begin

text \<open>
  Comparison, addition, subtraction and multiplication of sbignum.c.  The word loops are recursions on
  the lists of words, least significant first; in place or not makes no difference to them, since
  each word is read before it is written and not read again.
\<close>

section \<open>Comparison\<close>

text \<open>From the most significant word on.\<close>

fun cmp_top :: "u32 list \<Rightarrow> u32 list \<Rightarrow> int" where
  "cmp_top (a # as) (b # bs) = (if a > b then 1 else if a < b then -1 else cmp_top as bs)"
| "cmp_top _ _ = 0"

definition mpz_cmpabs :: "mpz \<Rightarrow> mpz \<Rightarrow> int" where
  "mpz_cmpabs a b =
     (if used a > used b then 1 else if used a < used b then -1 else cmp_top (rev (digits a)) (rev (digits b)))"

definition mpz_cmpabsi_raw :: "mpz \<Rightarrow> u32 list \<Rightarrow> int" where
  "mpz_cmpabsi_raw a d = mpz_cmpabs a \<lparr>atoms = d, used = length d, neg = False\<rparr>"

definition mpz_cmpabs_ui :: "mpz \<Rightarrow> u32 \<Rightarrow> int" where
  "mpz_cmpabs_ui a u = mpz_cmpabs a (u32pack u)"

definition mpz_cmp :: "mpz \<Rightarrow> mpz \<Rightarrow> int" where
  "mpz_cmp a b =
     (if used a = 0 \<and> used b = 0 then 0
      else if neg a = neg b then (if neg a then mpz_cmpabs b a else mpz_cmpabs a b)
      else if neg a then -1 else 1)"

definition mpz_cmp_ui :: "mpz \<Rightarrow> u32 \<Rightarrow> int" where
  "mpz_cmp_ui a u = mpz_cmp a (u32pack u)"

definition mpz_cmp_si :: "mpz \<Rightarrow> 32 word \<Rightarrow> int" where
  "mpz_cmp_si a v = mpz_cmp a (s32pack v)"

section \<open>The operand of the raw operations\<close>

text \<open>Whether the pointers \<open>r->d\<close> and \<open>d\<close> are equal, where \<open>d\<close> are the words of the number \<open>b\<close>.\<close>

definition same_data :: "bn \<Rightarrow> ptr \<Rightarrow> ptr \<Rightarrow> bool" where
  "same_data h r b \<longleftrightarrow> r = b \<or> (atoms (cells h r) = [] \<and> atoms (cells h b) = [] \<and> b \<noteq> Imm)"

text \<open>The copy that is made then.\<close>

definition copy_if :: "bool \<Rightarrow> bn \<Rightarrow> outcome" where
  "copy_if c h = (if c then allocate h else Some (SBN_OK, h))"

definition first_words :: "nat \<Rightarrow> u32 list \<Rightarrow> u32 list option" where
  "first_words l xs = (if l \<le> length xs then Some (take l xs) else None)"

text \<open>The words of the operand when the loop runs: the copy, or the words themselves unless a
  reallocation since then has moved them.\<close>

definition operand :: "bool \<Rightarrow> ptr \<Rightarrow> nat \<Rightarrow> bn \<Rightarrow> bn \<Rightarrow> u32 list option" where
  "operand copied b l h0 h =
     (if copied then first_words l (atoms (cells h0 b))
      else if l > 0 \<and> length (atoms (cells h b)) \<noteq> length (atoms (cells h0 b)) then None
      else first_words l (atoms (cells h b)))"

section \<open>Addition\<close>

fun add_loop :: "u32 list \<Rightarrow> u32 list \<Rightarrow> u32 \<Rightarrow> u32 list \<times> u32" where
  "add_loop (z # zs) (d # ds) car =
     (let sum = ucast d + ucast z + ucast car :: u64; (rs, c) = add_loop zs ds (ucast (drop_bit 32 sum))
      in (ucast sum # rs, c))"
| "add_loop (z # zs) [] car =
     (let sum = ucast z + ucast car :: u64; (rs, c) = add_loop zs [] (ucast (drop_bit 32 sum))
      in (ucast sum # rs, c))"
| "add_loop [] ds car = ([], car)"

definition mpz_addi_raw :: "ptr \<Rightarrow> ptr \<Rightarrow> ptr \<Rightarrow> nat \<Rightarrow> bn \<Rightarrow> outcome" where
  "mpz_addi_raw r z b l h0 =
     (let copied = same_data h0 r b; maxi = max (used (cells h0 z)) l in
      ok_then (copy_if copied h0) (\<lambda>h.
      ok_then (if r \<noteq> z then mpz_zero_realloc r maxi h else Some (SBN_OK, h)) (\<lambda>h.
      ok_then (mpz_realloc z (if r = z then maxi else l) h) (\<lambda>h. do {
        ds \<leftarrow> operand copied b l h0 h;
        zs \<leftarrow> first_words (max (used (cells h z)) l) (atoms (cells h z));
        let (sum, car) = add_loop zs ds 0;
        let bs = sum @ (if car \<noteq> 0 then [car] else []);
        xs \<leftarrow> overwrite (atoms (cells h r)) bs;
        Some (SBN_OK, upd r (\<lambda>m. m\<lparr>atoms := xs, used := length bs\<rparr>) h)
      }))))"

section \<open>Subtraction\<close>

fun sub_loop :: "u32 list \<Rightarrow> u32 list \<Rightarrow> int \<Rightarrow> u32 list" where
  "sub_loop (z # zs) (d # ds) car =
     (let sub = int (unat z) - car - int (unat d)
      in word_of_int (if sub < 0 then sub + 2 ^ 32 else sub) # sub_loop zs ds (if sub < 0 then 1 else 0))"
| "sub_loop (z # zs) [] car =
     (let sub = int (unat z) - car
      in word_of_int (if sub < 0 then sub + 2 ^ 32 else sub) # sub_loop zs [] (if sub < 0 then 1 else 0))"
| "sub_loop [] ds car = []"

definition mpz_subi_raw :: "ptr \<Rightarrow> ptr \<Rightarrow> ptr \<Rightarrow> nat \<Rightarrow> bn \<Rightarrow> outcome" where
  "mpz_subi_raw r z b l h0 =
     (let copied = same_data h0 r b in
      ok_then (copy_if copied h0) (\<lambda>h.
      ok_then (if r \<noteq> z then mpz_set r z h else Some (SBN_OK, h)) (\<lambda>h. do {
        ds \<leftarrow> operand copied b l h0 h;
        zs \<leftarrow> first_words (max (used (cells h z)) l) (atoms (cells h z));
        xs \<leftarrow> overwrite (atoms (cells h r)) (sub_loop zs ds 0);
        Some (SBN_OK, upd r (\<lambda>m. mpz_normalize (m\<lparr>atoms := xs, used := length zs\<rparr>)) h)
      })))"

section \<open>The signed operations\<close>

definition set_neg :: "ptr \<Rightarrow> bool \<Rightarrow> outcome \<Rightarrow> outcome" where
  "set_neg r s m = map_option (\<lambda>(e, h). (e, upd r (\<lambda>m. m\<lparr>neg := s\<rparr>) h)) m"

text \<open>The result is negative unless it is 0.\<close>

definition set_negative :: "ptr \<Rightarrow> outcome \<Rightarrow> outcome" where
  "set_negative r m = map_option (\<lambda>(e, h). (e, upd r (\<lambda>m. m\<lparr>neg := (used m \<noteq> 0)\<rparr>) h)) m"

text \<open>\<open>r->s = a->s\<close> after a call.\<close>

definition copy_neg :: "ptr \<Rightarrow> ptr \<Rightarrow> outcome \<Rightarrow> outcome" where
  "copy_neg r a m = map_option (\<lambda>(e, h). (e, upd r (\<lambda>m. m\<lparr>neg := neg (cells h a)\<rparr>) h)) m"

definition mpz_add :: "ptr \<Rightarrow> ptr \<Rightarrow> ptr \<Rightarrow> bn \<Rightarrow> outcome" where
  "mpz_add r a b h =
     (let A = cells h a; B = cells h b; c = mpz_cmpabs A B in
      if neg A = neg B then copy_neg r a (mpz_addi_raw r a b (used B) h)
      else if neg A then
        (if c \<ge> 0 then set_negative r (mpz_subi_raw r a b (used B) h)
         else set_neg r False (mpz_subi_raw r b a (used A) h))
      else
        (if c \<ge> 0 then set_neg r False (mpz_subi_raw r a b (used B) h)
         else set_negative r (mpz_subi_raw r b a (used A) h)))"

definition mpz_sub :: "ptr \<Rightarrow> ptr \<Rightarrow> ptr \<Rightarrow> bn \<Rightarrow> outcome" where
  "mpz_sub r a b h =
     (let A = cells h a; B = cells h b; c = mpz_cmpabs A B in
      if neg A \<noteq> neg B then copy_neg r a (mpz_addi_raw r a b (used B) h)
      else if neg A then
        (if c \<ge> 0 then set_negative r (mpz_subi_raw r a b (used B) h)
         else set_neg r False (mpz_subi_raw r b a (used A) h))
      else
        (if c \<ge> 0 then set_neg r False (mpz_subi_raw r a b (used B) h)
         else set_negative r (mpz_subi_raw r b a (used A) h)))"

definition mpz_add_ui :: "ptr \<Rightarrow> ptr \<Rightarrow> u32 \<Rightarrow> bn \<Rightarrow> outcome" where
  "mpz_add_ui r z u h = mpz_add r z Imm (poke Imm (u32pack u) h)"

definition mpz_add_si :: "ptr \<Rightarrow> ptr \<Rightarrow> 32 word \<Rightarrow> bn \<Rightarrow> outcome" where
  "mpz_add_si r z v h = mpz_add r z Imm (poke Imm (s32pack v) h)"

definition mpz_sub_ui :: "ptr \<Rightarrow> ptr \<Rightarrow> u32 \<Rightarrow> bn \<Rightarrow> outcome" where
  "mpz_sub_ui r z u h = mpz_sub r z Imm (poke Imm (u32pack u) h)"

definition mpz_sub_si :: "ptr \<Rightarrow> ptr \<Rightarrow> 32 word \<Rightarrow> bn \<Rightarrow> outcome" where
  "mpz_sub_si r z v h = mpz_sub r z Imm (poke Imm (s32pack v) h)"

section \<open>Comparison is correct\<close>

lemma cmp_top_spec:
  "length as = length bs \<Longrightarrow> cmp_top as bs = sgn (int (nval (rev as)) - int (nval (rev bs)))"
proof (induction as bs rule: list_induct2)
  case (Cons a as b bs)
  let ?x = "nval (rev as)" and ?y = "nval (rev bs)" and ?B = "4294967296 ^ length bs :: nat"
  have xy: "?x < ?B" "?y < ?B" using nval_less [of "rev as"] nval_less [of "rev bs"] Cons.hyps by simp_all
  have step: "?x + ?B * unat c < ?y + ?B * unat d" if "c < d" "?x < ?B" for c d :: u32 and x
  proof -
    have "unat c + 1 \<le> unat d" using that(1) by (simp add: word_less_nat_alt)
    then have "?B * (unat c + 1) \<le> ?B * unat d" by (rule mult_le_mono2)
    then show ?thesis using that(2) by simp
  qed
  have step': "?y + ?B * unat c < ?x + ?B * unat d" if "c < d" for c d :: u32
  proof -
    have "unat c + 1 \<le> unat d" using that by (simp add: word_less_nat_alt)
    then have "?B * (unat c + 1) \<le> ?B * unat d" by (rule mult_le_mono2)
    then show ?thesis using xy(2) by simp
  qed
  consider "a < b" | "b < a" | "a = b" by fastforce
  then show ?case
  proof cases
    case 1
    then have "nval (rev (a # as)) < nval (rev (b # bs))" using step [OF 1 xy(1)] Cons.hyps by (simp add: nval_append)
    then show ?thesis using 1 by simp
  next
    case 2
    then have "nval (rev (b # bs)) < nval (rev (a # as))" using step' [OF 2] Cons.hyps by (simp add: nval_append)
    then show ?thesis using 2 by simp
  next
    case 3
    then show ?thesis using Cons by (simp add: nval_append)
  qed
qed simp

lemma cmpabs_sgn:
  assumes "wf_mpz a" "wf_mpz b" shows "mpz_cmpabs a b = sgn (int (mag a) - int (mag b))"
proof -
  have less: "mag x < mag y" if "wf_mpz x" "wf_mpz y" "used x < used y" for x y
    using used_le [OF that(2), of "used x"] mag_less [OF that(1)] that(3) by (meson not_le order.strict_trans2)
  show ?thesis
    using less [of a b] less [of b a] assms cmp_top_spec [of "rev (digits a)" "rev (digits b)"]
    by (auto simp: mpz_cmpabs_def mag_def length_digits)
qed

lemma cmpabs_ge_iff: "wf_mpz a \<Longrightarrow> wf_mpz b \<Longrightarrow> mpz_cmpabs a b \<ge> 0 \<longleftrightarrow> mag b \<le> mag a"
  by (simp add: cmpabs_sgn sgn_if)

lemma cmpabs_eq_iff: "wf_mpz a \<Longrightarrow> wf_mpz b \<Longrightarrow> mpz_cmpabs a b = 0 \<longleftrightarrow> mag b = mag a"
  by (auto simp: cmpabs_sgn sgn_if)

lemma cmpabs_less_iff: "wf_mpz a \<Longrightarrow> wf_mpz b \<Longrightarrow> mpz_cmpabs a b < 0 \<longleftrightarrow> mag a < mag b"
  by (simp add: cmpabs_sgn sgn_if)

lemma cmp_sgn:
  assumes "wf_mpz a" "wf_mpz b" shows "mpz_cmp a b = sgn (ival a - ival b)"
  using assms used_0_iff [OF assms(1)] used_0_iff [OF assms(2)]
  by (auto simp: mpz_cmp_def cmpabs_sgn ival_def sgn_if)

section \<open>The word loops\<close>

lemma unat_div32: "unat (w :: u64) div 4294967296 < 4294967296"
proof -
  have "unat w < 2 ^ LENGTH(64)" by (rule unsigned_less)
  then show ?thesis by (simp add: less_mult_imp_div_less)
qed

lemma split64: "unat (ucast (w :: u64) :: u32) + 4294967296 * unat (ucast (drop_bit 32 w) :: u32) = unat w"
proof -
  have "unat (ucast w :: u32) = unat w mod 4294967296" by (simp add: unat_ucast_mod)
  moreover have "unat (ucast (drop_bit 32 w) :: u32) = unat w div 4294967296"
    using unat_div32 [of w] by (simp add: unat_ucast_mod unat_drop_bit_eq) (simp add: drop_bit_eq_div)
  ultimately show ?thesis by simp
qed

lemma sum64: "unat (ucast (d :: u32) + ucast (z :: u32) + ucast (car :: u32) :: u64) = unat d + unat z + unat car"
proof -
  have "unat d + unat z + unat car < 18446744073709551616"
    using unat32_less [of d] unat32_less [of z] unat32_less [of car] by linarith
  then show ?thesis by (simp add: unat_word_ariths unat_ucast_mod mod_add_eq)
qed

lemma sum64_2: "unat (ucast (z :: u32) + ucast (car :: u32) :: u64) = unat z + unat car"
  using sum64 [of 0 z car] by simp

lemma add_loop_spec:
  "length ds \<le> length zs \<Longrightarrow> add_loop zs ds car = (rs, c) \<Longrightarrow>
    length rs = length zs \<and> nval rs + 4294967296 ^ length zs * unat c = nval zs + nval ds + unat car"
proof (induction zs ds car arbitrary: rs c rule: add_loop.induct)
  case (1 z zs d ds car)
  let ?w = "ucast d + ucast z + ucast car :: u64"
  obtain rs' where rs: "add_loop zs ds (ucast (drop_bit 32 ?w)) = (rs', c)" "rs = ucast ?w # rs'"
    using 1(3) by (auto simp: Let_def split: prod.splits)
  have "length rs' = length zs \<and> nval rs' + 4294967296 ^ length zs * unat c =
      nval zs + nval ds + unat (ucast (drop_bit 32 ?w) :: u32)"
    by (rule 1(1) [OF refl _ rs(1)]) (use 1(2) in simp)
  then show ?case using split64 [of ?w] unfolding sum64 by (simp add: rs(2) algebra_simps)
next
  case (2 z zs car)
  let ?w = "ucast z + ucast car :: u64"
  obtain rs' where rs: "add_loop zs [] (ucast (drop_bit 32 ?w)) = (rs', c)" "rs = ucast ?w # rs'"
    using 2(3) by (auto simp: Let_def split: prod.splits)
  have "length rs' = length zs \<and> nval rs' + 4294967296 ^ length zs * unat c =
      nval zs + nval [] + unat (ucast (drop_bit 32 ?w) :: u32)"
    by (rule 2(1) [OF refl _ rs(1)]) simp
  then show ?case using split64 [of ?w] unfolding sum64_2 by (simp add: rs(2) algebra_simps)
qed simp

lemma borrow_range:
  fixes x y car :: int
  assumes "0 \<le> x" "x < 4294967296" "0 \<le> y" "y < 4294967296" "car = 0 \<or> car = 1"
  shows "0 \<le> (if x - car - y < 0 then x - car - y + 2 ^ 32 else x - car - y)"
    "(if x - car - y < 0 then x - car - y + 2 ^ 32 else x - car - y) < 4294967296"
  using assms by auto

lemma int_unat32: "0 \<le> int (unat (w :: u32))" "int (unat (w :: u32)) < 4294967296"
  using unat32_less [of w] by linarith+

lemma word_of_int_unat: "0 \<le> x \<Longrightarrow> x < 4294967296 \<Longrightarrow> int (unat (word_of_int x :: u32)) = x"
  by (simp add: unat_eq_nat_uint uint_word_of_int)

lemma borrow_step:
  fixes d n z m car :: int
  assumes "d + 4294967296 * n + car \<le> z + 4294967296 * m"
    and "0 \<le> z" "z < 4294967296" "0 \<le> d" "d < 4294967296" "car = 0 \<or> car = 1"
  shows "n + (if z - car - d < 0 then 1 else 0) \<le> m"
  using assms by (cases "z - car - d < 0") auto

lemma sub_loop_spec:
  "length ds \<le> length zs \<Longrightarrow> car = 0 \<or> car = 1 \<Longrightarrow> int (nval ds) + car \<le> int (nval zs) \<Longrightarrow>
    length (sub_loop zs ds car) = length zs \<and> int (nval (sub_loop zs ds car)) = int (nval zs) - int (nval ds) - car"
proof (induction zs ds car rule: sub_loop.induct)
  case (1 z zs d ds car)
  let ?s = "int (unat z) - car - int (unat d)"
  let ?w = "if ?s < 0 then ?s + 2 ^ 32 else ?s" and ?c = "if ?s < 0 then 1 else 0 :: int"
  have r: "0 \<le> ?w" "?w < 4294967296" by (rule borrow_range [OF int_unat32 int_unat32 1(3)])+
  have "int (unat d) + 4294967296 * int (nval ds) + car \<le> int (unat z) + 4294967296 * int (nval zs)" using 1(4) by simp
  then have le: "int (nval ds) + ?c \<le> int (nval zs)" by (rule borrow_step [OF _ int_unat32 int_unat32 1(3)])
  have "length (sub_loop zs ds ?c) = length zs \<and> int (nval (sub_loop zs ds ?c)) = int (nval zs) - int (nval ds) - ?c"
    by (rule 1(1)) (use 1(2) le in simp_all)
  moreover have "sub_loop (z # zs) (d # ds) car = word_of_int ?w # sub_loop zs ds ?c" by (simp add: Let_def)
  ultimately show ?case using word_of_int_unat [OF r] by simp
next
  case (2 z zs car)
  let ?s = "int (unat z) - car"
  let ?w = "if ?s < 0 then ?s + 2 ^ 32 else ?s" and ?c = "if ?s < 0 then 1 else 0 :: int"
  have r: "0 \<le> ?w" "?w < 4294967296"
    using borrow_range [OF int_unat32 [of z] order_refl zero_less_numeral 2(3)] by (simp_all only: diff_0_right)
  have le: "int (nval []) + ?c \<le> int (nval zs)"
    using borrow_step [OF _ int_unat32 [of z] int_unat32 [of 0] 2(3), of 0 "int (nval zs)"] 2(4) by simp
  have "length (sub_loop zs [] ?c) = length zs \<and> int (nval (sub_loop zs [] ?c)) = int (nval zs) - int (nval []) - ?c"
    by (rule 2(1)) (use le in simp_all)
  moreover have "sub_loop (z # zs) [] car = word_of_int ?w # sub_loop zs [] ?c" by (simp add: Let_def)
  ultimately show ?case using word_of_int_unat [OF r] by simp
next
  case (3 ds car)
  then show ?case by auto
qed

section \<open>The raw operations are correct\<close>

lemma copy_if_gives: "plenty h \<Longrightarrow> gives (copy_if c h) (\<lambda>h' :: bn. cells h' = cells h \<and> grants h' = grants h)"
  by (simp add: copy_if_def allocate_def plenty_def)

lemma operand_eq:
  assumes "wf_mpz (cells h0 b)" "copied \<or> cells h b = cells h0 b \<or> used (cells h0 b) = 0"
  shows "operand copied b (used (cells h0 b)) h0 h = Some (digits (cells h0 b))"
  using assms by (auto simp: operand_def first_words_def wf_mpz_def digits_def)

text \<open>The words \<open>ds\<close> added to the number \<open>Z\<close>, with the result in \<open>R\<close>.\<close>

lemma add_finish:
  assumes Z: "wf_mpz Z" and ds: "normal ds" and M: "M = max (used Z) (length ds)" "M \<le> length (atoms Z)"
    and R: "M < length (atoms R)" "set (drop M (atoms R)) \<subseteq> {0}"
    and loop: "add_loop (take M (atoms Z)) ds 0 = (su, car)" and bs: "bs = su @ (if car \<noteq> 0 then [car] else [])"
  shows "\<exists>xs. overwrite (atoms R) bs = Some xs \<and> wf_mpz (R\<lparr>atoms := xs, used := length bs\<rparr>) \<and>
    mag (R\<lparr>atoms := xs, used := length bs\<rparr>) = mag Z + nval ds"
proof -
  have zs: "length (take M (atoms Z)) = M" using M by simp
  have "set (drop M (atoms Z)) \<subseteq> {0}"
    using Z M(1) set_drop_subset_set_drop [of "used Z" M "atoms Z"] by (auto simp: wf_mpz_def)
  then have vz: "nval (take M (atoms Z)) = mag Z" using wf_nval_atoms [OF Z] by (simp add: take_drop_nval)
  have "length ds \<le> length (take M (atoms Z))" using zs M(1) by simp
  from add_loop_spec [OF this loop] have su: "length su = M" "nval su + 4294967296 ^ M * unat car = mag Z + nval ds"
    using zs vz by auto
  have v: "nval bs = mag Z + nval ds" using su by (auto simp: bs nval_append)
  have len: "length bs \<le> length (atoms R)" "M \<le> length bs" using su(1) R(1) by (simp_all add: bs)
  have "normal bs"
  proof (cases "car = 0")
    case False then show ?thesis by (simp add: bs normal_def)
  next
    case True
    have "4294967296 ^ (M - 1) \<le> mag Z + nval ds" if "M \<noteq> 0"
    proof (cases "M = used Z")
      case True then show ?thesis using mag_ge [OF Z] that by simp
    next
      case False
      then have "M = length ds" using M(1) by simp
      then show ?thesis using nval_normal_ge [OF ds] that by auto
    qed
    then show ?thesis using True su(1) v by (auto simp: normal_iff bs)
  qed
  moreover have "set (drop (length bs) (atoms R)) \<subseteq> {0}"
    using R(2) len(2) set_drop_subset_set_drop [of M "length bs" "atoms R"] by auto
  ultimately show ?thesis using len v by (simp add: overwrite_def wf_mpz_def digits_def mag_def)
qed

text \<open>No pointer to words is used after these were moved.\<close>

definition unmoved :: "bn \<Rightarrow> ptr \<Rightarrow> ptr \<Rightarrow> ptr \<Rightarrow> bool" where
  "unmoved h r z b \<longleftrightarrow> b \<noteq> z \<or> r = z \<or> used (cells h b) = 0 \<or> used (cells h b) < length (atoms (cells h b))"

lemma addi_raw_gives:
  assumes "plenty h" "wf_mpz (cells h r)" "wf_mpz (cells h z)" "wf_mpz (cells h b)"
    and small: "used (cells h z) + 1 < 2 ^ 32" "used (cells h b) + 1 < 2 ^ 32" and un: "unmoved h r z b"
  shows "gives (mpz_addi_raw r z b (used (cells h b)) h) (\<lambda>h'. keeps {r} h h' \<and> wf_mpz (cells h' r) \<and>
    mag (cells h' r) = mag (cells h z) + mag (cells h b) \<and> neg (cells h' r) = neg (cells h r))"
proof -
  let ?c = "same_data h r b" and ?l = "used (cells h b)" and ?Z = "cells h z"
  let ?M = "max (used ?Z) ?l"
  have M: "?M + 1 < 2 ^ 32" using small by simp
  let ?P = "\<lambda>h' :: bn. (if r = z then cells h' = cells h \<and> grants h' = grants h
    else only r h h' \<and> ?M < length (atoms (cells h' r)) \<and> set (atoms (cells h' r)) \<subseteq> {0} \<and> neg (cells h' r) = neg (cells h r))"
  let ?Q = "\<lambda>h'. keeps {r} h h' \<and> ext ?Z (cells h' z) \<and> ?M \<le> length (atoms (cells h' z)) \<and> ?M < length (atoms (cells h' r)) \<and>
    set (drop ?M (atoms (cells h' r))) \<subseteq> {0} \<and> neg (cells h' r) = neg (cells h r) \<and> operand ?c b ?l h h' = Some (digits (cells h b))"
  have 1: "gives (copy_if ?c h) (\<lambda>h1. gives (if r \<noteq> z then mpz_zero_realloc r ?M h1 else Some (SBN_OK, h1)) ?P)"
  proof (rule gives_mono [OF copy_if_gives [OF assms(1)]])
    fix h1 :: bn assume h1: "cells h1 = cells h \<and> grants h1 = grants h"
    show "gives (if r \<noteq> z then mpz_zero_realloc r ?M h1 else Some (SBN_OK, h1)) ?P"
    proof (cases "r = z")
      case False
      have "gives (mpz_zero_realloc r ?M h1) (\<lambda>h'. only r h1 h' \<and> ?M < length (atoms (cells h' r)) \<and>
        set (atoms (cells h' r)) \<subseteq> {0} \<and> used (cells h' r) = 0 \<and> neg (cells h' r) = neg (cells h1 r))"
        by (rule zero_realloc_gives) (use h1 assms M in \<open>simp_all add: plenty_def\<close>)
      then show ?thesis using False h1 by (auto simp: only_def elim!: gives_mono)
    qed (use h1 in simp)
  qed
  have 2: "gives (mpz_realloc z (if r = z then ?M else ?l) h2) ?Q" if P: "?P h2" for h2
  proof -
    have pl: "plenty h2" using P assms(1) by (auto simp: plenty_def only_def split: if_splits)
    have z2: "cells h2 z = ?Z" using P by (auto simp: only_def split: if_splits)
    have "gives (mpz_realloc z (if r = z then ?M else ?l) h2) (\<lambda>h'. only z h2 h' \<and> ext (cells h2 z) (cells h' z) \<and>
      (if r = z then ?M else ?l) < length (atoms (cells h' z)) \<and> ((if r = z then ?M else ?l) < length (atoms (cells h2 z)) \<longrightarrow> h' = h2))"
      by (rule realloc_gives [OF pl]) (use M small in simp)
    then show ?thesis
    proof (rule gives_mono)
      fix h3
      assume h3: "only z h2 h3 \<and> ext (cells h2 z) (cells h3 z) \<and>
        (if r = z then ?M else ?l) < length (atoms (cells h3 z)) \<and> ((if r = z then ?M else ?l) < length (atoms (cells h2 z)) \<longrightarrow> h3 = h2)"
      then have e: "ext ?Z (cells h3 z)" by (simp add: z2)
      have wz: "wf_mpz (cells h3 z)" "used (cells h3 z) = used ?Z" using ext_props [OF e] assms by auto
      have k: "keeps {r} h h3" using P h3 e by (auto simp: keeps_def only_def split: if_splits)
      have lz: "?M \<le> length (atoms (cells h3 z))" using h3 wz by (auto simp: wf_mpz_def split: if_splits)
      have lr: "?M < length (atoms (cells h3 r)) \<and> set (drop ?M (atoms (cells h3 r))) \<subseteq> {0}"
      proof (cases "r = z")
        case True
        then show ?thesis using h3 wz set_drop_subset_set_drop [of "used ?Z" ?M "atoms (cells h3 z)"] by (auto simp: wf_mpz_def)
      next
        case False
        then show ?thesis using P h3 set_drop_subset [of ?M "atoms (cells h3 r)"] by (auto simp: only_def)
      qed
      have "?c \<or> cells h3 b = cells h b \<or> ?l = 0"
      proof (cases "b = z")
        case True
        then show ?thesis using un h3 P z2 by (auto simp: unmoved_def same_data_def split: if_splits)
      next
        case False
        then show ?thesis using h3 P by (auto simp: only_def same_data_def split: if_splits)
      qed
      then have "operand ?c b ?l h h3 = Some (digits (cells h b))" by (rule operand_eq [OF assms(4)])
      moreover have "neg (cells h3 r) = neg (cells h r)"
        using P h3 ext_props(2) [OF e] by (auto simp: only_def split: if_splits)
      ultimately show "?Q h3" using k e lz lr by blast
    qed
  qed
  have 3: "gives (do {
        ds \<leftarrow> operand ?c b ?l h h3;
        zs \<leftarrow> first_words (max (used (cells h3 z)) ?l) (atoms (cells h3 z));
        let (su, car) = add_loop zs ds 0;
        let bs = su @ (if car \<noteq> 0 then [car] else []);
        xs \<leftarrow> overwrite (atoms (cells h3 r)) bs;
        Some (SBN_OK, upd r (\<lambda>m. m\<lparr>atoms := xs, used := length bs\<rparr>) h3)
      }) (\<lambda>h'. keeps {r} h h' \<and> wf_mpz (cells h' r) \<and> mag (cells h' r) = mag (cells h z) + mag (cells h b) \<and> neg (cells h' r) = neg (cells h r))"
    if Q: "?Q h3" for h3
  proof -
    have e: "ext ?Z (cells h3 z)" using Q by blast
    have wz: "wf_mpz (cells h3 z)" "used (cells h3 z) = used ?Z" "mag (cells h3 z) = mag ?Z" using ext_props [OF e] assms by auto
    obtain su car where loop: "add_loop (take ?M (atoms (cells h3 z))) (digits (cells h b)) 0 = (su, car)" by fastforce
    define bs where "bs = su @ (if car \<noteq> 0 then [car] else [])"
    have "normal (digits (cells h b))" using assms(4) by (simp add: wf_mpz_def)
    moreover have "?M = max (used (cells h3 z)) (length (digits (cells h b)))" using length_digits [OF assms(4)] wz by simp
    ultimately obtain xs where xs: "overwrite (atoms (cells h3 r)) bs = Some xs" "wf_mpz ((cells h3 r)\<lparr>atoms := xs, used := length bs\<rparr>)"
      "mag ((cells h3 r)\<lparr>atoms := xs, used := length bs\<rparr>) = mag ?Z + nval (digits (cells h b))"
      using add_finish [OF wz(1), of "digits (cells h b)" ?M "cells h3 r" su car bs] Q loop bs_def wz(3) by auto
    show ?thesis
      by (cases "car = 0")
        (use Q loop xs in \<open>simp_all add: wz first_words_def bs_def keeps_upd_iff mag_def [of "cells h b"]\<close>)
  qed
  show ?thesis unfolding mpz_addi_raw_def Let_def gives_ok_then
    by (rule gives_mono [OF 1], erule gives_mono, rule gives_mono [OF 2], assumption, rule 3 [unfolded Let_def])
qed

lemma subi_raw_gives:
  assumes "plenty h" "wf_mpz (cells h r)" "wf_mpz (cells h z)" "wf_mpz (cells h b)"
    and small: "used (cells h z) + 1 < 2 ^ 32" and le: "mag (cells h b) \<le> mag (cells h z)"
  shows "gives (mpz_subi_raw r z b (used (cells h b)) h) (\<lambda>h'. only r h h' \<and> wf_mpz (cells h' r) \<and>
    mag (cells h' r) = mag (cells h z) - mag (cells h b) \<and> (r = z \<longrightarrow> length (atoms (cells h' r)) = length (atoms (cells h r)) \<and>
      (mag (cells h z) \<noteq> 0 \<longrightarrow> neg (cells h' r) = (neg (cells h r) \<and> mag (cells h' r) \<noteq> 0))))"
proof -
  let ?c = "same_data h r b" and ?l = "used (cells h b)" and ?Z = "cells h z"
  have lu: "?l \<le> used ?Z" using used_le [OF assms(4)] mag_less [OF assms(3)] le by (meson order.strict_trans1)
  let ?P = "\<lambda>h' :: bn. only r h h' \<and> cells h' z = ?Z \<and> used ?Z \<le> length (atoms (cells h' r)) \<and>
    set (drop (used ?Z) (atoms (cells h' r))) \<subseteq> {0} \<and> operand ?c b ?l h h' = Some (digits (cells h b))"
  have 1: "gives (copy_if ?c h) (\<lambda>h1. gives (if r \<noteq> z then mpz_set r z h1 else Some (SBN_OK, h1)) ?P)"
  proof (rule gives_mono [OF copy_if_gives [OF assms(1)]])
    fix h1 :: bn assume h1: "cells h1 = cells h \<and> grants h1 = grants h"
    have op: "operand ?c b ?l h h' = Some (digits (cells h b))" if "only r h h'" for h'
      using that by (intro operand_eq [OF assms(4)]) (auto simp: same_data_def only_def)
    have o1: "only r h h1" using h1 by (simp add: only_def)
    show "gives (if r \<noteq> z then mpz_set r z h1 else Some (SBN_OK, h1)) ?P"
    proof (cases "r = z")
      case True
      then show ?thesis using h1 assms(3) op [OF o1] o1 by (simp add: wf_mpz_def)
    next
      case False
      have "gives (mpz_set r z h1) (\<lambda>h'. only r h1 h' \<and> wf_mpz (cells h' r) \<and> digits (cells h' r) = digits (cells h1 z) \<and>
        used (cells h' r) = used (cells h1 z) \<and> neg (cells h' r) = neg (cells h1 z) \<and> used (cells h1 z) < length (atoms (cells h' r)))"
        by (rule set_gives) (use h1 assms small False in \<open>simp_all add: plenty_def\<close>)
      then have "gives (mpz_set r z h1) ?P"
      proof (rule gives_mono)
        fix h2 assume h2: "only r h1 h2 \<and> wf_mpz (cells h2 r) \<and> digits (cells h2 r) = digits (cells h1 z) \<and>
          used (cells h2 r) = used (cells h1 z) \<and> neg (cells h2 r) = neg (cells h1 z) \<and> used (cells h1 z) < length (atoms (cells h2 r))"
        then have o2: "only r h h2" using o1 by (blast intro: only_trans)
        then show "?P h2" using h1 h2 False op [OF o2] by (auto simp: wf_mpz_def only_def)
      qed
      then show ?thesis using False by simp
    qed
  qed
  have 2: "gives (do {
        ds \<leftarrow> operand ?c b ?l h h2;
        zs \<leftarrow> first_words (max (used (cells h2 z)) ?l) (atoms (cells h2 z));
        xs \<leftarrow> overwrite (atoms (cells h2 r)) (sub_loop zs ds 0);
        Some (SBN_OK, upd r (\<lambda>m. mpz_normalize (m\<lparr>atoms := xs, used := length zs\<rparr>)) h2)
      }) (\<lambda>h'. only r h h' \<and> wf_mpz (cells h' r) \<and> mag (cells h' r) = mag (cells h z) - mag (cells h b) \<and>
        (r = z \<longrightarrow> length (atoms (cells h' r)) = length (atoms (cells h r)) \<and>
      (mag (cells h z) \<noteq> 0 \<longrightarrow> neg (cells h' r) = (neg (cells h r) \<and> mag (cells h' r) \<noteq> 0))))"
    if P: "?P h2" for h2
  proof -
    let ?w = "sub_loop (digits ?Z) (digits (cells h b)) 0"
    let ?xs = "?w @ drop (used ?Z) (atoms (cells h2 r))"
    have w: "length ?w = used ?Z" "int (nval ?w) = int (mag ?Z) - int (mag (cells h b))"
      using sub_loop_spec [of "digits (cells h b)" "digits ?Z" 0] lu le assms by (simp_all add: length_digits mag_def)
    then have "nval ?w = mag ?Z - mag (cells h b)" by linarith
    moreover have "nval (drop (used ?Z) (atoms (cells h2 r))) = 0" using P by (simp add: nval_zeros)
    ultimately have v: "nval ?xs = mag ?Z - mag (cells h b)" by (simp add: nval_append)
    have "wf_mpz (mpz_normalize (m\<lparr>atoms := ?xs, used := used ?Z\<rparr>)) \<and>
        mag (mpz_normalize (m\<lparr>atoms := ?xs, used := used ?Z\<rparr>)) = nval ?xs \<and>
        (mag ?Z \<noteq> 0 \<longrightarrow> neg (mpz_normalize (m\<lparr>atoms := ?xs, used := used ?Z\<rparr>)) = (neg m \<and> nval ?xs \<noteq> 0))" for m
    proof (cases "?xs = []")
      case True
      then have "used ?Z = 0" using w(1) by simp
      then have "mag ?Z = 0" by (simp add: mag_def digits_def)
      then show ?thesis using True \<open>used ?Z = 0\<close> by (simp add: mpz_normalize_def wf_mpz_def normal_def digits_def mag_def)
    next
      case False
      then show ?thesis using normalize_wf [of "m\<lparr>atoms := ?xs, used := used ?Z\<rparr>"] by simp
    qed
    note N = this
    define n where "n = mpz_normalize ((cells h2 r)\<lparr>atoms := ?xs, used := used ?Z\<rparr>)"
    have n: "wf_mpz n" "mag n = nval ?xs" "mag ?Z \<noteq> 0 \<longrightarrow> neg n = (neg (cells h2 r) \<and> nval ?xs \<noteq> 0)" "atoms n = ?xs"
      using N [of "cells h2 r"] unfolding n_def by simp_all
    have "used ?Z \<le> length (atoms ?Z)" using assms(3) by (simp add: wf_mpz_def)
    then have e: "(do {
        ds \<leftarrow> operand ?c b ?l h h2;
        zs \<leftarrow> first_words (max (used (cells h2 z)) ?l) (atoms (cells h2 z));
        xs \<leftarrow> overwrite (atoms (cells h2 r)) (sub_loop zs ds 0);
        Some (SBN_OK, upd r (\<lambda>m. mpz_normalize (m\<lparr>atoms := xs, used := length zs\<rparr>)) h2)
      }) = Some (SBN_OK, poke r n h2)"
      using P w(1) lu
      by (simp add: first_words_def length_digits [OF assms(3)] digits_def [symmetric] overwrite_def max_def upd_def n_def)
    show ?thesis unfolding e using n P v w(1) by (auto simp: only_put)
  qed
  show ?thesis unfolding mpz_subi_raw_def Let_def gives_ok_then
    by (rule gives_mono [OF 1], erule gives_mono, rule 2)
qed

section \<open>Addition and subtraction of signed numbers\<close>

lemma set_neg_gives: "gives (set_neg r s m) Q \<longleftrightarrow> gives m (\<lambda>h. Q (upd r (\<lambda>m. m\<lparr>neg := s\<rparr>) h))"
  by (auto simp: set_neg_def gives_def)

lemma set_negative_gives: "gives (set_negative r m) Q \<longleftrightarrow> gives m (\<lambda>h. Q (upd r (\<lambda>m. m\<lparr>neg := (used m \<noteq> 0)\<rparr>) h))"
  by (auto simp: set_negative_def gives_def)

lemma copy_neg_gives: "gives (copy_neg r a m) Q \<longleftrightarrow> gives m (\<lambda>h. Q (upd r (\<lambda>m. m\<lparr>neg := neg (cells h a)\<rparr>) h))"
  by (auto simp: copy_neg_def gives_def)

lemma neg_props [simp]: "mag (z\<lparr>neg := s\<rparr>) = mag z" "wf_mpz (z\<lparr>neg := s\<rparr>) = wf_mpz z" "digits (z\<lparr>neg := s\<rparr>) = digits z"
  by (simp_all add: mag_def digits_def wf_mpz_def)

lemma ival_neg: "ival (z\<lparr>neg := s\<rparr>) = (if s then - int (mag z) else int (mag z))"
  by (simp add: ival_def)

lemma addi_signed:
  assumes "plenty h" "wf_mpz (cells h r)" "wf_mpz (cells h a)" "wf_mpz (cells h b)"
    "used (cells h a) + 1 < 2 ^ 32" "used (cells h b) + 1 < 2 ^ 32" "unmoved h r a b"
  shows "gives (copy_neg r a (mpz_addi_raw r a b (used (cells h b)) h)) (\<lambda>h'. keeps {r} h h' \<and>
    has h' r (if neg (cells h a) then - int (mag (cells h a) + mag (cells h b)) else int (mag (cells h a) + mag (cells h b))))"
  unfolding copy_neg_gives
proof (rule gives_mono [OF addi_raw_gives [OF assms]])
  fix h' assume h': "keeps {r} h h' \<and> wf_mpz (cells h' r) \<and> mag (cells h' r) = mag (cells h a) + mag (cells h b) \<and> neg (cells h' r) = neg (cells h r)"
  have "neg (cells h' a) = neg (cells h a)"
  proof (cases "a = r")
    case False then show ?thesis using h' ext_props(2) [OF keeps_ext] by blast
  qed (use h' in simp)
  then show "keeps {r} h (upd r (\<lambda>m. m\<lparr>neg := neg (cells h' a)\<rparr>) h') \<and> has (upd r (\<lambda>m. m\<lparr>neg := neg (cells h' a)\<rparr>) h') r
    (if neg (cells h a) then - int (mag (cells h a) + mag (cells h b)) else int (mag (cells h a) + mag (cells h b)))"
    using h' by (simp add: keeps_upd_iff has_def ival_neg)
qed

lemma subi_signed:
  assumes "plenty h" "wf_mpz (cells h r)" "wf_mpz (cells h z)" "wf_mpz (cells h b)"
    "used (cells h z) + 1 < 2 ^ 32" "mag (cells h b) \<le> mag (cells h z)"
  shows "gives (set_neg r False (mpz_subi_raw r z b (used (cells h b)) h))
      (\<lambda>h'. keeps {r} h h' \<and> has h' r (int (mag (cells h z)) - int (mag (cells h b))))"
    "gives (set_negative r (mpz_subi_raw r z b (used (cells h b)) h))
      (\<lambda>h'. keeps {r} h h' \<and> has h' r (int (mag (cells h b)) - int (mag (cells h z))))"
  unfolding set_neg_gives set_negative_gives
  using assms(6) used_0_iff
  by (auto intro!: gives_mono [OF subi_raw_gives [OF assms]] simp: only_keeps1 keeps_upd_iff has_def ival_neg of_nat_diff)

lemma mpz_add_gives:
  assumes "plenty h" "wf_mpz (cells h r)" "wf_mpz (cells h a)" "wf_mpz (cells h b)"
    "used (cells h a) + 1 < 2 ^ 32" "used (cells h b) + 1 < 2 ^ 32" "unmoved h r a b"
  shows "gives (mpz_add r a b h) (\<lambda>h'. keeps {r} h h' \<and> has h' r (ival (cells h a) + ival (cells h b)))"
proof -
  have c: "mpz_cmpabs (cells h a) (cells h b) \<ge> 0 \<longleftrightarrow> mag (cells h b) \<le> mag (cells h a)"
    using assms cmpabs_ge_iff by blast
  show ?thesis
    unfolding mpz_add_def Let_def c
    using addi_signed [OF assms] subi_signed [OF assms(1,2,3,4,5)] subi_signed [OF assms(1,2,4,3,6)]
    by (auto simp: ival_def elim!: gives_mono)
qed

lemma mpz_sub_gives:
  assumes "plenty h" "wf_mpz (cells h r)" "wf_mpz (cells h a)" "wf_mpz (cells h b)"
    "used (cells h a) + 1 < 2 ^ 32" "used (cells h b) + 1 < 2 ^ 32" "unmoved h r a b"
  shows "gives (mpz_sub r a b h) (\<lambda>h'. keeps {r} h h' \<and> has h' r (ival (cells h a) - ival (cells h b)))"
proof -
  have c: "mpz_cmpabs (cells h a) (cells h b) \<ge> 0 \<longleftrightarrow> mag (cells h b) \<le> mag (cells h a)"
    using assms cmpabs_ge_iff by blast
  show ?thesis
    unfolding mpz_sub_def Let_def c
    using addi_signed [OF assms] subi_signed [OF assms(1,2,3,4,5)] subi_signed [OF assms(1,2,4,3,6)]
    by (auto simp: ival_def elim!: gives_mono)
qed

section \<open>Properties\<close>

text \<open>C38. Comparison decides the order of the integers, and numbers compare equal only if they have the
  same words and sign: the normal form that the operations keep represents each integer once (apart from
  the sign of 0).\<close>

theorem cmp_canonical:
  assumes "wf_mpz x" "wf_mpz y"
  shows "mpz_cmp x y = sgn (ival x - ival y) \<and>
    (mpz_cmp x y = 0 \<longleftrightarrow> digits x = digits y \<and> (neg x = neg y \<or> used x = 0))"
proof -
  have eq: "digits x = digits y" if "mag x = mag y"
  proof (rule nval_inj)
    show "nval (digits x) = nval (digits y)" using that by (simp add: mag_def)
    have "used x \<le> used y" "used y \<le> used x"
      using used_le [OF assms(1)] used_le [OF assms(2)] mag_less [OF assms(1)] mag_less [OF assms(2)] that by simp_all
    then show "length (digits x) = length (digits y)" using assms by (simp add: length_digits)
  qed
  have mag: "mag x = mag y" if "digits x = digits y" using that by (simp add: mag_def)
  have "mpz_cmp x y = 0 \<longleftrightarrow> ival x = ival y" using cmp_sgn [OF assms] by (simp add: sgn_0_0)
  also have "\<dots> \<longleftrightarrow> mag x = mag y \<and> (neg x = neg y \<or> used x = 0)"
    using used_0_iff [OF assms(1)] by (auto simp: ival_def)
  also have "\<dots> \<longleftrightarrow> digits x = digits y \<and> (neg x = neg y \<or> used x = 0)" using eq mag by (intro conj_cong iffI) simp_all
  finally show ?thesis using cmp_sgn [OF assms] by blast
qed

theorem cmp_canonical_witness:
  "mpz_cmp \<lparr>atoms = [7, 0], used = 1, neg = True\<rparr> \<lparr>atoms = [9], used = 1, neg = True\<rparr> = 1"
  using cmp_canonical [of "\<lparr>atoms = [7, 0], used = 1, neg = True\<rparr>" "\<lparr>atoms = [9], used = 1, neg = True\<rparr>"]
  by (simp add: wf_mpz_def digits_def normal_def ival_def mag_def)

end
