(* ===== verification/Bigmul.thy ===== *)
theory Bigmul
  imports Bigadd
begin

text \<open>
  Multiplication and factorial of sbignum.c, and the operations with a machine integer.
\<close>

section \<open>Multiplication\<close>

text \<open>One turn of the outer loop: \<open>d\<close> times the words \<open>zs\<close> is added to the words from the current
  position on; the last carry is stored, not added.\<close>

fun mul_row :: "u32 \<Rightarrow> u32 list \<Rightarrow> u32 list \<Rightarrow> u32 \<Rightarrow> u32 list option" where
  "mul_row d [] rs car = (if car = 0 then Some rs else case rs of [] \<Rightarrow> None | r # rs \<Rightarrow> Some (car # rs))"
| "mul_row d (z # zs) [] car = None"
| "mul_row d (z # zs) (r # rs) car =
     (let mul = ucast d * ucast z + ucast car + ucast r :: u64
      in map_option ((#) (ucast mul)) (mul_row d zs rs (ucast (drop_bit 32 mul))))"

text \<open>The outer loop; each turn starts one word further on.\<close>

fun mul_rows :: "u32 list \<Rightarrow> u32 list \<Rightarrow> u32 list \<Rightarrow> u32 list option" where
  "mul_rows [] zs rs = Some rs"
| "mul_rows (d # ds) zs rs = Option.bind (mul_row d zs rs 0) (\<lambda>rs.
     case rs of [] \<Rightarrow> mul_rows ds zs [] | r # rs \<Rightarrow> map_option ((#) r) (mul_rows ds zs rs))"

text \<open>If the target is the factor the product is built in a local number.  When the target cannot be
  allocated, the local number \<open>t\<close> is freed before it was initialised.\<close>

definition mpz_muli_raw :: "ptr \<Rightarrow> ptr \<Rightarrow> ptr \<Rightarrow> nat \<Rightarrow> bn \<Rightarrow> outcome" where
  "mpz_muli_raw r z b l h0 =
     (let maxi = (used (cells h0 z) + l) mod 2 ^ 32; copied = same_data h0 r b; tmp = (r = z);
          t = (if tmp then Muli_rt else r) in
      ok_then (copy_if copied h0) (\<lambda>h.
      let h = (if tmp then poke t (zero_mpz\<lparr>neg := neg (cells h r)\<rparr>) h else h) in
      Option.bind (mpz_zero_realloc t maxi h) (\<lambda>(e, h). if e \<noteq> SBN_OK then None else
      ok_then (allocate h) (\<lambda>h. do {
        ds \<leftarrow> operand copied b l h0 h;
        zs \<leftarrow> first_words (used (cells h z)) (atoms (cells h z));
        xs \<leftarrow> mul_rows ds zs (atoms (cells h t));
        let h = upd t (\<lambda>m. mpz_normalize (m\<lparr>atoms := xs, used := maxi\<rparr>)) h;
        (if tmp then mpz_set r t h else Some (SBN_OK, h))
      }))))"

definition mpz_mul :: "ptr \<Rightarrow> ptr \<Rightarrow> ptr \<Rightarrow> bn \<Rightarrow> outcome" where
  "mpz_mul r z f h =
     (let h = upd r (\<lambda>m. m\<lparr>neg := (neg (cells h z) \<noteq> neg (cells h f))\<rparr>) h
      in mpz_muli_raw r z f (used (cells h f)) h)"

definition mpz_mul_ui :: "ptr \<Rightarrow> ptr \<Rightarrow> u32 \<Rightarrow> bn \<Rightarrow> outcome" where
  "mpz_mul_ui r z u h =
     (let h = upd r (\<lambda>m. m\<lparr>neg := neg (cells h z)\<rparr>) (poke Imm (u32pack u) h)
      in mpz_muli_raw r z Imm (used (u32pack u)) h)"

definition mpz_mul_si :: "ptr \<Rightarrow> ptr \<Rightarrow> 32 word \<Rightarrow> bn \<Rightarrow> outcome" where
  "mpz_mul_si r z v h =
     (let h = upd r (\<lambda>m. m\<lparr>neg := (neg (cells h z) \<noteq> (sint v < 0))\<rparr>) (poke Imm (s32pack v) h)
      in mpz_muli_raw r z Imm (used (s32pack v)) h)"

text \<open>The factorial, from the factor \<open>j\<close> on.\<close>

primrec fac_loop :: "nat \<Rightarrow> nat \<Rightarrow> ptr \<Rightarrow> bn \<Rightarrow> outcome" where
  "fac_loop 0 j r h = Some (SBN_OK, h)"
| "fac_loop (Suc n) j r h = ok_then (mpz_mul_ui r r (of_nat j) h) (fac_loop n (j + 1) r)"

definition mpz_fac_ui :: "ptr \<Rightarrow> u32 \<Rightarrow> bn \<Rightarrow> outcome" where
  "mpz_fac_ui r i h =
     (if i = 0 then map_option (\<lambda>(e, h). (SBN_OK, h)) (mpz_setzero r h)
      else ok_then (mpz_set_ui r 1 h) (fac_loop (unat i - 1) 2 r))"

section \<open>The loops\<close>

lemma unat32_mod64: "unat (w :: u32) mod 18446744073709551616 = unat w"
  using unat32_less [of w] by (intro mod_less) linarith

lemma mul64: "unat (ucast (d :: u32) * ucast (z :: u32) + ucast (car :: u32) + ucast (r :: u32) :: u64)
    = unat d * unat z + unat car + unat r"
proof -
  have "unat d * unat z \<le> 4294967295 * 4294967295"
    using unat32_less [of d] unat32_less [of z] by (intro mult_le_mono) linarith+
  then have "unat d * unat z + unat car + unat r < 18446744073709551616"
    using unat32_less [of car] unat32_less [of r] by linarith
  then show ?thesis by (simp add: unat_word_ariths unat_ucast_mod mod_add_eq mod_add_left_eq unat32_mod64)
qed

lemma mul_row_spec:
  assumes "length zs < length rs" "set (drop (length zs) rs) \<subseteq> {0}"
  shows "\<exists>rs'. mul_row d zs rs car = Some rs' \<and> length rs' = length rs \<and>
    nval rs' = nval rs + unat d * nval zs + unat car \<and> set (drop (length zs + 1) rs') \<subseteq> {0}"
  using assms
proof (induction zs arbitrary: rs car)
  case Nil
  then obtain rs1 where "rs = 0 # rs1" "set rs1 \<subseteq> {0}" by (cases rs) auto
  then show ?case by simp
next
  case (Cons z zs)
  then obtain r rs1 where rs: "rs = r # rs1" by (cases rs) auto
  let ?w = "ucast d * ucast z + ucast car + ucast r :: u64"
  obtain rs' where "mul_row d zs rs1 (ucast (drop_bit 32 ?w)) = Some rs'" "length rs' = length rs1"
    "nval rs' = nval rs1 + unat d * nval zs + unat (ucast (drop_bit 32 ?w) :: u32)" "set (drop (length zs + 1) rs') \<subseteq> {0}"
    using Cons.IH [of rs1 "ucast (drop_bit 32 ?w)"] Cons.prems by (auto simp: rs)
  then show ?case using split64 [of ?w] unfolding mul64 by (simp add: rs Let_def algebra_simps)
qed

lemma mul_rows_spec:
  assumes "length zs + length ds \<le> length rs" "set (drop (length zs) rs) \<subseteq> {0}"
  shows "\<exists>rs'. mul_rows ds zs rs = Some rs' \<and> length rs' = length rs \<and> nval rs' = nval rs + nval ds * nval zs"
  using assms
proof (induction ds arbitrary: rs)
  case (Cons d ds)
  have "length zs < length rs" using Cons.prems(1) by simp
  from mul_row_spec [OF this Cons.prems(2), of d 0]
  obtain rs1 where rs1: "mul_row d zs rs 0 = Some rs1" "length rs1 = length rs" "nval rs1 = nval rs + unat d * nval zs"
    "set (drop (length zs + 1) rs1) \<subseteq> {0}" by auto
  then obtain r rs2 where rs2: "rs1 = r # rs2" using Cons.prems(1) by (cases rs1) auto
  have "\<exists>rs'. mul_rows ds zs rs2 = Some rs' \<and> length rs' = length rs2 \<and> nval rs' = nval rs2 + nval ds * nval zs"
    by (rule Cons.IH) (use Cons.prems rs1 rs2 in auto)
  then show ?case using rs1 rs2 by (auto simp: algebra_simps)
qed simp

section \<open>Multiplication is correct\<close>

lemma muli_raw_gives:
  assumes "plenty h" "wf_mpz (cells h r)" "wf_mpz (cells h z)" "wf_mpz (cells h b)"
    and small: "used (cells h z) + used (cells h b) + 1 < 2 ^ 32"
    and locals: "r \<noteq> Muli_rt" "z \<noteq> Muli_rt" "b \<noteq> Muli_rt"
  shows "gives (mpz_muli_raw r z b (used (cells h b)) h) (\<lambda>h'. keeps {r, Muli_rt} h h' \<and> wf_mpz (cells h' r) \<and>
    mag (cells h' r) = mag (cells h z) * mag (cells h b) \<and>
    neg (cells h' r) = (neg (cells h r) \<and> mag (cells h' r) \<noteq> 0))"
proof -
  let ?c = "same_data h r b" and ?l = "used (cells h b)" and ?Z = "cells h z" and ?t = "if r = z then Muli_rt else r"
  define M where "M = (used ?Z + ?l) mod 2 ^ 32"
  have M: "M = used ?Z + ?l" "M + 1 < 2 ^ 32" using small by (simp_all add: M_def)
  let ?h = "\<lambda>h1 :: bn. if r = z then poke ?t (zero_mpz\<lparr>neg := neg (cells h1 r)\<rparr>) h1 else h1"
  let ?Q = "\<lambda>h' :: bn. keeps {r, Muli_rt} h h' \<and> plenty h' \<and> cells h' z = ?Z \<and> (r = z \<longrightarrow> cells h' r = cells h r) \<and>
    M < length (atoms (cells h' ?t)) \<and> set (atoms (cells h' ?t)) \<subseteq> {0} \<and> neg (cells h' ?t) = neg (cells h r) \<and>
    operand ?c b ?l h h' = Some (digits (cells h b))"
  have 1: "gives (mpz_zero_realloc ?t M (?h h1)) (\<lambda>h2. gives (allocate h2) ?Q)" if h1: "cells h1 = cells h" "grants h1 = grants h" for h1 :: bn
  proof -
    have pl: "plenty (?h h1)" using assms(1) h1 by (simp add: plenty_def)
    have wt: "wf_mpz (cells (?h h1) ?t)" using assms h1 by (simp add: locals)
    show ?thesis
    proof (rule gives_mono [OF zero_realloc_gives [OF pl M(2) wt]])
      fix h2 assume h2: "only ?t (?h h1) h2 \<and> M < length (atoms (cells h2 ?t)) \<and> set (atoms (cells h2 ?t)) \<subseteq> {0} \<and>
        used (cells h2 ?t) = 0 \<and> neg (cells h2 ?t) = neg (cells (?h h1) ?t)"
      have *: "operand ?c b ?l h h3 = Some (digits (cells h b))" if "cells h3 = cells h2" for h3
        by (rule operand_eq [OF assms(4)]) (use h1 h2 locals that in \<open>auto simp: same_data_def only_def split: if_splits\<close>)
      show "gives (allocate h2) ?Q"
        using h1 h2 * assms(1) locals
        by (auto simp: allocate_def plenty_def only_def keeps_def split: if_splits)
    qed
  qed
  have 2: "gives (do {
        ds \<leftarrow> operand ?c b ?l h h3;
        zs \<leftarrow> first_words (used (cells h3 z)) (atoms (cells h3 z));
        xs \<leftarrow> mul_rows ds zs (atoms (cells h3 ?t));
        let h = upd ?t (\<lambda>m. mpz_normalize (m\<lparr>atoms := xs, used := M\<rparr>)) h3;
        (if r = z then mpz_set r ?t h else Some (SBN_OK, h))
      }) (\<lambda>h'. keeps {r, Muli_rt} h h' \<and> wf_mpz (cells h' r) \<and> mag (cells h' r) = mag (cells h z) * mag (cells h b) \<and>
        neg (cells h' r) = (neg (cells h r) \<and> mag (cells h' r) \<noteq> 0))"
    if Q: "?Q h3" for h3
  proof -
    have len: "length (digits ?Z) + length (digits (cells h b)) \<le> length (atoms (cells h3 ?t))"
      using Q M assms by (simp add: length_digits)
    have "set (drop (length (digits ?Z)) (atoms (cells h3 ?t))) \<subseteq> {0}" using Q set_drop_subset by (metis subset_trans)
    from mul_rows_spec [OF len this] obtain xs where xs: "mul_rows (digits (cells h b)) (digits ?Z) (atoms (cells h3 ?t)) = Some xs"
      "length xs = length (atoms (cells h3 ?t))" "nval xs = nval (atoms (cells h3 ?t)) + nval (digits (cells h b)) * nval (digits ?Z)"
      by blast
    have v: "nval xs = mag ?Z * mag (cells h b)" using xs(3) Q by (simp add: nval_zeros mag_def)
    have "xs \<noteq> []" using xs(2) Q by auto
    then have n: "wf_mpz (mpz_normalize (m\<lparr>atoms := xs, used := M\<rparr>))" "mag (mpz_normalize (m\<lparr>atoms := xs, used := M\<rparr>)) = nval xs"
      "neg (mpz_normalize (m\<lparr>atoms := xs, used := M\<rparr>)) = (neg m \<and> nval xs \<noteq> 0)" for m
      using normalize_wf [of "m\<lparr>atoms := xs, used := M\<rparr>"] by simp_all
    let ?h4 = "upd ?t (\<lambda>m. mpz_normalize (m\<lparr>atoms := xs, used := M\<rparr>)) h3"
    have t4: "wf_mpz (cells ?h4 ?t)" "mag (cells ?h4 ?t) = nval xs" "neg (cells ?h4 ?t) = (neg (cells h r) \<and> nval xs \<noteq> 0)"
      using n [of "cells h3 ?t"] Q by simp_all
    have k4: "keeps {r, Muli_rt} h ?h4" using Q by (simp add: keeps_upd_iff)
    have "gives (if r = z then mpz_set r ?t ?h4 else Some (SBN_OK, ?h4)) (\<lambda>h'. keeps {r, Muli_rt} h h' \<and> wf_mpz (cells h' r) \<and>
       mag (cells h' r) = mag (cells h z) * mag (cells h b) \<and> neg (cells h' r) = (neg (cells h r) \<and> mag (cells h' r) \<noteq> 0))"
    proof (cases "r = z")
      case False
      then show ?thesis using t4 k4 v by simp
    next
      case True
      have "mag (cells ?h4 Muli_rt) < 4294967296 ^ M"
      proof -
        have "mag ?Z * mag (cells h b) < 4294967296 ^ used ?Z * 4294967296 ^ ?l"
          using mag_less [OF assms(3)] mag_less [OF assms(4)] by (intro mult_strict_mono) simp_all
        then show ?thesis using t4 v True by (simp add: M(1) power_add)
      qed
      then have u: "used (cells ?h4 Muli_rt) + 1 < 2 ^ 32" using used_le [of "cells ?h4 Muli_rt" M] t4 True M(2) by simp
      have "gives (mpz_set r Muli_rt ?h4) (\<lambda>h'. only r ?h4 h' \<and> wf_mpz (cells h' r) \<and> digits (cells h' r) = digits (cells ?h4 Muli_rt) \<and>
         used (cells h' r) = used (cells ?h4 Muli_rt) \<and> neg (cells h' r) = neg (cells ?h4 Muli_rt) \<and>
         used (cells ?h4 Muli_rt) < length (atoms (cells h' r)))"
        by (rule set_gives) (use Q True t4 u assms(2) locals in \<open>simp_all\<close>)
      then have "gives (mpz_set r Muli_rt ?h4) (\<lambda>h'. keeps {r, Muli_rt} h h' \<and> wf_mpz (cells h' r) \<and>
         mag (cells h' r) = mag (cells h z) * mag (cells h b) \<and> neg (cells h' r) = (neg (cells h r) \<and> mag (cells h' r) \<noteq> 0))"
      proof (rule gives_mono)
        fix h' assume h': "only r ?h4 h' \<and> wf_mpz (cells h' r) \<and> digits (cells h' r) = digits (cells ?h4 Muli_rt) \<and>
         used (cells h' r) = used (cells ?h4 Muli_rt) \<and> neg (cells h' r) = neg (cells ?h4 Muli_rt) \<and>
         used (cells ?h4 Muli_rt) < length (atoms (cells h' r))"
        then have "keeps {r, Muli_rt} ?h4 h'" by (auto intro: only_keeps)
        then have "keeps {r, Muli_rt} h h'" using k4 by (blast intro: keeps_step)
        moreover have "mag (cells h' r) = nval xs" using h' t4(2) True by (simp add: mag_def)
        ultimately show "keeps {r, Muli_rt} h h' \<and> wf_mpz (cells h' r) \<and>
         mag (cells h' r) = mag (cells h z) * mag (cells h b) \<and> neg (cells h' r) = (neg (cells h r) \<and> mag (cells h' r) \<noteq> 0)"
          using h' v t4(3) True by simp
      qed
      then show ?thesis using True by simp
    qed
    moreover have "first_words (used (cells h3 z)) (atoms (cells h3 z)) = Some (digits ?Z)"
      using Q assms(3) by (simp add: first_words_def wf_mpz_def digits_def)
    ultimately show ?thesis using Q xs by (simp add: Let_def)
  qed
  show ?thesis
    unfolding mpz_muli_raw_def Let_def gives_ok_then M_def [symmetric]
  proof (rule gives_mono [OF copy_if_gives [OF assms(1)]])
    fix h1 :: bn assume h1: "cells h1 = cells h \<and> grants h1 = grants h"
    then have "gives (mpz_zero_realloc ?t M (?h h1)) (\<lambda>h2. gives (allocate h2) ?Q)" by (intro 1) blast+
    then obtain h2 where h2: "mpz_zero_realloc ?t M (?h h1) = Some (SBN_OK, h2)" "gives (allocate h2) ?Q"
      by (rule givesE)
    show "gives (Option.bind (mpz_zero_realloc ?t M (?h h1)) (\<lambda>(e, h'). if e \<noteq> SBN_OK then None else
      ok_then (allocate h') (\<lambda>h3. operand ?c b ?l h h3 \<bind> (\<lambda>ds. first_words (used (cells h3 z)) (atoms (cells h3 z)) \<bind> (\<lambda>zs.
        mul_rows ds zs (atoms (cells h3 ?t)) \<bind> (\<lambda>xs. if r = z then mpz_set r ?t (upd ?t (\<lambda>m. mpz_normalize (m\<lparr>atoms := xs, used := M\<rparr>)) h3)
         else Some (SBN_OK, upd ?t (\<lambda>m. mpz_normalize (m\<lparr>atoms := xs, used := M\<rparr>)) h3)))))))
     (\<lambda>h'. keeps {r, Muli_rt} h h' \<and> wf_mpz (cells h' r) \<and> mag (cells h' r) = mag (cells h z) * mag (cells h b) \<and>
        neg (cells h' r) = (neg (cells h r) \<and> mag (cells h' r) \<noteq> 0))"
      unfolding h2(1) bind.bind_lunit prod.case by (simp only: not_True_eq_False if_False simp_thms gives_ok_then)
        (rule gives_mono [OF h2(2)], rule 2 [unfolded Let_def])
  qed
qed

lemma neg_same: "cells h p = x\<lparr>neg := s\<rparr> \<Longrightarrow> wf_mpz x \<Longrightarrow> wf_mpz (cells h p) \<and> mag (cells h p) = mag x"
  by simp

text \<open>The product, whichever of the three numbers are the same.\<close>

lemma muli_signed:
  assumes "plenty h" "wf_mpz (cells h r)" "wf_mpz (cells h z)" "wf_mpz (cells h b)"
    "used (cells h z) + used (cells h b) + 1 < 2 ^ 32" "r \<noteq> Muli_rt" "z \<noteq> Muli_rt" "b \<noteq> Muli_rt"
  shows "gives (mpz_muli_raw r z b (used (cells h b)) (upd r (\<lambda>m. m\<lparr>neg := s\<rparr>) h)) (\<lambda>h'. keeps {r, Muli_rt} h h' \<and>
    has h' r (if s then - int (mag (cells h z) * mag (cells h b)) else int (mag (cells h z) * mag (cells h b))))"
proof -
  let ?h = "upd r (\<lambda>m. m\<lparr>neg := s\<rparr>) h"
  have same: "wf_mpz (cells ?h p) = wf_mpz (cells h p)" "mag (cells ?h p) = mag (cells h p)" "used (cells ?h p) = used (cells h p)" for p
    by simp_all
  have "gives (mpz_muli_raw r z b (used (cells ?h b)) ?h) (\<lambda>h'. keeps {r, Muli_rt} ?h h' \<and> wf_mpz (cells h' r) \<and>
    mag (cells h' r) = mag (cells ?h z) * mag (cells ?h b) \<and> neg (cells h' r) = (neg (cells ?h r) \<and> mag (cells h' r) \<noteq> 0))"
    by (rule muli_raw_gives) (simp_all only: same plenty_put assms not_False_eq_True)
  then have "gives (mpz_muli_raw r z b (used (cells h b)) ?h) (\<lambda>h'. keeps {r, Muli_rt} ?h h' \<and> wf_mpz (cells h' r) \<and>
    mag (cells h' r) = mag (cells h z) * mag (cells h b) \<and> neg (cells h' r) = (s \<and> mag (cells h' r) \<noteq> 0))"
    unfolding same by simp
  then show ?thesis
    by (rule gives_mono) (auto simp: has_def ival_def keeps_def)
qed

lemma mpz_mul_gives:
  assumes "plenty h" "wf_mpz (cells h r)" "wf_mpz (cells h a)" "wf_mpz (cells h b)"
    "used (cells h a) + used (cells h b) + 1 < 2 ^ 32" "r \<noteq> Muli_rt" "a \<noteq> Muli_rt" "b \<noteq> Muli_rt"
  shows "gives (mpz_mul r a b h) (\<lambda>h'. keeps {r, Muli_rt} h h' \<and> has h' r (ival (cells h a) * ival (cells h b)))"
proof -
  let ?s = "neg (cells h a) \<noteq> neg (cells h b)"
  have u: "used (cells (upd r (\<lambda>m. m\<lparr>neg := ?s\<rparr>) h) b) = used (cells h b)" by simp
  show ?thesis unfolding mpz_mul_def Let_def u
    by (rule gives_mono [OF muli_signed [OF assms]]) (auto simp: ival_def split: if_splits)
qed

lemma mul_ui_gives:
  assumes "plenty h" "wf_mpz (cells h r)" "wf_mpz (cells h z)" "used (cells h z) + 2 < 2 ^ 32"
    "r \<noteq> Muli_rt" "z \<noteq> Muli_rt" "r \<noteq> Imm" "z \<noteq> Imm"
  shows "gives (mpz_mul_ui r z u h) (\<lambda>h'. keeps {r, Muli_rt, Imm} h h' \<and> has h' r (ival (cells h z) * int (unat u)))"
proof -
  let ?h = "poke Imm (u32pack u) h"
  have "used (cells ?h z) + used (cells ?h Imm) + 1 < 2 ^ 32" using assms u32pack_wf(5) [of u] by simp
  then have "gives (mpz_muli_raw r z Imm (used (cells ?h Imm)) (upd r (\<lambda>m. m\<lparr>neg := neg (cells h z)\<rparr>) ?h))
    (\<lambda>h'. keeps {r, Muli_rt} ?h h' \<and> has h' r (if neg (cells h z) then - int (mag (cells ?h z) * mag (cells ?h Imm))
       else int (mag (cells ?h z) * mag (cells ?h Imm))))"
    by (intro muli_signed) (use assms in simp_all)
  then have "gives (mpz_mul_ui r z u h)
    (\<lambda>h'. keeps {r, Muli_rt} ?h h' \<and> has h' r (if neg (cells h z) then - int (mag (cells ?h z) * mag (cells ?h Imm))
       else int (mag (cells ?h z) * mag (cells ?h Imm))))"
    using assms(8) by (simp add: mpz_mul_ui_def)
  then show ?thesis
  proof (rule gives_mono)
    fix h' assume h': "keeps {r, Muli_rt} ?h h' \<and> has h' r (if neg (cells h z) then - int (mag (cells ?h z) * mag (cells ?h Imm))
       else int (mag (cells ?h z) * mag (cells ?h Imm)))"
    have "keeps {r, Muli_rt, Imm} h ?h" by (simp add: keeps_put)
    moreover have "keeps {r, Muli_rt, Imm} ?h h'" using h' by (auto intro: keeps_mono)
    ultimately have "keeps {r, Muli_rt, Imm} h h'" by (rule keeps_step)
    then show "keeps {r, Muli_rt, Imm} h h' \<and> has h' r (ival (cells h z) * int (unat u))"
      using h' assms(8) by (auto simp: ival_def split: if_splits)
  qed
qed

section \<open>Properties\<close>

text \<open>C27. Addition, subtraction and multiplication of numbers in normal form are those of the integers, for
  any sizes and signs and whichever of the three numbers are the same object; the result is in normal form
  and no other number of the caller changes.  The one exception is the sum of a number with itself stored
  elsewhere while its allocation is full (\<open>unmoved\<close>).\<close>

theorem ring_operations:
  assumes "plenty h" "wf_mpz (cells h (Var r))" "wf_mpz (cells h (Var a))" "wf_mpz (cells h (Var b))"
    "used (cells h (Var a)) + used (cells h (Var b)) + 1 < 2 ^ 32" "unmoved h (Var r) (Var a) (Var b)"
  shows "gives (mpz_add (Var r) (Var a) (Var b) h) (\<lambda>h'. keeps {Var r} h h' \<and>
      has h' (Var r) (ival (cells h (Var a)) + ival (cells h (Var b)))) \<and>
    gives (mpz_sub (Var r) (Var a) (Var b) h) (\<lambda>h'. keeps {Var r} h h' \<and>
      has h' (Var r) (ival (cells h (Var a)) - ival (cells h (Var b)))) \<and>
    gives (mpz_mul (Var r) (Var a) (Var b) h) (\<lambda>h'. keeps {Var r, Muli_rt} h h' \<and>
      has h' (Var r) (ival (cells h (Var a)) * ival (cells h (Var b))))"
proof -
  have "used (cells h (Var a)) + 1 < 2 ^ 32" "used (cells h (Var b)) + 1 < 2 ^ 32" using assms(5) by simp_all
  then show ?thesis using mpz_add_gives mpz_sub_gives mpz_mul_gives assms by blast
qed

theorem ring_operations_witness:
  "let h = \<lparr>cells = (\<lambda>_. zero_mpz)(Var 0 := \<lparr>atoms = [4294967295, 0], used = 1, neg = True\<rparr>,
       Var 1 := \<lparr>atoms = [2], used = 1, neg = False\<rparr>), grants = \<lambda>_. True, allocs = 0\<rparr>
   in gives (mpz_add (Var 0) (Var 0) (Var 1) h) (\<lambda>h'. has h' (Var 0) (- 4294967293)) \<and>
     gives (mpz_sub (Var 0) (Var 0) (Var 1) h) (\<lambda>h'. has h' (Var 0) (- 4294967297)) \<and>
     gives (mpz_mul (Var 0) (Var 0) (Var 1) h) (\<lambda>h'. has h' (Var 0) (- 8589934590))"
proof -
  let ?h = "\<lparr>cells = (\<lambda>_. zero_mpz)(Var 0 := \<lparr>atoms = [4294967295, 0], used = 1, neg = True\<rparr>,
       Var 1 := \<lparr>atoms = [2], used = 1, neg = False\<rparr>), grants = \<lambda>_. True, allocs = 0\<rparr> :: bn"
  have "plenty ?h" "wf_mpz (cells ?h (Var 0))" "wf_mpz (cells ?h (Var 1))" "unmoved ?h (Var 0) (Var 0) (Var 1)"
    "used (cells ?h (Var 0)) + used (cells ?h (Var 1)) + 1 < 2 ^ 32"
    by (simp_all add: plenty_def wf_mpz_def digits_def normal_def unmoved_def)
  from ring_operations [OF this(1,2,2,3,5,4)]
  have r: "gives (mpz_add (Var 0) (Var 0) (Var 1) ?h) (\<lambda>h'. keeps {Var 0} ?h h' \<and> has h' (Var 0) (ival (cells ?h (Var 0)) + ival (cells ?h (Var 1))))"
    "gives (mpz_sub (Var 0) (Var 0) (Var 1) ?h) (\<lambda>h'. keeps {Var 0} ?h h' \<and> has h' (Var 0) (ival (cells ?h (Var 0)) - ival (cells ?h (Var 1))))"
    "gives (mpz_mul (Var 0) (Var 0) (Var 1) ?h) (\<lambda>h'. keeps {Var 0, Muli_rt} ?h h' \<and> has h' (Var 0) (ival (cells ?h (Var 0)) * ival (cells ?h (Var 1))))"
    by blast+
  have v: "ival (cells ?h (Var 0)) = - 4294967295" "ival (cells ?h (Var 1)) = 2" by (simp_all add: ival_def mag_def digits_def)
  from v have "ival (cells ?h (Var 0)) + ival (cells ?h (Var 1)) = - 4294967293" "ival (cells ?h (Var 0)) - ival (cells ?h (Var 1)) = - 4294967297"
    "ival (cells ?h (Var 0)) * ival (cells ?h (Var 1)) = - 8589934590" by simp_all
  then show ?thesis unfolding Let_def using r by (intro conjI) (auto elim!: gives_mono)
qed

end
