(* ===== verification/Bigbits.thy ===== *)
theory Bigbits
  imports Bigmul
begin

text \<open>
  Bit operations and shifts of sbignum.c.
\<close>

section \<open>Bits\<close>

lemma unat_push64:
  assumes "k < 32" shows "unat (push_bit k (ucast (x :: u32)) :: u64) = 2 ^ k * unat x"
proof -
  have "(2 :: nat) ^ k < 2 ^ 32" using assms by (intro power_strict_increasing) simp_all
  then have "2 ^ k * unat x < (2 ^ 32 * 2 ^ 32 :: nat)"
    using unat32_less [of x] by (intro mult_strict_mono) simp_all
  then show ?thesis
    by (simp only: unsigned_push_bit_eq) (simp add: unat_ucast_mod unat32_mod64 push_bit_eq_mult take_bit_eq_mod mult.commute)
qed

lemma unat_drop_bit_div: "unat (drop_bit k x) = unat x div 2 ^ k"
  by (simp only: unat_drop_bit_eq) (simp add: drop_bit_eq_div)

function bit_count :: "u32 \<Rightarrow> nat" where
  "bit_count x = (if x = 0 then 0 else bit_count (drop_bit 1 x) + 1)"
  by auto
termination
proof (relation "measure unat")
  fix x :: u32 assume "x \<noteq> 0"
  then have "0 < unat x" by (simp add: unsigned_greater_eq unat_gt_0)
  then have "unat x div 2 < unat x" by simp
  then show "(drop_bit 1 x, x) \<in> measure unat" by (simp only: in_measure unat_drop_bit_div power_one_right)
qed simp

declare bit_count.simps [simp del]

text \<open>\<open>mpz_bits\<close> reads the topmost word, so it must not be applied to 0.\<close>

definition mpz_bits :: "mpz \<Rightarrow> u32 option" where
  "mpz_bits z =
     (if used z = 0 \<or> length (atoms z) < used z then None
      else Some (of_nat (used z - 1) * 32 + of_nat (bit_count (atoms z ! (used z - 1)))))"

text \<open>The macros \<open>__mpz_setbit\<close>, \<open>__mpz_clrbit\<close> and \<open>_mpz_testbit\<close> on the words.\<close>

definition setbit_raw :: "u32 list \<Rightarrow> nat \<Rightarrow> u32 list option" where
  "setbit_raw xs i = (if i div 32 < length xs then Some (xs[i div 32 := xs ! (i div 32) OR push_bit (i mod 32) 1]) else None)"

definition clrbit_raw :: "u32 list \<Rightarrow> nat \<Rightarrow> u32 list option" where
  "clrbit_raw xs i = (if i div 32 < length xs then Some (xs[i div 32 := xs ! (i div 32) AND NOT (push_bit (i mod 32) 1)]) else None)"

definition testbit_raw :: "u32 list \<Rightarrow> nat \<Rightarrow> bool option" where
  "testbit_raw xs i = (if i div 32 < length xs then Some (bit (xs ! (i div 32)) (i mod 32)) else None)"

text \<open>\<open>_mpz_setbit\<close> and \<open>_mpz_clrbit\<close>, which keep the length up to date.\<close>

definition mpz_setbit_macro :: "mpz \<Rightarrow> nat \<Rightarrow> mpz option" where
  "mpz_setbit_macro z i =
     map_option (\<lambda>xs. z\<lparr>atoms := xs, used := max (used z) (i div 32 + 1)\<rparr>) (setbit_raw (atoms z) i)"

definition mpz_clrbit_macro :: "mpz \<Rightarrow> nat \<Rightarrow> mpz option" where
  "mpz_clrbit_macro z i =
     map_option (\<lambda>xs. let z = z\<lparr>atoms := xs\<rparr> in if i div 32 + 1 = used z then mpz_normalize_macro z else z) (clrbit_raw (atoms z) i)"

definition mpz_setbit :: "ptr \<Rightarrow> u32 \<Rightarrow> bn \<Rightarrow> outcome" where
  "mpz_setbit z i h =
     ok_then (mpz_realloc z (unat (drop_bit 5 i)) h) (\<lambda>h.
       map_option (\<lambda>m. (SBN_OK, poke z m h)) (mpz_setbit_macro (cells h z) (unat i)))"

definition mpz_clrbit :: "mpz \<Rightarrow> u32 \<Rightarrow> mpz option" where
  "mpz_clrbit z i =
     (if unat (drop_bit 5 i) \<ge> used z then Some z
      else map_option (\<lambda>xs. let z = z\<lparr>atoms := xs\<rparr> in if unat (drop_bit 5 i) = used z - 1 then mpz_normalize z else z)
             (clrbit_raw (atoms z) (unat i)))"

definition mpz_testbit :: "mpz \<Rightarrow> u32 \<Rightarrow> bool option" where
  "mpz_testbit z i = (if unat (drop_bit 5 i) \<ge> used z then Some False else testbit_raw (atoms z) (unat i))"

definition mpz_is_odd :: "mpz \<Rightarrow> bool option" where
  "mpz_is_odd z = (if used z \<noteq> 0 then testbit_raw (atoms z) 0 else Some False)"

text \<open>The macro \<open>_mpz_is_odd\<close>.\<close>

definition mpz_is_odd_macro :: "mpz \<Rightarrow> bool option" where
  "mpz_is_odd_macro z = testbit_raw (atoms z) 0"

section \<open>Shifts\<close>

definition mpz_lshiftword :: "ptr \<Rightarrow> nat \<Rightarrow> bn \<Rightarrow> outcome" where
  "mpz_lshiftword r i h =
     (if i = 0 then Some (SBN_OK, h)
      else let l = used (cells h r) in
        ok_then (mpz_realloc r ((l + i - 1) mod 2 ^ 32) h) (\<lambda>h. let m = cells h r in
          Option.bind (overwrite (atoms m) (replicate i 0 @ take l (atoms m)))
            (\<lambda>xs. Some (SBN_OK, poke r (m\<lparr>atoms := xs, used := l + i\<rparr>) h))))"

text \<open>\<open>memset\<close> of \<open>n\<close> bytes.\<close>

fun clear_bytes :: "nat \<Rightarrow> u32 list \<Rightarrow> u32 list option" where
  "clear_bytes n [] = (if n = 0 then Some [] else None)"
| "clear_bytes n (x # xs) =
     (if n \<ge> 4 then map_option ((#) 0) (clear_bytes (n - 4) xs) else Some ((x AND NOT (mask (8 * n))) # xs))"

text \<open>\<open>mpz_rshiftword\<close> clears \<open>i\<close> bytes, not \<open>i\<close> words, above the result.\<close>

definition mpz_rshiftword :: "mpz \<Rightarrow> nat \<Rightarrow> mpz option" where
  "mpz_rshiftword m i =
     (if i = 0 then Some m
      else if i \<ge> used m then mpz_zero m
      else let l = used m - i in
        Option.bind (first_words (used m) (atoms m)) (\<lambda>ws.
        Option.bind (overwrite (atoms m) (drop i ws)) (\<lambda>xs.
        Option.bind (clear_bytes i (drop l xs)) (\<lambda>ys. Some (m\<lparr>atoms := take l xs @ ys, used := l\<rparr>)))))"

text \<open>The words shifted left by \<open>k\<close> bits, \<open>c\<close> moving in; with the bits that move out.\<close>

fun shl_words :: "nat \<Rightarrow> u32 \<Rightarrow> u32 list \<Rightarrow> u32 list \<times> u32" where
  "shl_words k c [] = ([], c)"
| "shl_words k c (x # xs) =
     (let w = push_bit k (ucast x) :: u64; (ys, out) = shl_words k (ucast (drop_bit 32 w)) xs
      in ((ucast w OR c) # ys, out))"

fun shr_words :: "nat \<Rightarrow> u32 list \<Rightarrow> u32 list" where
  "shr_words k [] = []"
| "shr_words k [x] = [drop_bit k x]"
| "shr_words k (x # y # xs) = (drop_bit k x OR ucast (push_bit (32 - k) (ucast y :: u64))) # shr_words k (y # xs)"

text \<open>The shift in place: the word above the number takes the bits that move out.\<close>

definition lshift_in_place :: "nat \<Rightarrow> u32 \<Rightarrow> mpz \<Rightarrow> mpz option" where
  "lshift_in_place k c m =
     (let l = used m in
      if l < length (atoms m) then
        (let (ys, out) = shl_words k c (take l (atoms m)); top = atoms m ! l OR out
         in Some (m\<lparr>atoms := ys @ top # drop (l + 1) (atoms m), used := (if top \<noteq> 0 then l + 1 else l)\<rparr>))
      else None)"

definition self_lshift1 :: "mpz \<Rightarrow> mpz option" where
  "self_lshift1 = lshift_in_place 1 0"

definition self_lshift1_setbit0 :: "bool \<Rightarrow> mpz \<Rightarrow> mpz option" where
  "self_lshift1_setbit0 b = lshift_in_place 1 (if b then 1 else 0)"

definition mpz_lshift :: "ptr \<Rightarrow> ptr \<Rightarrow> u32 \<Rightarrow> bn \<Rightarrow> outcome" where
  "mpz_lshift r z i h =
     (let rawshift = unat (drop_bit 5 i); bitshift = unat (i AND 31) in
      ok_then (if r \<noteq> z then mpz_set r z h else Some (SBN_OK, h)) (\<lambda>h.
      ok_then (if rawshift \<noteq> 0 then mpz_lshiftword r rawshift h else Some (SBN_OK, h)) (\<lambda>h.
      if bitshift = 0 then Some (SBN_OK, h)
      else ok_then (mpz_realloc r (used (cells h r) + 1) h) (\<lambda>h.
        if used (cells h r) = 0 then Some (SBN_OK, h)
        else map_option (\<lambda>m. (SBN_OK, poke r m h)) (lshift_in_place bitshift 0 (cells h r))))))"

definition rshift_in_place :: "nat \<Rightarrow> mpz \<Rightarrow> mpz option" where
  "rshift_in_place k m =
     Option.bind (first_words (used m) (atoms m)) (\<lambda>ws. let ys = shr_words k ws in
       if ys = [] then None
       else Some (m\<lparr>atoms := ys @ drop (used m) (atoms m), used := (if last ys = 0 then used m - 1 else used m)\<rparr>))"

text \<open>The macro \<open>_mpz_self_rshift1\<close>; of 0 it reads the word \<open>d[l - 1]\<close> with an unsigned \<open>l = 0\<close>.\<close>

definition self_rshift1 :: "mpz \<Rightarrow> mpz option" where
  "self_rshift1 = rshift_in_place 1"

definition mpz_rshift :: "ptr \<Rightarrow> ptr \<Rightarrow> u32 \<Rightarrow> bn \<Rightarrow> outcome" where
  "mpz_rshift r z i h =
     (let rawshift = unat (drop_bit 5 i); bitshift = unat (i AND 31) in
      ok_then (if r \<noteq> z then mpz_set r z h else Some (SBN_OK, h)) (\<lambda>h. do {
        m \<leftarrow> (if rawshift \<noteq> 0 then mpz_rshiftword (cells h r) rawshift else Some (cells h r));
        m \<leftarrow> (if bitshift = 0 \<or> used m = 0 then Some m else rshift_in_place bitshift m);
        Some (SBN_OK, poke r m h)
      }))"

section \<open>Bitwise and\<close>

text \<open>Above the result \<open>mpz_and\<close> clears as many bytes as there are words.\<close>

definition mpz_and :: "ptr \<Rightarrow> ptr \<Rightarrow> ptr \<Rightarrow> bn \<Rightarrow> outcome" where
  "mpz_and r z m h =
     (if z = m then Option.bind (mpz_set r z h) (\<lambda>(e, h). Some (SBN_OK, h))
      else let len = min (used (cells h z)) (used (cells h m)) in
        ok_then (mpz_realloc r len h) (\<lambda>h. do {
          zs \<leftarrow> first_words len (atoms (cells h z));
          ms \<leftarrow> first_words len (atoms (cells h m));
          xs \<leftarrow> overwrite (atoms (cells h r)) (map2 (AND) zs ms);
          ys \<leftarrow> clear_bytes (length xs - len) (drop len xs);
          Some (SBN_OK, upd r (\<lambda>v. mpz_normalize (v\<lparr>atoms := take len xs @ ys\<rparr>)) h)
        }))"

section \<open>Values of bits and shifts\<close>

lemma bit_count_range: "x \<noteq> 0 \<Longrightarrow> 2 ^ (bit_count x - 1) \<le> unat x \<and> unat x < 2 ^ bit_count x \<and> bit_count x \<noteq> 0"
proof (induction x rule: bit_count.induct)
  case (1 x)
  have half: "unat (drop_bit 1 x) = unat x div 2" by (simp only: unat_drop_bit_div power_one_right)
  have step: "bit_count x = bit_count (drop_bit 1 x) + 1" using 1 by (simp add: bit_count.simps [of x])
  show ?case
  proof (cases "drop_bit 1 x = 0")
    case True
    then have "unat x div 2 = 0" using half by simp
    then have "unat x < 2" by simp
    moreover have "unat x \<noteq> 0" using 1(2) by (simp add: unsigned_eq_0_iff)
    ultimately have "unat x = 1" by simp
    then show ?thesis using True step by (simp add: bit_count.simps [of 0])
  next
    case False
    let ?k = "bit_count (drop_bit 1 x)"
    have IH: "2 ^ (?k - 1) \<le> unat x div 2" "unat x div 2 < 2 ^ ?k" "?k \<noteq> 0"
      using 1(1) [OF 1(2) False] half by simp_all
    have p: "(2 :: nat) ^ ?k = 2 * 2 ^ (?k - 1)" using IH(3) by (cases ?k) simp_all
    have "2 ^ ?k \<le> unat x" using IH(1) p by linarith
    moreover have "unat x < 2 * 2 ^ ?k" using IH(2) by linarith
    ultimately show ?thesis by (simp add: step)
  qed
qed

lemma nat_or_add: "c < 2 ^ k \<Longrightarrow> push_bit k a OR c = push_bit k a + (c :: nat)"
proof -
  assume "c < 2 ^ k"
  then have "c = take_bit k c" by (simp add: take_bit_nat_eq_self)
  then have "\<not> bit (push_bit k a) n \<or> \<not> bit c n" for n
    by (metis bit_push_bit_iff bit_take_bit_iff not_le)
  then show ?thesis by (simp add: disjunctive_add)
qed

lemma shl_word:
  assumes "unat c < 2 ^ k" "k < 32"
  shows "unat (ucast (push_bit k (ucast (x :: u32)) :: u64) OR c :: u32) +
    4294967296 * unat (ucast (drop_bit 32 (push_bit k (ucast x) :: u64)) :: u32) = 2 ^ k * unat x + unat c"
    "unat (ucast (drop_bit 32 (push_bit k (ucast x) :: u64)) :: u32) < 2 ^ k"
proof -
  let ?w = "push_bit k (ucast x) :: u64"
  have w: "unat ?w = 2 ^ k * unat x" using assms(2) by (rule unat_push64)
  have hi: "unat (ucast (drop_bit 32 ?w) :: u32) = 2 ^ k * unat x div 4294967296"
    using split64 [of ?w] unat_ucast_mod [of ?w, where 'b = 32] w by simp
  have "2 ^ k * unat x < 2 ^ k * 4294967296" using unat32_less [of x] by simp
  then show "unat (ucast (drop_bit 32 ?w) :: u32) < 2 ^ k" unfolding hi by (simp add: less_mult_imp_div_less)
  have "unat (ucast ?w :: u32) = push_bit k (unat x mod 2 ^ (32 - k))"
  proof -
    have "unat (ucast ?w :: u32) = 2 ^ k * unat x mod 2 ^ (k + (32 - k))"
      using assms(2) w by (simp add: unat_ucast_mod)
    also have "\<dots> = 2 ^ k * (unat x mod 2 ^ (32 - k))" unfolding power_add by (rule mult_mod_right [symmetric])
    finally show ?thesis by (simp add: push_bit_eq_mult)
  qed
  then have "unat (ucast ?w OR c :: u32) = unat (ucast ?w :: u32) + unat c"
    using nat_or_add [OF assms(1)] by (simp add: unsigned_or_eq)
  then show "unat (ucast ?w OR c :: u32) + 4294967296 * unat (ucast (drop_bit 32 ?w) :: u32) = 2 ^ k * unat x + unat c"
    using split64 [of ?w] w by simp
qed

lemma shl_words_spec:
  "unat c < 2 ^ k \<Longrightarrow> k < 32 \<Longrightarrow> shl_words k c xs = (ys, out) \<Longrightarrow>
    length ys = length xs \<and> nval ys + 4294967296 ^ length xs * unat out = 2 ^ k * nval xs + unat c"
proof (induction xs arbitrary: c ys out)
  case (Cons x xs)
  let ?w = "push_bit k (ucast x) :: u64"
  obtain ys' where ys: "shl_words k (ucast (drop_bit 32 ?w)) xs = (ys', out)" "ys = (ucast ?w OR c) # ys'"
    using Cons.prems(3) by (auto simp: Let_def split: prod.splits)
  note s = shl_word [OF Cons.prems(1,2), of x]
  have "length ys' = length xs \<and> nval ys' + 4294967296 ^ length xs * unat out =
      2 ^ k * nval xs + unat (ucast (drop_bit 32 ?w) :: u32)"
    by (rule Cons.IH [OF s(2) Cons.prems(2) ys(1)])
  then show ?case using s(1) by (simp add: ys(2) algebra_simps)
qed simp

lemma lshift_in_place_spec:
  assumes m: "wf_mpz m" "used m < length (atoms m)" and k: "unat c < 2 ^ k" "k < 32" "mag m = 0 \<longrightarrow> k \<le> 1"
  shows "\<exists>m'. lshift_in_place k c m = Some m' \<and> wf_mpz m' \<and> mag m' = 2 ^ k * mag m + unat c \<and> neg m' = neg m \<and>
    length (atoms m') = length (atoms m)"
proof -
  obtain ys out where loop: "shl_words k c (digits m) = (ys, out)" by fastforce
  have s: "length ys = used m" "nval ys + 4294967296 ^ used m * unat out = 2 ^ k * mag m + unat c"
    using shl_words_spec [OF k(1,2) loop] length_digits [OF m(1)] by (simp_all add: mag_def)
  have z: "drop (used m) (atoms m) = atoms m ! used m # drop (used m + 1) (atoms m)" using m(2) by (simp add: Cons_nth_drop_Suc)
  then have top: "atoms m ! used m = 0" "set (drop (used m + 1) (atoms m)) \<subseteq> {0}"
    using m(1) unfolding wf_mpz_def z by auto
  define m' where "m' = m\<lparr>atoms := ys @ out # drop (used m + 1) (atoms m), used := (if out \<noteq> 0 then used m + 1 else used m)\<rparr>"
  have e: "lshift_in_place k c m = Some m'"
    using m(2) loop top(1) by (simp add: lshift_in_place_def digits_def [symmetric] m'_def Let_def)
  have d: "digits m' = (if out \<noteq> 0 then ys @ [out] else ys)" using s(1) by (simp add: m'_def digits_def)
  have v: "nval (digits m') = 2 ^ k * mag m + unat c" using s by (auto simp: d nval_append)
  have "normal (digits m')"
  proof (cases "out = 0")
    case False then show ?thesis by (simp add: d normal_def)
  next
    case True
    have "4294967296 ^ (used m - 1) \<le> 2 ^ k * mag m + unat c" if "used m \<noteq> 0"
    proof -
      have "4294967296 ^ (used m - 1) \<le> mag m" by (rule mag_ge [OF m(1) that])
      also have "\<dots> \<le> 2 ^ k * mag m" by simp
      finally show ?thesis by simp
    qed
    then show ?thesis using True v s(1) by (cases "used m = 0") (auto simp: normal_iff d)
  qed
  then have "wf_mpz m'" using s(1) top(2) m(2) by (auto simp: wf_mpz_def m'_def)
  then show ?thesis using e v s(1) m(2) by (simp add: mag_def m'_def)
qed

lemma split_shift: "a + c * (p * (n div p) + n mod p) = a + c * (n mod p) + p * c * (n div p)" for a c p n :: nat
  by (simp only: distrib_left mult.assoc mult.left_commute [of c p] add.assoc add.commute [of "p * (c * (n div p))"])

lemma shr_words_spec: "1 \<le> k \<Longrightarrow> k < 32 \<Longrightarrow> length (shr_words k xs) = length xs \<and> nval (shr_words k xs) = nval xs div 2 ^ k"
proof (induction k xs rule: shr_words.induct)
  case (3 k x y xs)
  let ?B = "4294967296 :: nat" and ?n = "nval (y # xs)"
  have B: "?B = 2 ^ k * 2 ^ (32 - k)" using 3(3) by (simp add: power_add [symmetric])
  have "unat (ucast (push_bit (32 - k) (ucast y :: u64)) :: u32) = push_bit (32 - k) (unat y mod 2 ^ k)"
  proof -
    have w: "unat (push_bit (32 - k) (ucast y :: u64)) = 2 ^ (32 - k) * unat y" using 3(2) by (intro unat_push64) simp
    have "unat (ucast (push_bit (32 - k) (ucast y :: u64)) :: u32) = 2 ^ (32 - k) * unat y mod 2 ^ ((32 - k) + k)"
      using 3(3) w by (simp add: unat_ucast_mod)
    also have "\<dots> = 2 ^ (32 - k) * (unat y mod 2 ^ k)" unfolding power_add by (rule mult_mod_right [symmetric])
    finally show ?thesis by (simp add: push_bit_eq_mult)
  qed
  moreover have "unat (drop_bit k x) = unat x div 2 ^ k" by (rule unat_drop_bit_div)
  moreover have "unat x div 2 ^ k < 2 ^ (32 - k)"
    using unat32_less [of x] unfolding B by (simp add: less_mult_imp_div_less mult.commute)
  ultimately have h: "unat (drop_bit k x OR ucast (push_bit (32 - k) (ucast y :: u64))) =
      2 ^ (32 - k) * (unat y mod 2 ^ k) + unat x div 2 ^ k"
    using nat_or_add [of "unat x div 2 ^ k" "32 - k" "unat y mod 2 ^ k"]
    by (simp add: unsigned_or_eq or.commute push_bit_eq_mult)
  have y: "unat y mod 2 ^ k = ?n mod 2 ^ k" unfolding nval.simps B by (simp add: mult.assoc)
  have "nval (x # y # xs) div 2 ^ k = unat x div 2 ^ k + 2 ^ (32 - k) * ?n"
    unfolding nval.simps(2) [of x] B by (simp add: mult.assoc)
  also have "\<dots> = unat x div 2 ^ k + 2 ^ (32 - k) * (2 ^ k * (?n div 2 ^ k) + ?n mod 2 ^ k)" by simp
  also have "\<dots> = unat x div 2 ^ k + 2 ^ (32 - k) * (?n mod 2 ^ k) + ?B * (?n div 2 ^ k)"
    unfolding B by (rule split_shift)
  finally show ?case using 3(1) [OF 3(2,3)] h y by simp
qed (simp_all add: unat_drop_bit_div)

lemma rshift_in_place_spec:
  assumes m: "wf_mpz m" "used m \<noteq> 0" and k: "1 \<le> k" "k < 32"
  shows "\<exists>m'. rshift_in_place k m = Some m' \<and> wf_mpz m' \<and> mag m' = mag m div 2 ^ k \<and> neg m' = neg m \<and>
    length (atoms m') = length (atoms m) \<and> used m' \<le> used m"
proof -
  define ys where "ys = shr_words k (digits m)"
  have ys: "length ys = used m" "nval ys = mag m div 2 ^ k"
    using shr_words_spec [OF k] by (simp_all add: ys_def mag_def length_digits [OF m(1)])
  then have ne: "ys \<noteq> []" using m(2) by auto
  define m' where "m' = m\<lparr>atoms := ys @ drop (used m) (atoms m), used := (if last ys = 0 then used m - 1 else used m)\<rparr>"
  have len: "used m \<le> length (atoms m)" using m(1) by (simp add: wf_mpz_def)
  have e: "rshift_in_place k m = Some m'"
    using len ne by (simp add: rshift_in_place_def first_words_def digits_def [symmetric] ys_def [symmetric] m'_def Let_def)
  have split: "ys = butlast ys @ [last ys]" using ne by simp
  have d: "digits m' = (if last ys = 0 then butlast ys else ys)"
    using ys(1) by (simp add: m'_def digits_def butlast_conv_take)
  have v: "nval (digits m') = nval ys"
  proof (cases "last ys = 0")
    case True
    then show ?thesis using nval_append [of "butlast ys" "[last ys]"] split by (simp add: d)
  qed (simp add: d)
  have "normal (digits m')"
  proof (cases "last ys = 0")
    case False then show ?thesis by (simp add: d normal_def)
  next
    case True
    have "4294967296 ^ (used m - 2) \<le> nval ys" if "2 \<le> used m"
    proof -
      have "4294967296 ^ (used m - 2) * (2 ^ k :: nat) \<le> 4294967296 ^ (used m - 2) * 2 ^ 32"
        using k(2) by (intro mult_le_mono2 power_increasing) simp_all
      also have "\<dots> = 4294967296 ^ Suc (used m - 2)" by simp
      also have "\<dots> = 4294967296 ^ (used m - 1)" using that by (simp only: Suc_diff_le [symmetric] Suc_1 [symmetric] diff_Suc_Suc)
      also have "\<dots> \<le> mag m" by (rule mag_ge [OF m])
      finally show ?thesis unfolding ys(2) by (simp add: less_eq_div_iff_mult_less_eq)
    qed
    moreover have "butlast ys = []" if "\<not> 2 \<le> used m"
      using that ys(1) by (metis Suc_1 not_less_eq_eq length_butlast length_0_conv diff_is_0_eq One_nat_def)
    moreover have "length (butlast ys) - 1 = used m - 2" using ys(1) by simp
    ultimately show ?thesis using True v by (auto simp: normal_iff d)
  qed
  moreover have "set (drop (used m') (atoms m')) \<subseteq> {0}"
  proof -
    have z: "set (drop (used m) (atoms m)) \<subseteq> {0}" using m(1) by (simp add: wf_mpz_def)
    have "drop (used m - 1) ys = [last ys]" using split ys(1) by (metis append_eq_conv_conj length_butlast)
    then show ?thesis using z ys(1) m(2) by (auto simp: m'_def)
  qed
  ultimately have "wf_mpz m'" using ys(1) len by (auto simp: wf_mpz_def m'_def)
  moreover have "mag m' = mag m div 2 ^ k" using v ys(2) by (simp add: mag_def [of m'])
  moreover have "neg m' = neg m" "length (atoms m') = length (atoms m)" "used m' \<le> used m" using ys(1) len by (simp_all add: m'_def)
  ultimately show ?thesis using e by blast
qed

lemma bits_spec:
  assumes m: "wf_mpz m" "used m \<noteq> 0" "used m < 2 ^ 26"
  shows "\<exists>n. mpz_bits m = Some n \<and> 0 < unat n \<and> 2 ^ (unat n - 1) \<le> mag m \<and> mag m < 2 ^ unat n \<and> unat n \<le> 32 * used m"
proof -
  let ?x = "atoms m ! (used m - 1)" and ?l = "used m - 1"
  have len: "used m \<le> length (atoms m)" using m(1) by (simp add: wf_mpz_def)
  have d: "digits m = take ?l (atoms m) @ [?x]"
    using len m(2) take_Suc_conv_app_nth [of ?l "atoms m"] by (simp add: digits_def)
  then have x: "?x \<noteq> 0" using m(1) by (auto simp: wf_mpz_def normal_def)
  note r = bit_count_range [OF x]
  define c where "c = bit_count ?x"
  have c: "c \<noteq> 0" "2 ^ (c - 1) \<le> unat ?x" "unat ?x < 2 ^ c" using r by (simp_all add: c_def)
  have "(2 :: nat) ^ (c - 1) < 2 ^ 32" using order.strict_trans1 [OF c(2) unat32_less] by simp
  then have c32: "c \<le> 32" using c(1) by (simp only: power_strict_increasing_iff)
  define n where "n = (of_nat ?l * 32 + of_nat c :: u32)"
  have "?l * 32 + c < 2 ^ LENGTH(32)" using m(3) c32 by simp
  then have "unat (of_nat (?l * 32 + c) :: u32) = ?l * 32 + c" by (simp only: unat_of_nat mod_less)
  then have n: "unat n = ?l * 32 + c" unfolding n_def by (simp only: of_nat_add of_nat_mult of_nat_numeral)
  have v: "mag m = nval (take ?l (atoms m)) + 4294967296 ^ ?l * unat ?x"
    using len m(2) by (simp add: mag_def d nval_append)
  have B: "4294967296 ^ ?l = (2 :: nat) ^ (?l * 32)" by (simp add: power_mult [symmetric] mult.commute [of _ 32] power_mult)
  have "nval (take ?l (atoms m)) < 4294967296 ^ ?l" using nval_less [of "take ?l (atoms m)"] len by simp
  then have "mag m < 4294967296 ^ ?l * (unat ?x + 1)" unfolding v by simp
  also have "\<dots> \<le> 4294967296 ^ ?l * 2 ^ c" using c(3) by (intro mult_le_mono2) simp
  finally have up: "mag m < 2 ^ unat n" unfolding n B by (simp add: power_add)
  have "4294967296 ^ ?l * 2 ^ (c - 1) \<le> 4294967296 ^ ?l * unat ?x" using c(2) by (rule mult_le_mono2)
  also have "\<dots> \<le> mag m" unfolding v by simp
  finally have "2 ^ (?l * 32 + (c - 1)) \<le> mag m" unfolding B by (simp add: power_add)
  then have lo: "2 ^ (unat n - 1) \<le> mag m" unfolding n using c(1) by simp
  have "mpz_bits m = Some n" using m(2) len by (simp add: mpz_bits_def n_def c_def)
  then show ?thesis using n c(1) c32 up lo m(2) by auto
qed

lemma odd_shift: "n < 32 \<Longrightarrow> odd ((a + 4294967296 * m) div 2 ^ n) = odd (a div 2 ^ n)" for a m :: nat
proof -
  assume n: "n < 32"
  have "(4294967296 :: nat) = 2 ^ n * 2 ^ (32 - n)" using n by (simp add: power_add [symmetric])
  then have e: "4294967296 * m = 2 ^ n * (2 ^ (32 - n) * m)" by (simp only: mult.assoc)
  have "(a + 4294967296 * m) div 2 ^ n = a div 2 ^ n + 2 ^ (32 - n) * m" unfolding e by simp
  moreover have "even ((2 :: nat) ^ (32 - n))" using n by simp
  ultimately show ?thesis by simp
qed

lemma bit_nval: "n < 32 * length xs \<Longrightarrow> bit (nval xs) n = bit (xs ! (n div 32)) (n mod 32)"
proof (induction xs arbitrary: n)
  case (Cons a xs)
  show ?case
  proof (cases "n < 32")
    case True
    have "bit (nval (a # xs)) n = odd ((unat a + 4294967296 * nval xs) div 2 ^ n)" by (simp only: nval.simps bit_iff_odd)
    also have "\<dots> = odd (unat a div 2 ^ n)" by (rule odd_shift [OF True])
    also have "\<dots> = bit (unat a) n" by (simp only: bit_iff_odd)
    also have "\<dots> = bit a n" by (simp add: bit_unsigned_iff)
    finally show ?thesis using True by simp
  next
    case False
    then obtain k where k: "n = 32 + k" using le_Suc_ex not_less by blast
    have "nval (a # xs) div 2 ^ n = nval xs div 2 ^ k"
      using unat32_less [of a] by (simp add: k power_add div_mult2_eq)
    then have "bit (nval (a # xs)) n = bit (nval xs) k" by (simp add: bit_iff_odd)
    moreover have "n div 32 = Suc (k div 32)" "n mod 32 = k mod 32" by (simp_all add: k)
    ultimately show ?thesis using Cons.IH [of k] Cons.prems by (simp only: nth_Cons_Suc) (simp add: k)
  qed
qed simp

lemma bit_nval_ge: "32 * length xs \<le> n \<Longrightarrow> \<not> bit (nval xs) n"
proof -
  assume "32 * length xs \<le> n"
  then have "(2 :: nat) ^ (32 * length xs) \<le> 2 ^ n" by (intro power_increasing) simp_all
  moreover have "(2 :: nat) ^ (32 * length xs) = 4294967296 ^ length xs" by (simp add: power_mult)
  ultimately have "nval xs < 2 ^ n" using nval_less [of xs] by simp
  then show ?thesis by (simp add: bit_iff_odd)
qed

lemma testbit_spec: "n < 32 * length xs \<Longrightarrow> testbit_raw xs n = Some (bit (nval xs) n)"
  by (simp add: testbit_raw_def bit_nval)

text \<open>Setting a bit that is not set adds its weight, clearing one that is set takes it away.\<close>

lemma bit_list_update:
  assumes "i div 32 < length xs" "\<And>n. n < 32 \<Longrightarrow> bit w n = (if n = i mod 32 then b else bit (xs ! (i div 32)) n)"
  shows "bit (nval (xs[i div 32 := w])) n = (if n = i then b else bit (nval xs) n)"
proof (cases "n < 32 * length xs")
  case True
  show ?thesis
  proof (cases "n div 32 = i div 32")
    case same: True
    then have "n = i \<longleftrightarrow> n mod 32 = i mod 32" by (metis div_mult_mod_eq)
    then show ?thesis using True same assms by (simp add: bit_nval)
  next
    case False
    then show ?thesis using True by (auto simp: bit_nval)
  qed
next
  case False
  then show ?thesis using assms(1) bit_nval_ge [of xs n] bit_nval_ge [of "xs[i div 32 := w]" n] by auto
qed

lemma bit_set_add:
  fixes a b :: nat
  assumes "\<And>n. bit b n = (n = i \<or> bit a n)" "\<not> bit a i" shows "b = a + 2 ^ i"
proof -
  have "b = a OR 2 ^ i" using assms(1) by (intro bit_eqI) (auto simp: bit_or_iff bit_exp_iff)
  also have "\<dots> = a + 2 ^ i" using assms(2) by (subst disjunctive_add) (auto simp: bit_exp_iff)
  finally show ?thesis .
qed

lemma setbit_spec:
  assumes "i < 32 * length xs" "\<not> bit (nval xs) i"
  shows "\<exists>ys. setbit_raw xs i = Some ys \<and> length ys = length xs \<and> nval ys = nval xs + 2 ^ i"
proof -
  have i: "i div 32 < length xs" using assms(1) by linarith
  let ?ys = "xs[i div 32 := xs ! (i div 32) OR push_bit (i mod 32) 1]"
  have "bit (nval ?ys) n = (n = i \<or> bit (nval xs) n)" for n
    by (subst bit_list_update [OF i, where b = True]) (auto simp: bit_or_iff bit_exp_iff)
  then have "nval ?ys = nval xs + 2 ^ i" using assms(2) by (rule bit_set_add)
  then show ?thesis using i by (simp add: setbit_raw_def)
qed

lemma clrbit_spec:
  assumes "i < 32 * length xs" "bit (nval xs) i"
  shows "\<exists>ys. clrbit_raw xs i = Some ys \<and> length ys = length xs \<and> nval ys + 2 ^ i = nval xs"
proof -
  have i: "i div 32 < length xs" using assms(1) by linarith
  let ?ys = "xs[i div 32 := xs ! (i div 32) AND NOT (push_bit (i mod 32) 1)]"
  have b: "bit (nval ?ys) n = (n \<noteq> i \<and> bit (nval xs) n)" for n
    by (subst bit_list_update [OF i, where b = False]) (auto simp: bit_and_iff bit_not_iff bit_exp_iff)
  have "nval xs = nval ?ys + 2 ^ i" by (rule bit_set_add) (use b assms(2) in auto)
  then show ?thesis using i by (simp add: clrbit_raw_def)
qed

end
