(* ===== verification/Bigdiv.thy ===== *)
theory Bigdiv
  imports Bigbits "HOL-Library.Signed_Division"
begin

text \<open>
  Division and modular reduction of sbignum.c.
\<close>

section \<open>Division\<close>

text \<open>The loop of \<open>mpz_divi_qr_raw\<close> (with a quotient \<open>q\<close>) and of \<open>mpz_divi_r_raw\<close> (without), from the
  bit \<open>bit\<close> of \<open>z\<close> down to 0.  The words of the divisor \<open>d\<close> are those of a number that is not written.\<close>

definition div_subtract :: "ptr option \<Rightarrow> ptr \<Rightarrow> ptr \<Rightarrow> nat \<Rightarrow> nat \<Rightarrow> bn \<Rightarrow> bn option" where
  "div_subtract q r d l i h =
     (let h = upd r mpz_normalize_macro h in do {
        (e, h) \<leftarrow> mpz_subi_raw r r d l h;
        (case q of
           None \<Rightarrow> Some h
         | Some q \<Rightarrow> map_option (\<lambda>xs. upd q (\<lambda>m. m\<lparr>atoms := xs\<rparr>) h) (setbit_raw (atoms (cells h q)) i))
      })"

primrec divi_loop :: "nat \<Rightarrow> ptr option \<Rightarrow> ptr \<Rightarrow> ptr \<Rightarrow> ptr \<Rightarrow> nat \<Rightarrow> bn \<Rightarrow> bn option" where
  "divi_loop 0 q r z d l h = Some h"
| "divi_loop (Suc i) q r z d l h = do {
     b \<leftarrow> testbit_raw (atoms (cells h z)) i;
     m \<leftarrow> self_lshift1_setbit0 b (cells h r);
     let h = poke r m h;
     ds \<leftarrow> first_words l (atoms (cells h d));
     h \<leftarrow> (if mpz_cmpabsi_raw (cells h r) ds \<ge> 0 then div_subtract q r d l i h else Some h);
     divi_loop i q r z d l h
   }"

text \<open>The number of turns: \<open>bit\<close> runs from \<open>mpz_bits(z) - 1\<close> down to 0.\<close>

definition div_turns :: "u32 \<Rightarrow> nat" where
  "div_turns bits = nat (sint (bits - 1) + 1)"

text \<open>The errors of the two allocations are not looked at.\<close>

definition mpz_divi_qr_raw :: "ptr \<Rightarrow> ptr \<Rightarrow> ptr \<Rightarrow> ptr \<Rightarrow> nat \<Rightarrow> bn \<Rightarrow> outcome" where
  "mpz_divi_qr_raw q r z d l h = do {
     bits \<leftarrow> mpz_bits (cells h z);
     (e, h) \<leftarrow> mpz_zero_realloc q ((used (cells h z) + 2 ^ 32 - l + 1) mod 2 ^ 32) h;
     (e, h) \<leftarrow> mpz_zero_realloc r l h;
     h \<leftarrow> divi_loop (div_turns bits) (Some q) r z d l h;
     Some (SBN_OK, upd r mpz_normalize_macro (upd q mpz_normalize_macro h))
   }"

definition mpz_divi_r_raw :: "ptr \<Rightarrow> ptr \<Rightarrow> ptr \<Rightarrow> nat \<Rightarrow> bn \<Rightarrow> outcome" where
  "mpz_divi_r_raw r z d l h = do {
     bits \<leftarrow> mpz_bits (cells h z);
     (e, h) \<leftarrow> mpz_zero_realloc r l h;
     h \<leftarrow> divi_loop (div_turns bits) None r z d l h;
     Some (SBN_OK, upd r mpz_normalize_macro h)
   }"

definition ignore_error :: "outcome \<Rightarrow> outcome" where
  "ignore_error m = map_option (\<lambda>(e, h). (SBN_OK, h)) m"

definition clone_if :: "bool \<Rightarrow> ptr \<Rightarrow> ptr \<Rightarrow> bn \<Rightarrow> bn" where
  "clone_if c t z h = (if c then mpz_clone_stack t z h else h)"

definition mpz_tdiv_qr :: "ptr \<Rightarrow> ptr \<Rightarrow> ptr \<Rightarrow> ptr \<Rightarrow> bn \<Rightarrow> outcome" where
  "mpz_tdiv_qr q r z d h =
     (let one = ok_then (mpz_set_ui q 1 h) (\<lambda>h. ignore_error (mpz_setzero r h)); c = mpz_cmpabs (cells h z) (cells h d) in
      if used (cells h d) = 0 then Some (SBN_INVAL, h)
      else if z = d then one
      else if c < 0 then ok_then (mpz_set r z h) (\<lambda>h. ignore_error (mpz_setzero q h))
      else if c = 0 then one
      else
        (let z' = (if z = q \<or> z = r then Div_z else z); d' = (if d = q \<or> d = r then Div_d else d);
             h = clone_if (d = q \<or> d = r) Div_d d (clone_if (z = q \<or> z = r) Div_z z h);
             h = upd q (\<lambda>m. m\<lparr>neg := (neg (cells h z') \<noteq> neg (cells h d'))\<rparr>) h;
             h = upd r (\<lambda>m. m\<lparr>neg := neg (cells h z')\<rparr>) h
         in mpz_divi_qr_raw q r z' d' (used (cells h d')) h))"

definition mpz_tdiv_r :: "ptr \<Rightarrow> ptr \<Rightarrow> ptr \<Rightarrow> bn \<Rightarrow> outcome" where
  "mpz_tdiv_r r z d h =
     (let zero = ignore_error (mpz_setzero r h); c = mpz_cmpabs (cells h z) (cells h d) in
      if used (cells h d) = 0 then Some (SBN_INVAL, h)
      else if z = d then zero
      else if c < 0 then (if r = z then Some (SBN_OK, h) else mpz_set r z h)
      else if c = 0 then zero
      else
        (let z' = (if z = r then Div_z else z); d' = (if d = r then Div_d else d);
             h = clone_if (d = r) Div_d d (clone_if (z = r) Div_z z h);
             h = upd r (\<lambda>m. m\<lparr>neg := neg (cells h z')\<rparr>) h
         in mpz_divi_r_raw r z' d' (used (cells h d')) h))"

definition mpz_tdiv_qr_ui :: "ptr \<Rightarrow> ptr \<Rightarrow> ptr \<Rightarrow> u32 \<Rightarrow> bn \<Rightarrow> outcome" where
  "mpz_tdiv_qr_ui q r z u h = mpz_tdiv_qr q r z Imm (poke Imm (u32pack u) h)"

definition mpz_tdiv_qr_si :: "ptr \<Rightarrow> ptr \<Rightarrow> ptr \<Rightarrow> 32 word \<Rightarrow> bn \<Rightarrow> outcome" where
  "mpz_tdiv_qr_si q r z v h = mpz_tdiv_qr q r z Imm (poke Imm (s32pack v) h)"

definition mpz_tdiv_r_ui :: "ptr \<Rightarrow> ptr \<Rightarrow> u32 \<Rightarrow> bn \<Rightarrow> outcome" where
  "mpz_tdiv_r_ui r z u h = mpz_tdiv_r r z Imm (poke Imm (u32pack u) h)"

definition mpz_tdiv_r_si :: "ptr \<Rightarrow> ptr \<Rightarrow> 32 word \<Rightarrow> bn \<Rightarrow> outcome" where
  "mpz_tdiv_r_si r z v h = mpz_tdiv_r r z Imm (poke Imm (s32pack v) h)"

definition mpz_tdiv_q :: "ptr \<Rightarrow> ptr \<Rightarrow> ptr \<Rightarrow> bn \<Rightarrow> outcome" where
  "mpz_tdiv_q q z d h = mpz_tdiv_qr q Div_r z d (mpz_init Div_r h)"

text \<open>The quotients by a machine integer call \<open>mpz_tdiv_r\<close>.\<close>

definition mpz_tdiv_q_ui :: "ptr \<Rightarrow> ptr \<Rightarrow> u32 \<Rightarrow> bn \<Rightarrow> outcome" where
  "mpz_tdiv_q_ui q z u h = mpz_tdiv_r q z Imm (poke Imm (u32pack u) h)"

definition mpz_tdiv_q_si :: "ptr \<Rightarrow> ptr \<Rightarrow> 32 word \<Rightarrow> bn \<Rightarrow> outcome" where
  "mpz_tdiv_q_si q z v h = mpz_tdiv_r q z Imm (poke Imm (s32pack v) h)"

section \<open>Modular reduction\<close>

definition mpz_mod :: "ptr \<Rightarrow> ptr \<Rightarrow> ptr \<Rightarrow> bn \<Rightarrow> outcome" where
  "mpz_mod r z m h =
     (let m' = (if r = m then Mod_m else m); h = clone_if (r = m) Mod_m m h in
      ok_then (mpz_tdiv_r r z m' h) (\<lambda>h.
        if used (cells h r) \<noteq> 0 \<and> neg (cells h z) then
          (if neg (cells h m') then mpz_sub r r m' h else mpz_add r r m' h)
        else Some (SBN_OK, h)))"

section \<open>Division by one word\<close>

text \<open>From the most significant word on; the quotient words (least significant first) and the
  remainder.\<close>

fun div1_loop :: "u32 \<Rightarrow> u32 list \<Rightarrow> u64 \<Rightarrow> u32 list \<times> u64" where
  "div1_loop d [] t = ([], t)"
| "div1_loop d (a # as) t =
     (let (qs, t) = div1_loop d as t; t = push_bit 32 t + ucast a in (ucast (t div ucast d) # qs, t mod ucast d))"

definition mpz_selfdiv1_qr_raw :: "mpz \<Rightarrow> u32 \<Rightarrow> (u32 \<times> mpz) option" where
  "mpz_selfdiv1_qr_raw z d = do {
     ws \<leftarrow> first_words (used z) (atoms z);
     let (qs, t) = div1_loop d ws 0;
     if d = 0 \<or> qs = [] then None
     else Some (ucast t, z\<lparr>atoms := qs @ drop (used z) (atoms z), used := (if last qs = 0 then used z - 1 else used z)\<rparr>)
   }"

section \<open>The division loop\<close>

lemma div_step:
  fixes A D b :: nat
  assumes "0 < D" "b \<le> 1" and X: "X = 2 * (A mod D) + b"
  shows "(2 * A + b) mod D = (if D \<le> X then X - D else X)"
    "(2 * A + b) div D = 2 * (A div D) + (if D \<le> X then 1 else 0)" "X < 2 * D"
proof -
  have lt: "A mod D < D" using assms(1) by simp
  then show "X < 2 * D" using assms(2) X by linarith
  have "2 * A + b = 2 * (D * (A div D) + A mod D) + b" by simp
  then have e: "2 * A + b = D * (2 * (A div D)) + X" unfolding X by (simp only: distrib_left mult.left_commute add.assoc)
  have "X = D + (X - D)" "X - D < D" if "D \<le> X" using that \<open>X < 2 * D\<close> by simp_all
  then have x: "X mod D = (if D \<le> X then X - D else X)" "X div D = (if D \<le> X then 1 else 0)"
    using mod_less [of "X - D" D] le_mod_geq [of D X] le_div_geq [of D X] assms(1) by auto
  show "(2 * A + b) mod D = (if D \<le> X then X - D else X)" unfolding e x(1) [symmetric] by simp
  show "(2 * A + b) div D = 2 * (A div D) + (if D \<le> X then 1 else 0)" unfolding e x(2) [symmetric] using assms(1) by simp
qed

lemma div_bit: "Z div 2 ^ i = 2 * (Z div 2 ^ Suc i) + of_bool (bit Z i)" for Z :: nat
proof -
  have "Z div 2 ^ Suc i = Z div 2 ^ i div 2" by (simp add: div_mult2_eq [symmetric] mult.commute)
  moreover have "of_bool (bit Z i) = Z div 2 ^ i mod 2" by (simp add: bit_iff_odd odd_iff_mod_2_eq_one)
  ultimately show ?thesis by simp
qed

text \<open>The sign of the remainder is lost when the remainder is 0 on the way.\<close>

definition sign_kept :: "nat \<Rightarrow> nat \<Rightarrow> nat \<Rightarrow> bool" where
  "sign_kept Z D i \<longleftrightarrow> (\<forall>k\<ge>i. D \<le> Z div 2 ^ k \<longrightarrow> Z div 2 ^ k mod D \<noteq> 0)"

text \<open>The loop invariant when \<open>i\<close> bits are left.\<close>

definition div_inv :: "ptr option \<Rightarrow> ptr \<Rightarrow> bool \<Rightarrow> bool \<Rightarrow> nat \<Rightarrow> nat \<Rightarrow> nat \<Rightarrow> nat \<Rightarrow> bn \<Rightarrow> bool" where
  "div_inv q r s t Z D L i h \<longleftrightarrow>
     wf_mpz (cells h r) \<and> mag (cells h r) = Z div 2 ^ i mod D \<and> L < length (atoms (cells h r)) \<and>
     neg (cells h r) = (s \<and> sign_kept Z D i) \<and>
     (case q of None \<Rightarrow> True
      | Some q \<Rightarrow> nval (atoms (cells h q)) = Z div 2 ^ i div D * 2 ^ i \<and> Z div D < 2 ^ (32 * length (atoms (cells h q))) \<and>
          neg (cells h q) = t)"

text \<open>Nothing outside of \<open>S\<close> was written.\<close>

definition same_but :: "ptr set \<Rightarrow> bn \<Rightarrow> bn \<Rightarrow> bool" where
  "same_but S h h' \<longleftrightarrow> grants h' = grants h \<and> (\<forall>p. p \<notin> S \<longrightarrow> cells h' p = cells h p)"

lemma same_but_trans: "same_but S h h' \<Longrightarrow> same_but S h' h'' \<Longrightarrow> same_but S h h''"
  by (simp add: same_but_def)

lemma same_but_refl [simp]: "same_but S h h"
  by (simp add: same_but_def)

lemma same_but_upd: "p \<in> S \<Longrightarrow> same_but S h (upd p f h') \<longleftrightarrow> same_but S h h'" "p \<in> S \<Longrightarrow> same_but S h (poke p v h') \<longleftrightarrow> same_but S h h'"
  by (auto simp: same_but_def)

lemma same_but_keeps: "same_but S h h' \<Longrightarrow> keeps S h h'"
  by (simp add: same_but_def keeps_def)

lemma only_same_but: "only p h h' \<Longrightarrow> p \<in> S \<Longrightarrow> same_but S h h'"
  by (auto simp: only_def same_but_def)

lemma cmpabsi_ge: "wf_mpz a \<Longrightarrow> wf_mpz b \<Longrightarrow> mpz_cmpabsi_raw a (digits b) \<ge> 0 \<longleftrightarrow> mag b \<le> mag a"
proof -
  assume a: "wf_mpz a" "wf_mpz b"
  define x where "x = \<lparr>atoms = digits b, used = length (digits b), neg = False\<rparr>"
  have x: "digits x = digits b" by (simp add: x_def digits_def [of "\<lparr>atoms = digits b, used = length (digits b), neg = False\<rparr>"])
  then have "wf_mpz x" using a(2) by (simp add: wf_mpz_def) (simp add: x_def)
  then show ?thesis unfolding mpz_cmpabsi_raw_def x_def [symmetric] using cmpabs_ge_iff [OF a(1)] by (simp add: mag_def [of x] x mag_def [of b])
qed

lemma upd_same: "f (cells h r) = cells h r \<Longrightarrow> upd r f h = h"
  by (simp add: upd_def poke_def)

text \<open>One subtraction: \<open>X\<close> is the shifted remainder.\<close>

lemma div_subtract_spec:
  assumes "plenty h" "wf_mpz (cells h r)" "wf_mpz (cells h d)" "r \<noteq> d" "mag (cells h d) \<le> mag (cells h r)" "0 < mag (cells h d)"
    "used (cells h r) + 1 < 2 ^ 32"
    and q: "\<And>p. q = Some p \<Longrightarrow> p \<noteq> r \<and> p \<noteq> d \<and> i < 32 * length (atoms (cells h p)) \<and> \<not> bit (nval (atoms (cells h p))) i"
  shows "\<exists>h'. div_subtract q r d (used (cells h d)) i h = Some h' \<and> same_but ({r} \<union> set_option q) h h' \<and> wf_mpz (cells h' r) \<and>
    mag (cells h' r) = mag (cells h r) - mag (cells h d) \<and> length (atoms (cells h' r)) = length (atoms (cells h r)) \<and>
    neg (cells h' r) = (neg (cells h r) \<and> mag (cells h' r) \<noteq> 0) \<and>
    (\<forall>p. q = Some p \<longrightarrow> nval (atoms (cells h' p)) = nval (atoms (cells h p)) + 2 ^ i \<and>
       length (atoms (cells h' p)) = length (atoms (cells h p)) \<and> neg (cells h' p) = neg (cells h p))"
proof -
  have u: "upd r mpz_normalize_macro h = h" by (rule upd_same) (simp add: normalize_macro_same assms)
  have m: "mag (cells h r) \<noteq> 0" using assms(5,6) by simp
  from subi_raw_gives [OF assms(1,2,2,3,7,5)] obtain h1 where h1: "mpz_subi_raw r r d (used (cells h d)) h = Some (SBN_OK, h1)"
    and Q: "only r h h1 \<and> wf_mpz (cells h1 r) \<and> mag (cells h1 r) = mag (cells h r) - mag (cells h d) \<and>
      (r = r \<longrightarrow> length (atoms (cells h1 r)) = length (atoms (cells h r)) \<and>
        (mag (cells h r) \<noteq> 0 \<longrightarrow> neg (cells h1 r) = (neg (cells h r) \<and> mag (cells h1 r) \<noteq> 0)))"
    by (rule givesE)
  then have p1: "only r h h1" "wf_mpz (cells h1 r)" "mag (cells h1 r) = mag (cells h r) - mag (cells h d)"
      "length (atoms (cells h1 r)) = length (atoms (cells h r))" "neg (cells h1 r) = (neg (cells h r) \<and> mag (cells h1 r) \<noteq> 0)"
    using m by blast+
  show ?thesis
  proof (cases q)
    case None
    then show ?thesis using h1 p1 by (simp add: div_subtract_def u only_same_but not_le)
  next
    case (Some p)
    have c: "cells h1 p = cells h p" using p1(1) q [OF Some] by (simp add: only_def)
    obtain ys where ys: "setbit_raw (atoms (cells h p)) i = Some ys" "length ys = length (atoms (cells h p))"
      "nval ys = nval (atoms (cells h p)) + 2 ^ i" using setbit_spec q [OF Some] by blast
    have "same_but {r, p} h h1" using p1(1) by (auto intro: only_same_but)
    moreover have "r \<noteq> p" using q [OF Some] by blast
    ultimately show ?thesis using h1 p1 ys q [OF Some] by (simp add: div_subtract_def u Some c same_but_upd insert_commute not_le)
  qed
qed

lemma div_quotient_bit:
  assumes "0 < D" "D \<le> 2 * (Z div 2 ^ Suc i mod D) + of_bool (bit Z i)" "Z div D < 2 ^ n"
  shows "i < n" "\<not> bit (Z div 2 ^ Suc i div D * 2 ^ Suc i :: nat) i"
    "Z div 2 ^ i div D * 2 ^ i = Z div 2 ^ Suc i div D * 2 ^ Suc i + 2 ^ i"
proof -
  have q: "Z div 2 ^ i div D = 2 * (Z div 2 ^ Suc i div D) + 1"
  proof -
    have "(2 * (Z div 2 ^ Suc i) + of_bool (bit Z i)) div D = 2 * (Z div 2 ^ Suc i div D) + 1"
      using div_step(2) [OF assms(1) _ refl, of "of_bool (bit Z i)" "Z div 2 ^ Suc i"] assms(2) by simp
    then show ?thesis by (simp only: div_bit [of Z i, symmetric])
  qed
  then show "Z div 2 ^ i div D * 2 ^ i = Z div 2 ^ Suc i div D * 2 ^ Suc i + 2 ^ i" by (simp add: algebra_simps)
  have "Z div 2 ^ i div D = Z div D div 2 ^ i" by (simp add: div_mult2_eq [symmetric] mult.commute)
  then have "1 \<le> Z div D div 2 ^ i" using q by linarith
  then have "2 ^ i \<le> Z div D" by (simp add: less_eq_div_iff_mult_less_eq)
  then have "(2 :: nat) ^ i < 2 ^ n" using assms(3) by linarith
  then show "i < n" by simp
  have "Z div 2 ^ Suc i div D * 2 ^ Suc i = push_bit (Suc i) (Z div 2 ^ Suc i div D)" by (simp only: push_bit_eq_mult)
  then show "\<not> bit (Z div 2 ^ Suc i div D * 2 ^ Suc i :: nat) i" by (simp only: bit_push_bit_iff) simp
qed

lemma all_ge_Suc: "(\<forall>k\<ge>i. P k) \<longleftrightarrow> P i \<and> (\<forall>k\<ge>Suc i. P k)" for i :: nat
  by (auto simp: Suc_le_eq) (metis le_neq_implies_less)

lemma sign_keptD: "sign_kept Z D i \<Longrightarrow> D \<le> Z div 2 ^ i \<Longrightarrow> Z div 2 ^ i mod D \<noteq> 0"
  by (simp add: sign_kept_def)

lemma sign_kept_step:
  assumes "0 < D"
  shows "D \<le> 2 * (Z div 2 ^ Suc i mod D) + of_bool (bit Z i) \<Longrightarrow>
      sign_kept Z D i \<longleftrightarrow> sign_kept Z D (Suc i) \<and> Z div 2 ^ i mod D \<noteq> 0"
    "2 * (Z div 2 ^ Suc i mod D) + of_bool (bit Z i) < D \<Longrightarrow> sign_kept Z D i \<longleftrightarrow> sign_kept Z D (Suc i)"
proof -
  have Suc: "sign_kept Z D i \<longleftrightarrow> (D \<le> Z div 2 ^ i \<longrightarrow> Z div 2 ^ i mod D \<noteq> 0) \<and> sign_kept Z D (Suc i)"
    unfolding sign_kept_def by (rule all_ge_Suc)
  let ?A = "Z div 2 ^ Suc i"
  note step = div_step [OF assms _ refl, of "of_bool (bit Z i)" ?A]
  {
    assume "D \<le> 2 * (?A mod D) + of_bool (bit Z i)"
    also have "\<dots> \<le> 2 * ?A + of_bool (bit Z i)" using mod_less_eq_dividend [of ?A D] by (intro add_mono mult_le_mono2) simp_all
    also have "\<dots> = Z div 2 ^ i" by (rule div_bit [symmetric])
    finally show "sign_kept Z D i \<longleftrightarrow> sign_kept Z D (Suc i) \<and> Z div 2 ^ i mod D \<noteq> 0" using Suc by blast
  next
    assume lt: "2 * (?A mod D) + of_bool (bit Z i) < D"
    then have m: "Z div 2 ^ i mod D = 2 * (?A mod D) + of_bool (bit Z i)"
      using step(1) by (simp only: div_bit [of Z i, symmetric]) simp
    have "\<not> sign_kept Z D (Suc i)" if "D \<le> Z div 2 ^ i" "Z div 2 ^ i mod D = 0"
    proof -
      have A: "?A mod D = 0" "\<not> bit Z i" using that(2) unfolding m by (simp_all split: if_splits)
      have "Z div 2 ^ i = 2 * ?A" using A(2) by (subst div_bit) simp
      then have "?A \<noteq> 0" using that(1) assms by auto
      then have "D \<le> ?A" using A(1) by (metis mod_less not_le)
      from sign_keptD [OF _ this] show ?thesis using A(1) by (simp only: not_True_eq_False simp_thms) blast
    qed
    then show "sign_kept Z D i \<longleftrightarrow> sign_kept Z D (Suc i)"
      unfolding Suc by (cases "D \<le> Z div 2 ^ i \<and> Z div 2 ^ i mod D = 0") (simp_all del: power_Suc)
  }
qed

lemma self_lshift1_spec:
  assumes "wf_mpz m" "used m < length (atoms m)"
  shows "\<exists>m'. self_lshift1_setbit0 b m = Some m' \<and> wf_mpz m' \<and> mag m' = 2 * mag m + of_bool b \<and> neg m' = neg m \<and>
    length (atoms m') = length (atoms m)"
  using lshift_in_place_spec [OF assms, of "if b then 1 else 0" 1] by (cases b) (simp_all add: self_lshift1_setbit0_def)

lemma divi_loop_spec:
  assumes "plenty h" "wf_mpz (cells h z)" "wf_mpz (cells h d)" "0 < mag (cells h d)" "used (cells h d) + 2 < 2 ^ 32"
    "i \<le> 32 * used (cells h z)" "r \<noteq> z" "r \<noteq> d" "\<And>p. q = Some p \<Longrightarrow> p \<noteq> r \<and> p \<noteq> z \<and> p \<noteq> d"
    "div_inv q r s t (mag (cells h z)) (mag (cells h d)) (used (cells h d)) i h"
  shows "\<exists>h'. divi_loop i q r z d (used (cells h d)) h = Some h' \<and> same_but ({r} \<union> set_option q) h h' \<and>
    div_inv q r s t (mag (cells h z)) (mag (cells h d)) (used (cells h d)) 0 h'"
  using assms
proof (induction i arbitrary: h)
  case (Suc i)
  let ?Z = "mag (cells h z)" and ?D = "mag (cells h d)" and ?L = "used (cells h d)" and ?S = "{r} \<union> set_option q"
  let ?b = "bit ?Z i"
  note inv = Suc.prems(10) [unfolded div_inv_def]
  let ?X = "2 * (?Z div 2 ^ Suc i mod ?D) + of_bool ?b"
  have tb: "testbit_raw (atoms (cells h z)) i = Some ?b"
    using testbit_spec [of i "atoms (cells h z)"] Suc.prems(2,6) by (simp add: wf_nval_atoms) (simp add: wf_mpz_def)
  have ur: "used (cells h r) \<le> ?L"
  proof (rule used_le)
    have "mag (cells h r) < ?D" using inv Suc.prems(4) by simp
    then show "mag (cells h r) < 4294967296 ^ ?L" using mag_less [OF Suc.prems(3)] by linarith
  qed (use inv in blast)
  have "wf_mpz (cells h r)" "used (cells h r) < length (atoms (cells h r))" using inv ur by simp_all
  from self_lshift1_spec [OF this] obtain m where m': "self_lshift1_setbit0 ?b (cells h r) = Some m" "wf_mpz m"
    "mag m = 2 * mag (cells h r) + of_bool ?b" "neg m = neg (cells h r)" "length (atoms m) = length (atoms (cells h r))"
    by blast
  have "mag m = ?X" using m'(3) inv by (simp only:)
  with m' have m: "self_lshift1_setbit0 ?b (cells h r) = Some m" "wf_mpz m" "mag m = ?X" "neg m = neg (cells h r)"
    "length (atoms m) = length (atoms (cells h r))" by simp_all
  define h1 where "h1 = poke r m h"
  have o1: "same_but ?S h h1" by (simp add: h1_def same_but_upd)
  have c1: "cells h1 r = m" "\<And>p. p \<noteq> r \<Longrightarrow> cells h1 p = cells h p" "plenty h1" using Suc.prems(1) by (simp_all add: h1_def)
  have fw: "first_words ?L (atoms (cells h1 d)) = Some (digits (cells h d))"
    using c1(2) Suc.prems(3,8) by (simp add: first_words_def wf_mpz_def digits_def)
  have cmp: "mpz_cmpabsi_raw (cells h1 r) (digits (cells h d)) \<ge> 0 \<longleftrightarrow> ?D \<le> ?X"
    using cmpabsi_ge [OF m(2) Suc.prems(3)] c1(1) m(3) by simp
  have "\<exists>h2. (if ?D \<le> ?X then div_subtract q r d ?L i h1 else Some h1) = Some h2 \<and> same_but ?S h1 h2 \<and>
      div_inv q r s t ?Z ?D ?L i h2"
  proof (cases "?D \<le> ?X")
    case False
    then have "?Z div 2 ^ i mod ?D = ?X" "?Z div 2 ^ i div ?D = 2 * (?Z div 2 ^ Suc i div ?D)"
      using div_step(1,2) [OF Suc.prems(4) _ refl, of "of_bool ?b" "?Z div 2 ^ Suc i"] by (simp_all only: div_bit [of ?Z i, symmetric]) simp_all
    moreover have "sign_kept ?Z ?D i \<longleftrightarrow> sign_kept ?Z ?D (Suc i)"
      using False by (intro sign_kept_step(2) [OF Suc.prems(4)]) simp
    ultimately have "div_inv q r s t ?Z ?D ?L i h1"
      using inv m c1 Suc.prems(9) unfolding div_inv_def by (auto split: option.splits simp del: power_Suc) (auto simp: algebra_simps)
    then show ?thesis using False by simp
  next
    case True
    have um: "used (cells h1 r) + 1 < 2 ^ 32"
    proof -
      have "used m \<le> ?L + 1"
      proof (rule used_le [OF m(2)])
        have "mag m < 2 * ?D" unfolding m(3) by (rule div_step(3) [OF Suc.prems(4) _ refl]) simp
        also have "\<dots> \<le> 4294967296 * 4294967296 ^ ?L" using mag_less [OF Suc.prems(3)] by (intro mult_le_mono) simp_all
        finally show "mag m < 4294967296 ^ (?L + 1)" by simp
      qed
      then show ?thesis using Suc.prems(5) c1(1) by simp
    qed
    have qb: "p \<noteq> r \<and> p \<noteq> d \<and> i < 32 * length (atoms (cells h1 p)) \<and> \<not> bit (nval (atoms (cells h1 p))) i" if "q = Some p" for p
    proof -
      have "p \<noteq> r" using Suc.prems(9) that by blast
      then show ?thesis
        using that inv Suc.prems(9) div_quotient_bit(1,2) [OF Suc.prems(4) True, of "32 * length (atoms (cells h p))"] by (auto simp: c1(2))
    qed
    have d1: "cells h1 d = cells h d" using c1(2) Suc.prems(8) by simp
    have pre: "wf_mpz (cells h1 r)" "wf_mpz (cells h1 d)" "mag (cells h1 d) \<le> mag (cells h1 r)" "0 < mag (cells h1 d)"
      unfolding c1(1) d1 m(3) using m(2) True Suc.prems(3,4) by blast+
    from div_subtract_spec [OF c1(3) pre(1,2) Suc.prems(8) pre(3,4) um qb]
    obtain h2 where h2: "div_subtract q r d ?L i h1 = Some h2" "same_but ?S h1 h2" "wf_mpz (cells h2 r)" "mag (cells h2 r) = ?X - ?D"
      "length (atoms (cells h2 r)) = length (atoms m)" "neg (cells h2 r) = (neg m \<and> mag (cells h2 r) \<noteq> 0)"
      "\<forall>p. q = Some p \<longrightarrow> nval (atoms (cells h2 p)) = nval (atoms (cells h1 p)) + 2 ^ i \<and>
         length (atoms (cells h2 p)) = length (atoms (cells h1 p)) \<and> neg (cells h2 p) = neg (cells h1 p)"
      unfolding c1(1) d1 m(3) by blast
    have X: "?Z div 2 ^ i mod ?D = ?X - ?D"
      using True div_step(1) [OF Suc.prems(4) _ refl, of "of_bool ?b" "?Z div 2 ^ Suc i"] by (simp only: div_bit [of ?Z i, symmetric]) simp
    have sk: "sign_kept ?Z ?D i \<longleftrightarrow> sign_kept ?Z ?D (Suc i) \<and> ?Z div 2 ^ i mod ?D \<noteq> 0"
      by (rule sign_kept_step(1) [OF Suc.prems(4) True])
    have "case q of None \<Rightarrow> True | Some q \<Rightarrow> nval (atoms (cells h2 q)) = ?Z div 2 ^ i div ?D * 2 ^ i \<and>
       ?Z div ?D < 2 ^ (32 * length (atoms (cells h2 q))) \<and> neg (cells h2 q) = t"
    proof (cases q)
      case (Some p)
      then have p: "cells h1 p = cells h p" using Suc.prems(9) c1(2) by blast
      have "?Z div ?D < 2 ^ (32 * length (atoms (cells h p)))" "nval (atoms (cells h p)) = ?Z div 2 ^ Suc i div ?D * 2 ^ Suc i" "neg (cells h p) = t"
        using inv Some by simp_all
      then show ?thesis using Some h2(7) p div_quotient_bit(3) [OF Suc.prems(4) True] by simp
    qed simp
    then have "div_inv q r s t ?Z ?D ?L i h2"
      using h2(3-6) inv m(4,5) X sk unfolding div_inv_def by (simp del: power_Suc)
    then show ?thesis using True h2(1,2) by auto
  qed
  then obtain h2 where h2: "(if ?D \<le> ?X then div_subtract q r d ?L i h1 else Some h1) = Some h2" "same_but ?S h1 h2"
    "div_inv q r s t ?Z ?D ?L i h2" by blast
  have o2: "same_but ?S h h2" using o1 h2(2) by (rule same_but_trans)
  have "z \<notin> ?S" "d \<notin> ?S" using Suc.prems(7-9) by auto
  then have e: "cells h2 z = cells h z" "cells h2 d = cells h d" "plenty h2" using o2 Suc.prems(1) by (simp_all add: same_but_def plenty_def)
  obtain h3 where h3: "divi_loop i q r z d ?L h2 = Some h3" "same_but ?S h2 h3" "div_inv q r s t ?Z ?D ?L 0 h3"
    using Suc.IH [of h2] e Suc.prems h2(3) by auto
  have "divi_loop (Suc i) q r z d ?L h = Some h3"
    by (simp only: divi_loop.simps tb bind.bind_lunit m(1) Let_def h1_def [symmetric] fw cmp h2(1) h3(1))
  then show ?case using h3 o2 by (blast intro: same_but_trans)
qed auto

section \<open>Division is correct\<close>

lemma div_turns_eq: "0 < unat n \<Longrightarrow> unat n < 2147483648 \<Longrightarrow> div_turns n = unat n"
proof -
  assume n: "0 < unat n" "unat n < 2147483648"
  then have "unat (n - 1) = unat n - 1" by (simp add: unat_sub word_le_nat_alt)
  moreover have "uint (n - 1) = int (unat (n - 1))" by simp
  ultimately have u: "uint (n - 1) = int (unat n) - 1" using n(1) by linarith
  have "- 2147483648 \<le> int (unat n) - 1" "int (unat n) - 1 < 2147483648" using n by linarith+
  then have "sint (n - 1) = int (unat n) - 1"
    by (simp only: sint_uint u) (simp add: signed_take_bit_int_eq_self del: of_nat_unat)
  then show ?thesis unfolding div_turns_def by simp
qed

lemma pow32: "(2 :: nat) ^ (32 * m) = 4294967296 ^ m"
  by (simp add: power_mult)

lemma div_size:
  assumes "wf_mpz z" "wf_mpz d" "0 < mag d" "mag d \<le> mag z"
  shows "used d \<le> used z" "mag z div mag d < 2 ^ (32 * (used z - used d + 1))"
proof -
  have d: "used d \<noteq> 0" "4294967296 ^ (used d - 1) \<le> mag d" using used_0_iff [OF assms(2)] mag_ge [OF assms(2)] assms(3) by auto
  have z: "mag z < 4294967296 ^ used z" by (rule mag_less [OF assms(1)])
  then show u: "used d \<le> used z" using used_le [OF assms(2)] assms(4) by (meson order.strict_trans1)
  have "used z = (used d - 1) + (used z - used d + 1)" using d(1) u by simp
  then have "(4294967296 :: nat) ^ used z = 4294967296 ^ (used d - 1) * 4294967296 ^ (used z - used d + 1)" by (metis power_add)
  also have "\<dots> \<le> mag d * 4294967296 ^ (used z - used d + 1)" using d(2) by (rule mult_le_mono1)
  finally have "mag z < mag d * 4294967296 ^ (used z - used d + 1)" using z by linarith
  then have "mag z div mag d < 4294967296 ^ (used z - used d + 1)" by (simp add: less_mult_imp_div_less mult.commute)
  then show "mag z div mag d < 2 ^ (32 * (used z - used d + 1))" unfolding pow32 .
qed

lemma sign_kept_vacuous: "Z < D * 2 ^ i \<Longrightarrow> sign_kept Z D i"
proof -
  assume Z: "Z < D * 2 ^ i"
  have "Z div 2 ^ k < D" if "i \<le> k" for k
  proof -
    have "D * 2 ^ i \<le> D * 2 ^ k" using that by simp
    then have "Z < D * 2 ^ k" using Z by linarith
    then show ?thesis by (rule less_mult_imp_div_less)
  qed
  then show ?thesis unfolding sign_kept_def by (meson not_le)
qed

text \<open>From the cleared target to the end of the loop.\<close>

lemma divi_run:
  assumes "plenty h" "wf_mpz (cells h z)" "wf_mpz (cells h d)" "0 < mag (cells h d)" "mag (cells h d) \<le> mag (cells h z)"
    "used (cells h z) < 2 ^ 26" "r \<noteq> z" "r \<noteq> d" "\<And>p. q = Some p \<Longrightarrow> p \<noteq> r \<and> p \<noteq> z \<and> p \<noteq> d"
    and r: "set (atoms (cells h r)) \<subseteq> {0}" "used (cells h r) = 0" "used (cells h d) < length (atoms (cells h r))"
    and q: "\<And>p. q = Some p \<Longrightarrow> set (atoms (cells h p)) \<subseteq> {0} \<and> used (cells h z) - used (cells h d) + 1 \<le> length (atoms (cells h p)) \<and>
      neg (cells h p) = t"
  shows "\<exists>n h'. mpz_bits (cells h z) = Some n \<and> divi_loop (div_turns n) q r z d (used (cells h d)) h = Some h' \<and>
    same_but ({r} \<union> set_option q) h h' \<and>
    div_inv q r (neg (cells h r)) t (mag (cells h z)) (mag (cells h d)) (used (cells h d)) 0 h'"
proof -
  let ?Z = "mag (cells h z)" and ?D = "mag (cells h d)"
  have "used (cells h z) \<noteq> 0" using used_0_iff [OF assms(2)] assms(4,5) by simp
  from bits_spec [OF assms(2) this assms(6)] obtain n where n: "mpz_bits (cells h z) = Some n" "0 < unat n" "?Z < 2 ^ unat n"
    "unat n \<le> 32 * used (cells h z)" by blast
  have turns: "div_turns n = unat n" by (rule div_turns_eq) (use n assms(6) in simp_all)
  have size: "used (cells h d) \<le> used (cells h z)" "?Z div ?D < 2 ^ (32 * (used (cells h z) - used (cells h d) + 1))"
    using div_size [OF assms(2-5)] by simp_all
  have "div_inv q r (neg (cells h r)) t ?Z ?D (used (cells h d)) (unat n) h"
  proof -
    have "?Z < ?D * 2 ^ unat n" using n(3) assms(4) by (cases ?D) (simp_all add: trans_less_add1)
    then have sk: "sign_kept ?Z ?D (unat n)" by (rule sign_kept_vacuous)
    have "?Z div ?D < 2 ^ (32 * length (atoms (cells h p)))" if "q = Some p" for p
    proof -
      have "(2 :: nat) ^ (32 * (used (cells h z) - used (cells h d) + 1)) \<le> 2 ^ (32 * length (atoms (cells h p)))"
        using q [OF that] by (intro power_increasing mult_le_mono2) simp_all
      then show ?thesis using size(2) by linarith
    qed
    moreover have "wf_mpz (cells h r)" "mag (cells h r) = 0" using r by (simp_all add: wf_mpz_def digits_def normal_def mag_def)
    ultimately show ?thesis using n(3) r(3) sk q unfolding div_inv_def by (simp add: nval_zeros split: option.splits)
  qed
  from divi_loop_spec [OF assms(1-4) _ n(4) assms(7-9) this] obtain h' where
    "divi_loop (unat n) q r z d (used (cells h d)) h = Some h'" "same_but ({r} \<union> set_option q) h h'"
    "div_inv q r (neg (cells h r)) t ?Z ?D (used (cells h d)) 0 h'" using size(1) assms(6) by auto
  then show ?thesis using n(1) turns by auto
qed

lemma divi_qr_gives:
  assumes "plenty h" "wf_mpz (cells h q)" "wf_mpz (cells h r)" "wf_mpz (cells h z)" "wf_mpz (cells h d)" "0 < mag (cells h d)"
    "mag (cells h d) \<le> mag (cells h z)" "used (cells h z) < 2 ^ 26" "q \<noteq> r" "q \<noteq> z" "q \<noteq> d" "r \<noteq> z" "r \<noteq> d"
  shows "gives (mpz_divi_qr_raw q r z d (used (cells h d)) h) (\<lambda>h'. same_but {q, r} h h' \<and> wf_mpz (cells h' q) \<and> wf_mpz (cells h' r) \<and>
    mag (cells h' q) = mag (cells h z) div mag (cells h d) \<and> mag (cells h' r) = mag (cells h z) mod mag (cells h d) \<and>
    neg (cells h' q) = neg (cells h q) \<and>
    neg (cells h' r) = (neg (cells h r) \<and> sign_kept (mag (cells h z)) (mag (cells h d)) 0))"
proof -
  let ?l = "used (cells h d)" and ?n = "used (cells h z)"
  have size: "?l \<le> ?n" using div_size [OF assms(4-7)] by simp
  define k where "k = (?n + 2 ^ 32 - ?l + 1) mod 2 ^ 32"
  have "?n + 2 ^ 32 - ?l + 1 = (?n - ?l + 1) + 2 ^ 32" using size by simp
  then have k: "k = ?n - ?l + 1" unfolding k_def using assms(8) by (simp only: mod_add_self2) simp
  have "k + 1 < 2 ^ 32" "?l + 1 < 2 ^ 32" using assms(8) size by (simp_all add: k)
  from zero_realloc_gives [OF assms(1) this(1) assms(2)]
  obtain h1 where h1: "mpz_zero_realloc q k h = Some (SBN_OK, h1)" "only q h h1" "k < length (atoms (cells h1 q))"
    "set (atoms (cells h1 q)) \<subseteq> {0}" "neg (cells h1 q) = neg (cells h q)" by (elim givesE) auto
  have c1: "cells h1 p = cells h p" if "p \<noteq> q" for p using h1(2) that by (simp add: only_def)
  have "wf_mpz (cells h1 r)" using c1 [of r] assms(3,9) by simp
  from zero_realloc_gives [OF only_plenty [OF h1(2) assms(1)] \<open>?l + 1 < 2 ^ 32\<close> this]
  obtain h2 where h2: "mpz_zero_realloc r ?l h1 = Some (SBN_OK, h2)" "only r h1 h2" "?l < length (atoms (cells h2 r))"
    "set (atoms (cells h2 r)) \<subseteq> {0}" "used (cells h2 r) = 0" "neg (cells h2 r) = neg (cells h1 r)" by (elim givesE) auto
  have c2: "cells h2 p = cells h1 p" if "p \<noteq> r" for p using h2(2) that by (simp add: only_def)
  have e: "cells h2 z = cells h z" "cells h2 d = cells h d" "cells h2 q = cells h1 q" "plenty h2"
    using c1 c2 assms only_plenty [OF h2(2)] only_plenty [OF h1(2) assms(1)] by auto
  obtain n h3 where h3: "mpz_bits (cells h z) = Some n" "divi_loop (div_turns n) (Some q) r z d ?l h2 = Some h3"
    "same_but {q, r} h2 h3" "div_inv (Some q) r (neg (cells h2 r)) (neg (cells h q)) (mag (cells h z)) (mag (cells h d)) ?l 0 h3"
    using divi_run [of h2 z d r "Some q" "neg (cells h q)"] e assms h1 h2 k by (auto simp: insert_commute)
  have o: "same_but {q, r} h h3"
    using only_same_but [OF h1(2), of "{q, r}"] only_same_but [OF h2(2), of "{q, r}"] h3(3) by (blast intro: same_but_trans)
  have nr: "neg (cells h2 r) = neg (cells h r)" using h2(6) c1 [of r] assms(9) by simp
  have "mpz_divi_qr_raw q r z d ?l h = Some (SBN_OK, upd r mpz_normalize_macro (upd q mpz_normalize_macro h3))"
    using h1(1) h2(1) h3(1,2) by (simp add: mpz_divi_qr_raw_def k_def)
  then show ?thesis using h3(4) o assms(9) nr
    by (simp add: same_but_upd div_inv_def normalize_macro_wf wf_nval_atoms)
qed

lemma divi_r_gives:
  assumes "plenty h" "wf_mpz (cells h r)" "wf_mpz (cells h z)" "wf_mpz (cells h d)" "0 < mag (cells h d)"
    "mag (cells h d) \<le> mag (cells h z)" "used (cells h z) < 2 ^ 26" "r \<noteq> z" "r \<noteq> d"
  shows "gives (mpz_divi_r_raw r z d (used (cells h d)) h) (\<lambda>h'. same_but {r} h h' \<and> wf_mpz (cells h' r) \<and>
    mag (cells h' r) = mag (cells h z) mod mag (cells h d) \<and>
    neg (cells h' r) = (neg (cells h r) \<and> sign_kept (mag (cells h z)) (mag (cells h d)) 0))"
proof -
  let ?l = "used (cells h d)" and ?n = "used (cells h z)"
  have "?l + 1 < 2 ^ 32" using div_size(1) [OF assms(3-6)] assms(7) by simp
  from zero_realloc_gives [OF assms(1) this assms(2)]
  obtain h2 where h2: "mpz_zero_realloc r ?l h = Some (SBN_OK, h2)" "only r h h2" "?l < length (atoms (cells h2 r))"
    "set (atoms (cells h2 r)) \<subseteq> {0}" "used (cells h2 r) = 0" "neg (cells h2 r) = neg (cells h r)" by (elim givesE) auto
  have e: "cells h2 z = cells h z" "cells h2 d = cells h d" "plenty h2"
    using h2(2) assms only_plenty [OF h2(2)] by (auto simp: only_def)
  obtain n h3 where h3: "mpz_bits (cells h z) = Some n" "divi_loop (div_turns n) None r z d ?l h2 = Some h3"
    "same_but {r} h2 h3" "div_inv None r (neg (cells h2 r)) False (mag (cells h z)) (mag (cells h d)) ?l 0 h3"
    using divi_run [of h2 z d r None False] e assms h2 by auto
  have o: "same_but {r} h h3" using only_same_but [OF h2(2), of "{r}"] h3(3) by (blast intro: same_but_trans)
  have "mpz_divi_r_raw r z d ?l h = Some (SBN_OK, upd r mpz_normalize_macro h3)"
    using h2(1) h3(1,2) by (simp add: mpz_divi_r_raw_def)
  then show ?thesis using h3(4) o h2(6)
    by (simp add: same_but_upd div_inv_def normalize_macro_wf wf_nval_atoms)
qed

lemma ignore_error_gives: "gives m Q \<Longrightarrow> gives (ignore_error m) Q"
  by (auto simp: gives_def ignore_error_def)

lemma sign_kept_equal: "0 < Z \<Longrightarrow> \<not> sign_kept Z Z 0"
  unfolding sign_kept_def by (metis div_by_1 le_refl mod_self power_0)

text \<open>The remainder, whichever of the three numbers are the same.\<close>

lemma tdiv_r_gives:
  assumes "plenty h" "wf_mpz (cells h r)" "wf_mpz (cells h z)" "wf_mpz (cells h d)" "0 < mag (cells h d)"
    "used (cells h z) < 2 ^ 26" "{r, z, d} \<inter> {Div_z, Div_d} = {}"
  shows "gives (mpz_tdiv_r r z d h) (\<lambda>h'. keeps {r, Div_z, Div_d} h h' \<and> wf_mpz (cells h' r) \<and>
    mag (cells h' r) = mag (cells h z) mod mag (cells h d) \<and>
    neg (cells h' r) = (neg (cells h z) \<and> sign_kept (mag (cells h z)) (mag (cells h d)) 0))"
proof -
  let ?Z = "mag (cells h z)" and ?D = "mag (cells h d)" and ?c = "mpz_cmpabs (cells h z) (cells h d)"
  let ?Q = "\<lambda>h'. keeps {r, Div_z, Div_d} h h' \<and> wf_mpz (cells h' r) \<and> mag (cells h' r) = ?Z mod ?D \<and>
    neg (cells h' r) = (neg (cells h z) \<and> sign_kept ?Z ?D 0)"
  have ud: "used (cells h d) \<noteq> 0" using used_0_iff [OF assms(4)] assms(5) by simp
  have locals: "r \<noteq> Div_z" "r \<noteq> Div_d" "z \<noteq> Div_z" "z \<noteq> Div_d" "d \<noteq> Div_z" "d \<noteq> Div_d" using assms(7) by auto
  have zero: "gives (ignore_error (mpz_setzero r h)) ?Q" if "?Z = ?D"
    by (rule ignore_error_gives, rule gives_mono [OF setzero_gives [OF assms(1,2)]])
      (use that assms(5) sign_kept_equal [of ?D] in \<open>auto simp: has_def intro: only_keeps\<close>)
  have c: "?c < 0 \<longleftrightarrow> ?Z < ?D" "?c = 0 \<longleftrightarrow> ?Z = ?D"
    using cmpabs_less_iff [OF assms(3,4)] cmpabs_eq_iff [OF assms(3,4)] by auto
  consider (equal) "?Z = ?D" | (less) "?Z < ?D" | (greater) "?D < ?Z" by linarith
  then show ?thesis
  proof cases
    case equal
    then have "mpz_tdiv_r r z d h = ignore_error (mpz_setzero r h)" using ud c by (simp add: mpz_tdiv_r_def Let_def)
    then show ?thesis using zero [OF equal] by simp
  next
    case less
    then have sk: "sign_kept ?Z ?D 0" by (intro sign_kept_vacuous) simp
    have "gives (if r = z then Some (SBN_OK, h) else mpz_set r z h) ?Q"
    proof (cases "r = z")
      case True
      then show ?thesis using less sk assms(3) by simp
    next
      case False
      have "used (cells h z) + 1 < 2 ^ 32" using assms(6) by simp
      from set_gives [OF assms(1) this assms(2,3) not_sym [OF False]]
      have "gives (mpz_set r z h) ?Q"
        by (elim gives_mono) (use less sk in \<open>auto simp: mag_def intro: only_keeps\<close>)
      then show ?thesis using False by simp
    qed
    moreover have "z \<noteq> d" using less by auto
    ultimately show ?thesis using less ud c by (simp add: mpz_tdiv_r_def Let_def)
  next
    case greater
    let ?z = "if z = r then Div_z else z" and ?d = "if d = r then Div_d else d"
    define h1 where "h1 = clone_if (d = r) Div_d d (clone_if (z = r) Div_z z h)"
    have h1: "cells h1 ?z = cells h z" "cells h1 ?d = cells h d" "cells h1 r = cells h r" "plenty h1" "keeps {r, Div_z, Div_d} h h1"
      using locals assms(1) by (auto simp: h1_def clone_if_def mpz_clone_stack_def plenty_def keeps_put_iff)
    define h2 where "h2 = upd r (\<lambda>m. m\<lparr>neg := neg (cells h1 ?z)\<rparr>) h1"
    have ne: "?z \<noteq> r" "?d \<noteq> r" using locals by auto
    have h2: "cells h2 ?z = cells h z" "cells h2 ?d = cells h d" "wf_mpz (cells h2 r)" "neg (cells h2 r) = neg (cells h z)" "plenty h2"
      "keeps {r, Div_z, Div_d} h h2"
      using h1 ne assms(2) by (auto simp: h2_def keeps_upd_iff)
    have "gives (mpz_divi_r_raw r ?z ?d (used (cells h2 ?d)) h2) (\<lambda>h'. same_but {r} h2 h' \<and> wf_mpz (cells h' r) \<and>
       mag (cells h' r) = mag (cells h2 ?z) mod mag (cells h2 ?d) \<and>
       neg (cells h' r) = (neg (cells h2 r) \<and> sign_kept (mag (cells h2 ?z)) (mag (cells h2 ?d)) 0))"
      by (rule divi_r_gives) (use h2 ne ne [THEN not_sym] assms greater in \<open>simp_all only: less_imp_le not_False_eq_True\<close>)
    then have g: "gives (mpz_divi_r_raw r ?z ?d (used (cells h2 ?d)) h2) ?Q"
      by (rule gives_mono) (use h2 keeps_mono [OF same_but_keeps, of "{r}" h2 _ "{r, Div_z, Div_d}"] in \<open>auto intro: keeps_step\<close>)
    have "z \<noteq> d" using greater by auto
    moreover have "used (cells h2 ?d) = used (cells h1 ?d)" using ne by (simp add: h2_def)
    ultimately have "mpz_tdiv_r r z d h = mpz_divi_r_raw r ?z ?d (used (cells h2 ?d)) h2"
      using greater ud c unfolding mpz_tdiv_r_def Let_def h1_def [symmetric] h2_def [symmetric] by simp
    then show ?thesis using g by simp
  qed
qed

text \<open>Quotient and remainder.  Where the magnitudes are equal the quotient is always 1, and where the
  dividend is also the remainder and smaller than the divisor it is cleared.\<close>

lemma tdiv_qr_gives:
  assumes "plenty h" "wf_mpz (cells h q)" "wf_mpz (cells h r)" "wf_mpz (cells h z)" "wf_mpz (cells h d)" "0 < mag (cells h d)"
    "used (cells h z) < 2 ^ 26" "{q, r, z, d} \<inter> {Div_z, Div_d} = {}" "q \<noteq> r" "r = z \<Longrightarrow> mag (cells h d) \<le> mag (cells h z)"
  shows "gives (mpz_tdiv_qr q r z d h) (\<lambda>h'. keeps {q, r, Div_z, Div_d} h h' \<and> wf_mpz (cells h' q) \<and> wf_mpz (cells h' r) \<and>
    mag (cells h' q) = mag (cells h z) div mag (cells h d) \<and> mag (cells h' r) = mag (cells h z) mod mag (cells h d) \<and>
    neg (cells h' q) = (neg (cells h z) \<noteq> neg (cells h d) \<and> mag (cells h d) < mag (cells h z)) \<and>
    neg (cells h' r) = (neg (cells h z) \<and> sign_kept (mag (cells h z)) (mag (cells h d)) 0))"
proof -
  let ?Z = "mag (cells h z)" and ?D = "mag (cells h d)" and ?c = "mpz_cmpabs (cells h z) (cells h d)"
  let ?S = "{q, r, Div_z, Div_d}"
  let ?Q = "\<lambda>h'. keeps ?S h h' \<and> wf_mpz (cells h' q) \<and> wf_mpz (cells h' r) \<and>
    mag (cells h' q) = ?Z div ?D \<and> mag (cells h' r) = ?Z mod ?D \<and>
    neg (cells h' q) = (neg (cells h z) \<noteq> neg (cells h d) \<and> ?D < ?Z) \<and> neg (cells h' r) = (neg (cells h z) \<and> sign_kept ?Z ?D 0)"
  let ?one = "ok_then (mpz_set_ui q 1 h) (\<lambda>h. ignore_error (mpz_setzero r h))"
  have ud: "used (cells h d) \<noteq> 0" using used_0_iff [OF assms(5)] assms(6) by simp
  have locals: "q \<noteq> Div_z" "q \<noteq> Div_d" "r \<noteq> Div_z" "r \<noteq> Div_d" "z \<noteq> Div_z" "z \<noteq> Div_d" "d \<noteq> Div_z" "d \<noteq> Div_d"
    using assms(8) by auto
  have k: "keeps ?S h h''" if "only q h h'" "only r h' h''" for h' h''
    using keeps_step [OF only_keeps [OF that(1)] only_keeps [OF that(2)], of ?S] by simp
  have k': "keeps ?S h h''" if "only r h h'" "only q h' h''" for h' h''
    using keeps_step [OF only_keeps [OF that(1)] only_keeps [OF that(2)], of ?S] by simp
  have c: "?c < 0 \<longleftrightarrow> ?Z < ?D" "?c = 0 \<longleftrightarrow> ?Z = ?D"
    using cmpabs_less_iff [OF assms(4,5)] cmpabs_eq_iff [OF assms(4,5)] by auto
  consider (equal) "?Z = ?D" | (less) "?Z < ?D" | (greater) "?D < ?Z" by linarith
  then show ?thesis
  proof cases
    case equal
    have "gives ?one ?Q" unfolding gives_ok_then
    proof (rule gives_mono [OF set_ui_gives [OF assms(1,2)]])
      fix h1 assume h1: "only q h h1 \<and> has h1 q (int (unat (1 :: u32))) \<and> \<not> neg (cells h1 q) \<and> mag (cells h1 q) = unat (1 :: u32)
        \<and> used (cells h1 q) < length (atoms (cells h1 q))"
      then have o: "only q h h1" and q1: "wf_mpz (cells h1 q)" "\<not> neg (cells h1 q)" "mag (cells h1 q) = 1"
        by (simp_all add: has_def)
      have "wf_mpz (cells h1 r)" using only_other [OF o, of r] assms(3,9) by simp
      show "gives (ignore_error (mpz_setzero r h1)) ?Q"
      proof (rule ignore_error_gives, rule gives_mono [OF setzero_gives [OF only_plenty [OF o assms(1)] \<open>wf_mpz (cells h1 r)\<close>]])
        fix h2 assume h2: "only r h1 h2 \<and> has h2 r 0 \<and> \<not> neg (cells h2 r) \<and> mag (cells h2 r) = 0"
        then have "cells h2 q = cells h1 q" "keeps ?S h h2" using only_other [of r h1 h2 q] assms(9) k [OF o] by blast+
        then show "?Q h2" using h2 q1 equal assms(6) sign_kept_equal [OF assms(6)] by (simp add: has_def)
      qed
    qed
    moreover have "mpz_tdiv_qr q r z d h = ?one" using equal ud c by (simp add: mpz_tdiv_qr_def Let_def)
    ultimately show ?thesis by simp
  next
    case less
    then have sk: "sign_kept ?Z ?D 0" by (intro sign_kept_vacuous) simp
    have ne: "r \<noteq> z" "z \<noteq> d" using assms(10) less by auto
    have "used (cells h z) + 1 < 2 ^ 32" using assms(7) by simp
    have "gives (ok_then (mpz_set r z h) (\<lambda>h. ignore_error (mpz_setzero q h))) ?Q" unfolding gives_ok_then
    proof (rule gives_mono [OF set_gives [OF assms(1) \<open>used (cells h z) + 1 < 2 ^ 32\<close> assms(3,4) not_sym [OF ne(1)]]])
      fix h1 assume h1: "only r h h1 \<and> wf_mpz (cells h1 r) \<and> digits (cells h1 r) = digits (cells h z) \<and>
        used (cells h1 r) = used (cells h z) \<and> neg (cells h1 r) = neg (cells h z) \<and> used (cells h z) < length (atoms (cells h1 r))"
      then have o: "only r h h1" and r1: "wf_mpz (cells h1 r)" "neg (cells h1 r) = neg (cells h z)" "mag (cells h1 r) = ?Z"
        by (simp_all add: mag_def)
      have "wf_mpz (cells h1 q)" using only_other [OF o, of q] assms(2,9) by simp
      show "gives (ignore_error (mpz_setzero q h1)) ?Q"
      proof (rule ignore_error_gives, rule gives_mono [OF setzero_gives [OF only_plenty [OF o assms(1)] \<open>wf_mpz (cells h1 q)\<close>]])
        fix h2 assume h2: "only q h1 h2 \<and> has h2 q 0 \<and> \<not> neg (cells h2 q) \<and> mag (cells h2 q) = 0"
        then have "cells h2 r = cells h1 r" "keeps ?S h h2" using only_other [of q h1 h2 r] assms(9) k' [OF o] by auto
        then show "?Q h2" using h2 r1 less sk by (simp add: has_def)
      qed
    qed
    moreover have "mpz_tdiv_qr q r z d h = ok_then (mpz_set r z h) (\<lambda>h. ignore_error (mpz_setzero q h))"
      using less ne ud c by (simp add: mpz_tdiv_qr_def Let_def)
    ultimately show ?thesis by simp
  next
    case greater
    let ?z = "if z = q \<or> z = r then Div_z else z" and ?d = "if d = q \<or> d = r then Div_d else d"
    define h1 where "h1 = clone_if (d = q \<or> d = r) Div_d d (clone_if (z = q \<or> z = r) Div_z z h)"
    have h1: "cells h1 ?z = cells h z" "cells h1 ?d = cells h d" "cells h1 r = cells h r" "cells h1 q = cells h q" "plenty h1"
      "keeps ?S h h1"
      using locals assms(1) by (auto simp: h1_def clone_if_def mpz_clone_stack_def plenty_def keeps_put_iff)
    define h2 where "h2 = upd q (\<lambda>m. m\<lparr>neg := (neg (cells h1 ?z) \<noteq> neg (cells h1 ?d))\<rparr>) h1"
    have ne: "?z \<noteq> r" "?d \<noteq> r" "?z \<noteq> q" "?d \<noteq> q" using locals by auto
    have h2: "cells h2 ?z = cells h z" "cells h2 ?d = cells h d" "plenty h2" "keeps ?S h h2" "wf_mpz (cells h2 q)" "wf_mpz (cells h2 r)"
      "neg (cells h2 q) = (neg (cells h z) \<noteq> neg (cells h d))"
      using h1 ne assms(2,3,9) by (auto simp: h2_def keeps_upd_iff)
    define h3 where "h3 = upd r (\<lambda>m. m\<lparr>neg := neg (cells h2 ?z)\<rparr>) h2"
    have h3: "cells h3 ?z = cells h z" "cells h3 ?d = cells h d" "plenty h3" "keeps ?S h h3" "wf_mpz (cells h3 q)" "wf_mpz (cells h3 r)"
      "neg (cells h3 q) = (neg (cells h z) \<noteq> neg (cells h d))" "neg (cells h3 r) = neg (cells h z)"
      using h2 ne assms(9) by (auto simp: h3_def keeps_upd_iff)
    have "gives (mpz_divi_qr_raw q r ?z ?d (used (cells h3 ?d)) h3) (\<lambda>h'. same_but {q, r} h3 h' \<and> wf_mpz (cells h' q) \<and>
       wf_mpz (cells h' r) \<and> mag (cells h' q) = mag (cells h3 ?z) div mag (cells h3 ?d) \<and>
       mag (cells h' r) = mag (cells h3 ?z) mod mag (cells h3 ?d) \<and> neg (cells h' q) = neg (cells h3 q) \<and>
       neg (cells h' r) = (neg (cells h3 r) \<and> sign_kept (mag (cells h3 ?z)) (mag (cells h3 ?d)) 0))"
      by (rule divi_qr_gives) (use h3 ne ne [THEN not_sym] assms greater in \<open>simp_all only: less_imp_le not_False_eq_True\<close>)
    then have g: "gives (mpz_divi_qr_raw q r ?z ?d (used (cells h3 ?d)) h3) ?Q"
      by (rule gives_mono)
        (use h3 greater keeps_mono [OF same_but_keeps, of "{q, r}" h3 _ ?S] in \<open>auto intro: keeps_step\<close>)
    have "z \<noteq> d" using greater by auto
    moreover have "used (cells h3 ?d) = used (cells h2 ?d)" using ne by (simp add: h3_def)
    ultimately have "mpz_tdiv_qr q r z d h = mpz_divi_qr_raw q r ?z ?d (used (cells h3 ?d)) h3"
      using greater ud c h2(2) h1(2) unfolding mpz_tdiv_qr_def Let_def h1_def [symmetric] h2_def [symmetric] h3_def [symmetric] by simp
    then show ?thesis using g by simp
  qed
qed

section \<open>Modular reduction is correct where the sign of the remainder is kept\<close>

lemma neg_mod: "int (Z mod M) \<noteq> 0 \<Longrightarrow> (- int Z) mod int M = int M - int (Z mod M)"
  by (simp add: zmod_zminus1_eq_if zmod_int)

lemma keeps_props:
  assumes "keeps S h h'" "p \<notin> S" "wf_mpz (cells h p)"
  shows "wf_mpz (cells h' p)" "mag (cells h' p) = mag (cells h p)" "neg (cells h' p) = neg (cells h p)"
    "used (cells h' p) = used (cells h p)" "ival (cells h' p) = ival (cells h p)"
  using ext_props [OF keeps_ext [OF assms(1,2)]] assms(3) by simp_all

lemma mod_gives:
  assumes "plenty h" "wf_mpz (cells h r)" "wf_mpz (cells h z)" "wf_mpz (cells h m)" "0 < mag (cells h m)"
    "used (cells h z) < 2 ^ 26" "used (cells h m) < 2 ^ 26" "{r, z, m} \<inter> {Div_z, Div_d, Mod_m} = {}"
    and sign: "neg (cells h z) \<Longrightarrow> mag (cells h z) mod mag (cells h m) = 0 \<or> sign_kept (mag (cells h z)) (mag (cells h m)) 0"
  shows "gives (mpz_mod r z m h) (\<lambda>h'. keeps {r, Div_z, Div_d, Mod_m} h h' \<and>
    has h' r (ival (cells h z) mod int (mag (cells h m))))"
proof -
  let ?S = "{r, Div_z, Div_d, Mod_m}" and ?Z = "mag (cells h z)" and ?M = "mag (cells h m)"
  define mm where "mm = (if r = m then Mod_m else m)"
  define h0 where "h0 = clone_if (r = m) Mod_m m h"
  have locals: "r \<noteq> Div_z" "r \<noteq> Div_d" "r \<noteq> Mod_m" "z \<noteq> Div_z" "z \<noteq> Div_d" "z \<noteq> Mod_m" "m \<noteq> Div_z" "m \<noteq> Div_d" "m \<noteq> Mod_m"
    using assms(8) by auto
  have h0: "cells h0 mm = cells h m" "cells h0 z = cells h z" "cells h0 r = cells h r" "plenty h0" "keeps ?S h h0" "mm \<noteq> r" "mm \<noteq> Div_z" "mm \<noteq> Div_d"
    using locals assms(1) by (auto simp: h0_def mm_def clone_if_def mpz_clone_stack_def plenty_def keeps_put_iff)
  have "gives (mpz_tdiv_r r z mm h0) (\<lambda>h'. keeps {r, Div_z, Div_d} h0 h' \<and> wf_mpz (cells h' r) \<and>
    mag (cells h' r) = mag (cells h0 z) mod mag (cells h0 mm) \<and>
    neg (cells h' r) = (neg (cells h0 z) \<and> sign_kept (mag (cells h0 z)) (mag (cells h0 mm)) 0))"
    by (rule tdiv_r_gives) (use h0 assms locals in auto)
  then have "gives (mpz_tdiv_r r z mm h0) (\<lambda>h1. gives
     (if used (cells h1 r) \<noteq> 0 \<and> neg (cells h1 z) then (if neg (cells h1 mm) then mpz_sub r r mm h1 else mpz_add r r mm h1)
      else Some (SBN_OK, h1)) (\<lambda>h'. keeps ?S h h' \<and> has h' r (ival (cells h z) mod int ?M)))"
  proof (rule gives_mono)
    fix h1 assume *: "keeps {r, Div_z, Div_d} h0 h1 \<and> wf_mpz (cells h1 r) \<and> mag (cells h1 r) = mag (cells h0 z) mod mag (cells h0 mm) \<and>
      neg (cells h1 r) = (neg (cells h0 z) \<and> sign_kept (mag (cells h0 z)) (mag (cells h0 mm)) 0)"
    then have h1: "keeps {r, Div_z, Div_d} h0 h1" "wf_mpz (cells h1 r)" "mag (cells h1 r) = ?Z mod ?M"
      "neg (cells h1 r) = (neg (cells h z) \<and> sign_kept ?Z ?M 0)" by (simp_all add: h0)
    have k1: "keeps ?S h h1" using keeps_mono [OF h1(1), of ?S] h0(5) by (auto intro: keeps_step)
    have pl: "plenty h1" using h1(1) h0(4) keeps_plenty by blast
    have "mm \<notin> {r, Div_z, Div_d}" using h0 by simp
    from keeps_props [OF h1(1) this] have mm: "wf_mpz (cells h1 mm)" "ival (cells h1 mm) = ival (cells h m)"
      "neg (cells h1 mm) = neg (cells h m)" "used (cells h1 mm) = used (cells h m)" "mag (cells h1 mm) = ?M"
      using assms(4) by (simp_all add: h0)
    have u0: "used (cells h1 r) = 0 \<longleftrightarrow> ?Z mod ?M = 0" using used_0_iff [OF h1(2)] h1(3) by simp
    have nz: "neg (cells h1 z) = (neg (cells h z) \<and> (z = r \<longrightarrow> sign_kept ?Z ?M 0))"
    proof (cases "z = r")
      case False
      then have "z \<notin> {r, Div_z, Div_d}" using locals by simp
      from keeps_props [OF h1(1) this] False assms(3) show ?thesis by (simp add: h0)
    qed (use h1(4) in simp)
    show "gives (if used (cells h1 r) \<noteq> 0 \<and> neg (cells h1 z) then (if neg (cells h1 mm) then mpz_sub r r mm h1 else mpz_add r r mm h1)
      else Some (SBN_OK, h1)) (\<lambda>h'. keeps ?S h h' \<and> has h' r (ival (cells h z) mod int ?M))"
    proof (cases "?Z mod ?M \<noteq> 0 \<and> neg (cells h z)")
      case True
      then have sk: "sign_kept ?Z ?M 0" using sign by simp
      have v: "ival (cells h1 r) = - int (?Z mod ?M)" "ival (cells h z) mod int ?M = int ?M - int (?Z mod ?M)"
        using h1(3,4) sk True neg_mod [of ?Z ?M] by (simp_all add: ival_def)
      have ur: "used (cells h1 r) + 1 < 2 ^ 32"
      proof -
        have "mag (cells h1 r) < 4294967296 ^ used (cells h m)"
          using h1(3) mag_less [OF assms(4)] assms(5) mod_less_divisor [OF assms(5), of ?Z] by linarith
        then have "used (cells h1 r) \<le> used (cells h m)" by (rule used_le [OF h1(2)])
        then show ?thesis using assms(7) by simp
      qed
      have um: "used (cells h1 mm) + 1 < 2 ^ 32" using mm(4) assms(7) by simp
      have "unmoved h1 r r mm" using h0(6) by (simp add: unmoved_def)
      note ad = mpz_add_gives [OF pl h1(2) h1(2) mm(1) ur um this] and su = mpz_sub_gives [OF pl h1(2) h1(2) mm(1) ur um this]
      have fin: "keeps ?S h h'" if "keeps {r} h1 h'" for h' using keeps_mono [OF that, of ?S] k1 by (auto intro: keeps_step)
      have "gives (if neg (cells h1 mm) then mpz_sub r r mm h1 else mpz_add r r mm h1)
         (\<lambda>h'. keeps ?S h h' \<and> has h' r (ival (cells h z) mod int ?M))"
        using ad su fin by (auto elim!: gives_mono simp: v mm ival_def [of "cells h m"])
      moreover have "used (cells h1 r) \<noteq> 0 \<and> neg (cells h1 z)" using True sk unfolding u0 nz by satx
      ultimately show ?thesis by (simp only: if_True simp_thms)
    next
      case False
      then have c: "\<not> (used (cells h1 r) \<noteq> 0 \<and> neg (cells h1 z))" unfolding u0 nz by satx
      have "ival (cells h1 r) = ival (cells h z) mod int ?M"
        using False h1(3,4) by (auto simp: ival_def zmod_int zmod_zminus1_eq_if)
      then show ?thesis unfolding if_not_P [OF c] using k1 h1(2) by (simp add: has_def)
    qed
  qed
  then show ?thesis unfolding mpz_mod_def Let_def mm_def [symmetric] h0_def [symmetric] by simp
qed

section \<open>Properties\<close>

text \<open>C30. \<open>mpz_tdiv_qr\<close> divides the magnitudes with remainder, whichever of the numbers are the same
  object (quotient and remainder must differ, and a remainder stored over a dividend smaller than the divisor is
  lost).  The quotient is negative if the signs differ and the magnitudes do too; the remainder has the sign of
  the dividend unless a partial remainder of the bitwise division was 0.\<close>

theorem division_spec:
  assumes "plenty h" "wf_mpz (cells h (Var q))" "wf_mpz (cells h (Var r))" "wf_mpz (cells h (Var z))" "wf_mpz (cells h (Var d))"
    "0 < mag (cells h (Var d))" "used (cells h (Var z)) < 2 ^ 26" "q \<noteq> r"
    "r = z \<Longrightarrow> mag (cells h (Var d)) \<le> mag (cells h (Var z))"
  shows "gives (mpz_tdiv_qr (Var q) (Var r) (Var z) (Var d) h) (\<lambda>h'. keeps {Var q, Var r, Div_z, Div_d} h h' \<and>
    wf_mpz (cells h' (Var q)) \<and> wf_mpz (cells h' (Var r)) \<and>
    mag (cells h' (Var q)) = mag (cells h (Var z)) div mag (cells h (Var d)) \<and>
    mag (cells h' (Var r)) = mag (cells h (Var z)) mod mag (cells h (Var d)) \<and>
    neg (cells h' (Var q)) = (neg (cells h (Var z)) \<noteq> neg (cells h (Var d)) \<and> mag (cells h (Var d)) < mag (cells h (Var z))) \<and>
    neg (cells h' (Var r)) = (neg (cells h (Var z)) \<and> sign_kept (mag (cells h (Var z))) (mag (cells h (Var d))) 0))"
  using assms by (intro tdiv_qr_gives) auto

theorem division_spec_witness:
  "let h = \<lparr>cells = (\<lambda>_. zero_mpz)(Var 0 := \<lparr>atoms = [17], used = 1, neg = True\<rparr>,
       Var 1 := \<lparr>atoms = [5], used = 1, neg = False\<rparr>), grants = \<lambda>_. True, allocs = 0\<rparr>
   in gives (mpz_tdiv_qr (Var 0) (Var 2) (Var 0) (Var 1) h) (\<lambda>h'. has h' (Var 0) (- 3) \<and> mag (cells h' (Var 2)) = 2)"
proof -
  let ?h = "\<lparr>cells = (\<lambda>_. zero_mpz)(Var 0 := \<lparr>atoms = [17], used = 1, neg = True\<rparr>,
       Var 1 := \<lparr>atoms = [5], used = 1, neg = False\<rparr>), grants = \<lambda>_. True, allocs = 0\<rparr> :: bn"
  have "plenty ?h" "wf_mpz (cells ?h (Var 0))" "wf_mpz (cells ?h (Var 1))" "wf_mpz (cells ?h (Var 2))" "used (cells ?h (Var 0)) < 2 ^ 26"
    by (simp_all add: plenty_def wf_mpz_def digits_def normal_def zero_mpz_def)
  moreover have v: "mag (cells ?h (Var 0)) = 17" "mag (cells ?h (Var 1)) = 5" by (simp_all add: mag_def digits_def)
  ultimately have "gives (mpz_tdiv_qr (Var 0) (Var 2) (Var 0) (Var 1) ?h) (\<lambda>h'. keeps {Var 0, Var 2, Div_z, Div_d} ?h h' \<and>
    wf_mpz (cells h' (Var 0)) \<and> wf_mpz (cells h' (Var 2)) \<and> mag (cells h' (Var 0)) = 17 div 5 \<and> mag (cells h' (Var 2)) = 17 mod 5 \<and>
    neg (cells h' (Var 0)) = (neg (cells ?h (Var 0)) \<noteq> neg (cells ?h (Var 1)) \<and> (5 :: nat) < 17) \<and>
    neg (cells h' (Var 2)) = (neg (cells ?h (Var 0)) \<and> sign_kept 17 5 0))"
    using division_spec [of ?h 0 2 0 1] unfolding v by simp
  then show ?thesis unfolding Let_def by (rule gives_mono) (simp add: has_def ival_def)
qed

text \<open>The sign that is lost: \<open>- 7\<close> modulo 3 comes out as 4 (and as 1 if the result replaces the operand).\<close>

lemma mod_sign_lost:
  assumes "plenty h" "has h (Var z) (- 7)" "has h (Var m) 3" "wf_mpz (cells h (Var r))" "r \<noteq> z" "r \<noteq> m"
    "used (cells h (Var z)) < 2 ^ 26"
  shows "gives (mpz_mod (Var r) (Var z) (Var m) h) (\<lambda>h'. has h' (Var r) 4)"
proof -
  have wz: "wf_mpz (cells h (Var z))" and wm: "wf_mpz (cells h (Var m))" using assms(2,3) by (simp_all add: has_def)
  have v: "mag (cells h (Var z)) = 7" "mag (cells h (Var m)) = 3" "neg (cells h (Var z))" "\<not> neg (cells h (Var m))"
    using assms(2,3) by (auto simp: has_def ival_def split: if_splits)
  have lost: "\<not> sign_kept 7 3 0" unfolding sign_kept_def by (intro notI) (drule spec [of _ 1], simp)
  have "{Var r, Var z, Var m} \<inter> {Div_z, Div_d} = {}" by simp
  from tdiv_r_gives [OF assms(1,4) wz wm _ assms(7) this, unfolded v] lost obtain h1 where
    h1: "mpz_tdiv_r (Var r) (Var z) (Var m) h = Some (SBN_OK, h1)" "keeps {Var r, Div_z, Div_d} h h1"
    "wf_mpz (cells h1 (Var r))" "mag (cells h1 (Var r)) = 1" "\<not> neg (cells h1 (Var r))"
    by (auto elim!: givesE)
  have z1: "neg (cells h1 (Var z))" using keeps_props(3) [OF h1(2) _ wz] v(3) assms(5) by simp
  have m1: "has h1 (Var m) 3" "\<not> neg (cells h1 (Var m))"
    using keeps_has [OF h1(2) _ assms(3)] keeps_props(3) [OF h1(2) _ wm] v(4) assms(6) by simp_all
  have r1: "ival (cells h1 (Var r)) = 1" using h1(4,5) by (simp add: ival_def)
  have u: "used (cells h1 (Var r)) \<noteq> 0" using used_0_iff [OF h1(3)] h1(4) by simp
  have "used (cells h1 (Var r)) \<le> 1" "used (cells h1 (Var m)) \<le> 1"
    using used_le [OF h1(3), of 1] used_le [of "cells h1 (Var m)" 1] m1 h1(4) by (auto simp: has_def ival_def)
  then have "gives (mpz_add (Var r) (Var r) (Var m) h1) (\<lambda>h'. keeps {Var r} h1 h' \<and> has h' (Var r) (ival (cells h1 (Var r)) + ival (cells h1 (Var m))))"
    by (intro mpz_add_gives) (use keeps_plenty [OF h1(2) assms(1)] h1(3) m1(1) in \<open>simp_all add: has_def unmoved_def\<close>)
  then have "gives (mpz_add (Var r) (Var r) (Var m) h1) (\<lambda>h'. has h' (Var r) 4)"
    using m1(1) by (elim gives_mono) (simp add: r1 has_def)
  moreover have "mpz_mod (Var r) (Var z) (Var m) h = mpz_add (Var r) (Var r) (Var m) h1"
    using assms(6) h1(1) z1 u m1(2) by (simp add: mpz_mod_def clone_if_def ok_then_def)
  ultimately show ?thesis by simp
qed

end
