(* ===== verification/Bigpow.thy ===== *)
theory Bigpow
  imports Bigdiv
begin

text \<open>
  Powers, the square root and the greatest common divisor of sbignum.c.
\<close>

section \<open>Powers\<close>

text \<open>A product, reduced if there is a modulus.\<close>

definition mul_mod :: "ptr option \<Rightarrow> ptr \<Rightarrow> ptr \<Rightarrow> ptr \<Rightarrow> bn \<Rightarrow> outcome" where
  "mul_mod mo r z f h = ok_then (mpz_mul r z f h) (\<lambda>h. case mo of None \<Rightarrow> Some (SBN_OK, h) | Some m \<Rightarrow> mpz_mod r r m h)"

definition pow_step :: "ptr option \<Rightarrow> ptr \<Rightarrow> bn \<Rightarrow> outcome" where
  "pow_step mo r h = do {
     odd_e \<leftarrow> mpz_is_odd_macro (cells h Pow_E);
     ok_then (if odd_e then mul_mod mo r r Pow_B h else Some (SBN_OK, h)) (\<lambda>h. do {
       e \<leftarrow> self_rshift1 (cells h Pow_E);
       mul_mod mo Pow_B Pow_B Pow_B (poke Pow_E e h)
     })
   }"

partial_function (option) pow_loop :: "ptr option \<Rightarrow> ptr \<Rightarrow> bn \<Rightarrow> outcome" where
  "pow_loop mo r h =
     (if mpz_cmpabs_ui (cells h Pow_E) 1 > 0
      then Option.bind (pow_step mo r h) (\<lambda>(e, h). if e = SBN_OK then pow_loop mo r h else Some (e, h))
      else Some (SBN_OK, h))"

text \<open>The common part of \<open>mpz_powm\<close> and \<open>mpz_pow\<close>: working copies, the sign of the power, the loop and the
  last product, with the sign set.\<close>

definition power_raw :: "ptr option \<Rightarrow> ptr \<Rightarrow> ptr \<Rightarrow> ptr \<Rightarrow> bn \<Rightarrow> outcome" where
  "power_raw mo r b e h =
     ok_then (mpz_set Pow_B b (mpz_init Pow_E (mpz_init Pow_B h))) (\<lambda>h.
     ok_then (mpz_set Pow_E e h) (\<lambda>h. do {
       rs \<leftarrow> (if neg (cells h Pow_B) then mpz_is_odd_macro (cells h Pow_E) else Some False);
       (err, h) \<leftarrow> mpz_set_ui r 1 (mpz_abs_macro Pow_B h);
       ok_then (pow_loop mo r h) (\<lambda>h.
       ok_then (mpz_mul r r Pow_B h) (\<lambda>h. Some (SBN_OK, upd r (\<lambda>m. m\<lparr>neg := rs\<rparr>) h)))
     }))"

definition mpz_powm :: "ptr \<Rightarrow> ptr \<Rightarrow> ptr \<Rightarrow> ptr \<Rightarrow> bn \<Rightarrow> outcome" where
  "mpz_powm r b e m h =
     (if neg (cells h e) then Some (SBN_INVAL, h)
      else let m' = (if r = m then Powm_m else m)
        in ok_then (power_raw (Some m') r b e (clone_if (r = m) Powm_m m h)) (mpz_mod r r m'))"

definition mpz_pow :: "ptr \<Rightarrow> ptr \<Rightarrow> ptr \<Rightarrow> bn \<Rightarrow> outcome" where
  "mpz_pow r b e h = (if neg (cells h e) then Some (SBN_INVAL, h) else power_raw None r b e h)"

section \<open>Square root\<close>

text \<open>The turn for the bit \<open>i\<close> of the root; \<open>b\<close> is \<open>2 * i\<close>.\<close>

definition sqrt_turn :: "nat \<Rightarrow> ptr \<Rightarrow> ptr \<Rightarrow> bn \<Rightarrow> bn option" where
  "sqrt_turn i r z h = do {
     R \<leftarrow> mpz_setbit_macro (cells h Sqrt_R) (2 * i);
     let h = poke Sqrt_R R h;
     (e, h) \<leftarrow> mpz_addi_raw Sqrt_X Sqrt_s Sqrt_R (used R) h;
     R \<leftarrow> mpz_clrbit_macro (cells h Sqrt_R) (2 * i);
     let h = poke Sqrt_R R h;
     h \<leftarrow> (if mpz_cmpabs (cells h Sqrt_X) (cells h z) \<le> 0
           then do {
             (e, h) \<leftarrow> mpz_set Sqrt_s Sqrt_X h;
             m \<leftarrow> mpz_setbit_macro (cells h r) i;
             let h = poke r m h;
             R \<leftarrow> mpz_setbit_macro (cells h Sqrt_R) (2 * i + 1);
             Some (poke Sqrt_R R h)
           }
           else Some h);
     R \<leftarrow> self_rshift1 (cells h Sqrt_R);
     Some (poke Sqrt_R R h)
   }"

primrec sqrt_loop :: "nat \<Rightarrow> ptr \<Rightarrow> ptr \<Rightarrow> bn \<Rightarrow> bn option" where
  "sqrt_loop 0 r z h = Some h"
| "sqrt_loop (Suc i) r z h = Option.bind (sqrt_turn i r z h) (sqrt_loop i r z)"

definition mpz_sqrt :: "ptr \<Rightarrow> ptr \<Rightarrow> bn \<Rightarrow> outcome" where
  "mpz_sqrt r z h = do {
     j \<leftarrow> mpz_bits (cells h z);
     let atms = unat (drop_bit 5 j);
     let h = mpz_init Sqrt_s (mpz_init Sqrt_R (mpz_init Sqrt_X h));
     let z' = (if r = z then Sqrt_z else z);
     let h = clone_if (r = z) Sqrt_z z h;
     ok_then (mpz_realloc Sqrt_s atms h) (\<lambda>h.
     ok_then (mpz_realloc Sqrt_R atms h) (\<lambda>h.
     ok_then (mpz_realloc Sqrt_X atms h) (\<lambda>h.
     ok_then (mpz_zero_realloc r atms h) (\<lambda>h.
       map_option (Pair SBN_OK) (sqrt_loop (nat ((sint j - 1) sdiv 2 + 1)) r z' h)))))
   }"

section \<open>Greatest common divisor\<close>

definition is_even_macro :: "mpz \<Rightarrow> bool option" where
  "is_even_macro z = map_option Not (mpz_is_odd_macro z)"

text \<open>Halve while even.\<close>

partial_function (option) halve_while_even :: "ptr \<Rightarrow> bn \<Rightarrow> bn option" where
  "halve_while_even p h = Option.bind (is_even_macro (cells h p)) (\<lambda>ev.
     if ev then Option.bind (self_rshift1 (cells h p)) (\<lambda>m. halve_while_even p (poke p m h)) else Some h)"

partial_function (option) common_twos :: "ptr \<Rightarrow> bn \<Rightarrow> bn option" where
  "common_twos g h =
     Option.bind (is_even_macro (cells h Gcd_a)) (\<lambda>ea.
     Option.bind (if ea then is_even_macro (cells h Gcd_B) else Some False) (\<lambda>eb.
       if ea \<and> eb then
         Option.bind (self_rshift1 (cells h Gcd_a)) (\<lambda>a.
         Option.bind (self_rshift1 (cells h Gcd_B)) (\<lambda>b.
         Option.bind (self_lshift1 (cells h g)) (\<lambda>m. common_twos g (poke g m (poke Gcd_B b (poke Gcd_a a h))))))
       else Some h))"

text \<open>\<open>_mpz_set\<close>, an assignment without allocation.\<close>

definition set_no_alloc :: "ptr \<Rightarrow> ptr \<Rightarrow> bn \<Rightarrow> bn option" where
  "set_no_alloc d s h =
     map_option (\<lambda>xs. upd d (\<lambda>m. m\<lparr>atoms := xs, used := used (cells h s), neg := neg (cells h s)\<rparr>) h)
       (overwrite (atoms (cells h d)) (digits (cells h s)))"

text \<open>\<open>t = abs (a - B) / 2\<close>, stored in the larger of the two.\<close>

definition gcd_step :: "ptr \<Rightarrow> ptr \<Rightarrow> bn \<Rightarrow> outcome" where
  "gcd_step big small h =
     ok_then (mpz_subi_raw Gcd_t big small (used (cells h small)) h) (\<lambda>h. do {
       t \<leftarrow> self_rshift1 (cells h Gcd_t);
       map_option (Pair SBN_OK) (set_no_alloc big Gcd_t (poke Gcd_t t h))
     })"

partial_function (option) gcd_loop :: "bn \<Rightarrow> outcome" where
  "gcd_loop h =
     (if used (cells h Gcd_a) = 0 then Some (SBN_OK, h)
      else Option.bind (halve_while_even Gcd_a h) (\<lambda>h.
        Option.bind (halve_while_even Gcd_B h) (\<lambda>h.
        Option.bind (if mpz_cmpabs (cells h Gcd_a) (cells h Gcd_B) \<ge> 0 then gcd_step Gcd_a Gcd_B h else gcd_step Gcd_B Gcd_a h)
          (\<lambda>(e, h). if e = SBN_OK then gcd_loop h else Some (e, h)))))"

definition mpz_gcd_raw :: "ptr \<Rightarrow> ptr \<Rightarrow> ptr \<Rightarrow> nat \<Rightarrow> bn \<Rightarrow> outcome" where
  "mpz_gcd_raw g a b l h = do {
     ws \<leftarrow> first_words l (atoms (cells h b));
     let maxi = max (used (cells h a)) l;
     let h = mpz_abs_macro Gcd_a (mpz_clone_stack Gcd_a a (mpz_rawclone_stack Gcd_B ws h));
     ok_then (mpz_zero_realloc g maxi h) (\<lambda>h. do {
       xs \<leftarrow> overwrite (atoms (cells h g)) [1];
       let h = upd g (\<lambda>m. m\<lparr>atoms := xs, used := 1\<rparr>) (mpz_init Gcd_t h);
       h \<leftarrow> common_twos g h;
       ok_then (gcd_loop h) (\<lambda>h. ignore_error (mpz_muli_raw g g Gcd_B (used (cells h Gcd_B)) h))
     })
   }"

definition mpz_gcd :: "ptr \<Rightarrow> ptr \<Rightarrow> ptr \<Rightarrow> bn \<Rightarrow> outcome" where
  "mpz_gcd g a b h =
     (if used (cells h a) = 0 then ok_then (mpz_set g b h) (\<lambda>h. Some (SBN_OK, mpz_abs_macro g h))
      else if used (cells h b) = 0 then ok_then (mpz_set g a h) (\<lambda>h. Some (SBN_OK, mpz_abs_macro g h))
      else mpz_gcd_raw g a b (used (cells h b)) h)"

section \<open>Modular powers are correct\<close>

definition mul_locals :: "ptr set" where
  "mul_locals = {Muli_rt, Div_z, Div_d, Mod_m}"

lemma has_nat: "has h p (int v) \<Longrightarrow> mag (cells h p) = v \<and> wf_mpz (cells h p) \<and> (neg (cells h p) \<longrightarrow> v = 0) \<and> ival (cells h p) = int v"
  by (auto simp: has_def ival_def split: if_splits)

lemma has_used: "has h p (int v) \<Longrightarrow> v < 4294967296 ^ k \<Longrightarrow> used (cells h p) \<le> k"
  using used_le has_nat by metis

lemma keeps_mag: "keeps S h h' \<Longrightarrow> p \<notin> S \<Longrightarrow> wf_mpz (cells h p) \<Longrightarrow> wf_mpz (cells h' p) \<and> mag (cells h' p) = mag (cells h p) \<and>
    used (cells h' p) = used (cells h p)"
  using keeps_props by blast

lemma mul_mod_gives:
  assumes "plenty h" "has h x (int X)" "has h b (int Y)" "X < 4294967296 ^ L" "Y < 4294967296 ^ L" "L < 2 ^ 24"
    "wf_mpz (cells h m)" "0 < mag (cells h m)" "used (cells h m) \<le> L" "{x, b, m} \<inter> mul_locals = {}" "m \<noteq> x"
  shows "gives (mul_mod (Some m) x x b h) (\<lambda>h'. keeps (insert x mul_locals) h h' \<and> has h' x (int (X * Y mod mag (cells h m))))"
proof -
  let ?S = "insert x mul_locals" and ?M = "mag (cells h m)"
  have ux: "used (cells h x) \<le> L" "used (cells h b) \<le> L" using has_used assms by blast+
  have n: "x \<noteq> Muli_rt" "b \<noteq> Muli_rt" "m \<noteq> Muli_rt" "{x, m} \<inter> {Div_z, Div_d, Mod_m} = {}" using assms(10) by (auto simp: mul_locals_def)
  have "gives (mpz_mul x x b h) (\<lambda>h'. keeps {x, Muli_rt} h h' \<and> has h' x (ival (cells h x) * ival (cells h b)))"
    by (rule mpz_mul_gives) (use assms ux n has_nat in auto)
  then show ?thesis unfolding mul_mod_def gives_ok_then option.case
  proof (rule gives_mono)
    fix h1 assume h1: "keeps {x, Muli_rt} h h1 \<and> has h1 x (ival (cells h x) * ival (cells h b))"
    then have v: "has h1 x (int (X * Y))" using has_nat [OF assms(2)] has_nat [OF assms(3)] by simp
    have k1: "keeps ?S h h1" using h1 by (auto simp: mul_locals_def intro: keeps_mono)
    have m1: "wf_mpz (cells h1 m) \<and> mag (cells h1 m) = ?M \<and> used (cells h1 m) = used (cells h m)"
      by (rule keeps_mag [OF conjunct1 [OF h1]]) (use assms n in auto)
    have "X * Y < 4294967296 ^ L * 4294967296 ^ L" using assms(4,5) by (intro mult_strict_mono) simp_all
    then have "X * Y < 4294967296 ^ (L + L)" by (simp only: power_add)
    then have "used (cells h1 x) \<le> L + L" by (rule has_used [OF v])
    then have u1: "used (cells h1 x) < 2 ^ 26" using assms(6) by simp
    have "gives (mpz_mod x x m h1) (\<lambda>h'. keeps {x, Div_z, Div_d, Mod_m} h1 h' \<and> has h' x (ival (cells h1 x) mod int (mag (cells h1 m))))"
      by (rule mod_gives) (use has_nat [OF v] m1 assms u1 n keeps_plenty [OF k1] in auto)
    then show "gives (mpz_mod x x m h1) (\<lambda>h'. keeps ?S h h' \<and> has h' x (int (X * Y mod ?M)))"
    proof (rule gives_mono)
      fix h2 assume h2: "keeps {x, Div_z, Div_d, Mod_m} h1 h2 \<and> has h2 x (ival (cells h1 x) mod int (mag (cells h1 m)))"
      then have "keeps ?S h1 h2" by (auto simp: mul_locals_def intro: keeps_mono)
      then show "keeps ?S h h2 \<and> has h2 x (int (X * Y mod ?M))" using h2 keeps_step [OF k1] m1 has_nat [OF v] by (simp add: zmod_int)
    qed
  qed
qed

text \<open>The loop: \<open>r * B ^ E\<close> stays the same modulo \<open>m\<close>, and \<open>E\<close> ends at 1.\<close>

lemma pow_arith:
  assumes "1 < E" "X mod M = (if odd E then R * b else R) mod M" "C mod M = b * b mod M"
  shows "X * C ^ (E div 2) mod M = R * b ^ E mod (M :: nat)"
proof -
  have "X * C ^ (E div 2) mod M = (X mod M) * ((C mod M) ^ (E div 2) mod M) mod M" by (simp add: mod_mult_eq power_mod)
  also have "\<dots> = (if odd E then R * b else R) * (b * b) ^ (E div 2) mod M" unfolding assms(2,3) by (simp add: mod_mult_eq power_mod)
  also have "(if odd E then R * b else R) * (b * b) ^ (E div 2) = R * b ^ E"
  proof -
    have e: "(b * b) ^ (E div 2) = b ^ (2 * (E div 2))" by (simp add: power_mult power2_eq_square)
    show ?thesis
    proof (cases "odd E")
      case True
      then have "b * b ^ (2 * (E div 2)) = b ^ E" by (metis odd_two_times_div_two_succ power_Suc Suc_eq_plus1)
      then show ?thesis using True e by simp
    qed (simp add: e)
  qed
  finally show ?thesis .
qed

lemma odd_macro: "has h p (int v) \<Longrightarrow> v \<noteq> 0 \<Longrightarrow> mpz_is_odd_macro (cells h p) = Some (odd v)"
proof -
  assume v: "has h p (int v)" "v \<noteq> 0"
  let ?z = "cells h p"
  have z: "wf_mpz ?z" "mag ?z = v" using has_nat [OF v(1)] by simp_all
  then have "used ?z \<noteq> 0" using used_0_iff [OF z(1)] v(2) by simp
  then have "0 < 32 * length (atoms ?z)" using z(1) by (auto simp: wf_mpz_def)
  then show ?thesis using testbit_spec [of 0 "atoms ?z"] wf_nval_atoms [OF z(1)] z(2) by (simp add: mpz_is_odd_macro_def bit_0)
qed

lemma rshift1_has:
  assumes "has h p (int v)" "v \<noteq> 0"
  shows "\<exists>m. self_rshift1 (cells h p) = Some m \<and> has (poke p m h) p (int (v div 2))"
proof -
  have z: "wf_mpz (cells h p)" "mag (cells h p) = v" "neg (cells h p) \<longrightarrow> v = 0" using has_nat [OF assms(1)] by simp_all
  then have "used (cells h p) \<noteq> 0" using used_0_iff [OF z(1)] assms(2) by simp
  from rshift_in_place_spec [OF z(1) this, of 1] show ?thesis
    using z(2,3) assms(2) by (auto simp: self_rshift1_def has_def ival_def)
qed

lemma cmpabs_1: "has h p (int v) \<Longrightarrow> mpz_cmpabs_ui (cells h p) 1 > 0 \<longleftrightarrow> 1 < v"
  using cmpabs_sgn [of "cells h p" "u32pack 1"] has_nat [of h p v] by (auto simp: mpz_cmpabs_ui_def sgn_if)

definition pow_vars :: "ptr \<Rightarrow> ptr set" where
  "pow_vars r = {r, Pow_B, Pow_E} \<union> mul_locals"

definition pow_state :: "ptr \<Rightarrow> ptr \<Rightarrow> nat \<Rightarrow> nat \<Rightarrow> nat \<Rightarrow> nat \<Rightarrow> nat \<Rightarrow> bn \<Rightarrow> bool" where
  "pow_state r m M L R b E h \<longleftrightarrow> plenty h \<and> has h r (int R) \<and> has h Pow_B (int b) \<and> has h Pow_E (int E) \<and>
     R < 4294967296 ^ L \<and> b < 4294967296 ^ L \<and> wf_mpz (cells h m) \<and> mag (cells h m) = M \<and> used (cells h m) \<le> L"

lemma mod_bound: "wf_mpz z \<Longrightarrow> 0 < mag z \<Longrightarrow> used z \<le> L \<Longrightarrow> n mod mag z < 4294967296 ^ L"
proof -
  assume z: "wf_mpz z" "0 < mag z" "used z \<le> L"
  have "n mod mag z < mag z" using z(2) by simp
  also have "\<dots> < 4294967296 ^ used z" by (rule mag_less [OF z(1)])
  also have "\<dots> \<le> 4294967296 ^ L" using z(3) by (intro power_increasing) simp_all
  finally show ?thesis .
qed

lemma pow_step_gives:
  assumes st: "pow_state r m M L R b E h" and E: "1 < E" and L: "L < 2 ^ 24" and M: "0 < M"
    and r: "r \<notin> insert Pow_B (insert Pow_E mul_locals)" and m: "m \<notin> pow_vars r"
  shows "gives (pow_step (Some m) r h) (\<lambda>h'. keeps (pow_vars r) h h' \<and>
    (\<exists>X C. pow_state r m M L X C (E div 2) h' \<and> X * C ^ (E div 2) mod M = R * b ^ E mod M))"
proof -
  let ?S = "pow_vars r" and ?X = "if odd E then R * b mod M else R"
  have B: "Pow_B \<notin> mul_locals" "Pow_E \<notin> mul_locals" by (simp_all add: mul_locals_def)
  have odd_e: "mpz_is_odd_macro (cells h Pow_E) = Some (odd E)" by (rule odd_macro) (use st E in \<open>auto simp: pow_state_def\<close>)
  have mm: "wf_mpz (cells h m)" "mag (cells h m) = M" "used (cells h m) \<le> L" using st by (simp_all add: pow_state_def)
  have 1: "gives (if odd E then mul_mod (Some m) r r Pow_B h else Some (SBN_OK, h)) (\<lambda>h1. keeps ?S h h1 \<and> pow_state r m M L ?X b E h1)"
  proof (cases "odd E")
    case False
    then show ?thesis using st by simp
  next
    case True
    have "gives (mul_mod (Some m) r r Pow_B h) (\<lambda>h'. keeps (insert r mul_locals) h h' \<and> has h' r (int (R * b mod mag (cells h m))))"
      by (rule mul_mod_gives [where L = L]) (use st L M r m B in \<open>auto simp: pow_state_def pow_vars_def\<close>)
    then have "gives (mul_mod (Some m) r r Pow_B h) (\<lambda>h1. keeps ?S h h1 \<and> pow_state r m M L ?X b E h1)"
    proof (rule gives_mono)
      fix h1 assume h1: "keeps (insert r mul_locals) h h1 \<and> has h1 r (int (R * b mod mag (cells h m)))"
      then have k: "keeps (insert r mul_locals) h h1" by simp
      have "m \<notin> insert r mul_locals" "Pow_B \<notin> insert r mul_locals" "Pow_E \<notin> insert r mul_locals"
        using m r B by (auto simp: pow_vars_def)
      then have "wf_mpz (cells h1 m) \<and> mag (cells h1 m) = M \<and> used (cells h1 m) = used (cells h m)" "has h1 Pow_B (int b)" "has h1 Pow_E (int E)"
        using keeps_mag [OF k] keeps_has [OF k] mm st by (auto simp: pow_state_def)
      moreover have "R * b mod M < 4294967296 ^ L" using mod_bound [OF mm(1)] mm M by simp
      moreover have "keeps ?S h h1" using k by (auto simp: pow_vars_def intro: keeps_mono)
      ultimately show "keeps ?S h h1 \<and> pow_state r m M L ?X b E h1"
        using h1 st True mm keeps_plenty [OF k] by (simp add: pow_state_def)
    qed
    then show ?thesis using True by simp
  qed
  have 2: "gives (Option.bind (self_rshift1 (cells h1 Pow_E)) (\<lambda>e. mul_mod (Some m) Pow_B Pow_B Pow_B (poke Pow_E e h1)))
      (\<lambda>h'. keeps ?S h h' \<and> (\<exists>X C. pow_state r m M L X C (E div 2) h' \<and> X * C ^ (E div 2) mod M = R * b ^ E mod M))"
    if h1: "keeps ?S h h1 \<and> pow_state r m M L ?X b E h1" for h1
  proof -
    have s1: "pow_state r m M L ?X b E h1" using h1 by simp
    obtain e where e: "self_rshift1 (cells h1 Pow_E) = Some e" "has (poke Pow_E e h1) Pow_E (int (E div 2))"
      using rshift1_has [of h1 Pow_E E] s1 E by (auto simp: pow_state_def)
    define h2 where "h2 = poke Pow_E e h1"
    have ne: "Pow_E \<noteq> r" "Pow_E \<noteq> m" using r m by (auto simp: pow_vars_def)
    have s2: "pow_state r m M L ?X b (E div 2) h2"
      using s1 e(2) ne by (auto simp: pow_state_def h2_def has_def)
    have "gives (mul_mod (Some m) Pow_B Pow_B Pow_B h2) (\<lambda>h'. keeps (insert Pow_B mul_locals) h2 h' \<and> has h' Pow_B (int (b * b mod mag (cells h2 m))))"
      by (rule mul_mod_gives [where L = L]) (use s2 L M r m B in \<open>auto simp: pow_state_def pow_vars_def\<close>)
    then have "gives (mul_mod (Some m) Pow_B Pow_B Pow_B h2) (\<lambda>h'. keeps ?S h h' \<and>
      (\<exists>X C. pow_state r m M L X C (E div 2) h' \<and> X * C ^ (E div 2) mod M = R * b ^ E mod M))"
    proof (rule gives_mono)
      fix h3 assume h3: "keeps (insert Pow_B mul_locals) h2 h3 \<and> has h3 Pow_B (int (b * b mod mag (cells h2 m)))"
      then have k: "keeps (insert Pow_B mul_locals) h2 h3" by simp
      have m2: "wf_mpz (cells h2 m)" "mag (cells h2 m) = M" "used (cells h2 m) \<le> L" using s2 by (simp_all add: pow_state_def)
      have "m \<notin> insert Pow_B mul_locals" "r \<notin> insert Pow_B mul_locals" "Pow_E \<notin> insert Pow_B mul_locals"
        using m r B by (auto simp: pow_vars_def)
      then have "wf_mpz (cells h3 m) \<and> mag (cells h3 m) = M \<and> used (cells h3 m) = used (cells h2 m)"
        "has h3 r (int ?X)" "has h3 Pow_E (int (E div 2))"
        using keeps_mag [OF k] keeps_has [OF k] m2 s2 by (auto simp: pow_state_def)
      moreover have "b * b mod M < 4294967296 ^ L" using mod_bound [OF m2(1)] m2 M by simp
      ultimately have s3: "pow_state r m M L ?X (b * b mod M) (E div 2) h3"
        using h3 s2 m2 keeps_plenty [OF k] by (simp add: pow_state_def)
      have "?X * (b * b mod M) ^ (E div 2) mod M = R * b ^ E mod M"
        by (rule pow_arith [OF E]) auto
      moreover have "keeps ?S h2 h3" using k by (auto simp: pow_vars_def intro: keeps_mono)
      moreover have "keeps ?S h h2" using h1 by (simp add: h2_def keeps_put_iff pow_vars_def)
      ultimately show "keeps ?S h h3 \<and> (\<exists>X C. pow_state r m M L X C (E div 2) h3 \<and> X * C ^ (E div 2) mod M = R * b ^ E mod M)"
        using s3 keeps_step by blast
    qed
    then show ?thesis by (simp add: e(1) h2_def)
  qed
  show ?thesis unfolding pow_step_def odd_e bind.bind_lunit gives_ok_then
    by (rule gives_mono [OF 1], rule 2)
qed

lemma pow_loop_gives:
  assumes "pow_state r m M L R b E h" "0 < E" "L < 2 ^ 24" "0 < M"
    "r \<notin> insert Pow_B (insert Pow_E mul_locals)" "m \<notin> pow_vars r"
  shows "gives (pow_loop (Some m) r h) (\<lambda>h'. keeps (pow_vars r) h h' \<and>
    (\<exists>X C. pow_state r m M L X C 1 h' \<and> X * C mod M = R * b ^ E mod M))"
  using assms(1,2)
proof (induction E arbitrary: h R b rule: less_induct)
  case (less E)
  have c: "mpz_cmpabs_ui (cells h Pow_E) 1 > 0 \<longleftrightarrow> 1 < E" using less.prems(1) cmpabs_1 by (simp add: pow_state_def)
  show ?case
  proof (cases "1 < E")
    case False
    then have "E = 1" using less.prems(2) by simp
    then show ?thesis using less.prems(1) c by (subst pow_loop.simps) auto
  next
    case True
    from pow_step_gives [OF less.prems(1) True assms(3-6)] obtain h1 X C where h1: "pow_step (Some m) r h = Some (SBN_OK, h1)"
      "keeps (pow_vars r) h h1" "pow_state r m M L X C (E div 2) h1" "X * C ^ (E div 2) mod M = R * b ^ E mod M"
      by (elim givesE) blast
    have "gives (pow_loop (Some m) r h1) (\<lambda>h'. keeps (pow_vars r) h1 h' \<and>
      (\<exists>X' C'. pow_state r m M L X' C' 1 h' \<and> X' * C' mod M = X * C ^ (E div 2) mod M))"
      by (rule less.IH [OF _ h1(3)]) (use True in simp_all)
    then have "gives (pow_loop (Some m) r h1) (\<lambda>h'. keeps (pow_vars r) h h' \<and>
      (\<exists>X' C'. pow_state r m M L X' C' 1 h' \<and> X' * C' mod M = R * b ^ E mod M))"
      by (rule gives_mono) (use h1(2,4) in \<open>auto intro: keeps_step\<close>)
    then show ?thesis using True c h1(1) by (subst pow_loop.simps) simp
  qed
qed

text \<open>The working copies, and the state in which the loop starts.\<close>

lemma power_copies:
  assumes "plenty h" "wf_mpz (cells h b)" "wf_mpz (cells h e)" "used (cells h b) + 1 < 2 ^ 32" "used (cells h e) + 1 < 2 ^ 32"
    "b \<noteq> Pow_B" "b \<noteq> Pow_E" "e \<noteq> Pow_B" "e \<noteq> Pow_E"
  shows "\<exists>h1 h2. mpz_set Pow_B b (mpz_init Pow_E (mpz_init Pow_B h)) = Some (SBN_OK, h1) \<and> mpz_set Pow_E e h1 = Some (SBN_OK, h2) \<and>
    plenty h2 \<and> keeps {Pow_B, Pow_E} h h2 \<and>
    wf_mpz (cells h2 Pow_B) \<and> mag (cells h2 Pow_B) = mag (cells h b) \<and> neg (cells h2 Pow_B) = neg (cells h b) \<and>
    wf_mpz (cells h2 Pow_E) \<and> mag (cells h2 Pow_E) = mag (cells h e) \<and> neg (cells h2 Pow_E) = neg (cells h e) \<and>
    0 < length (atoms (cells h2 Pow_E))"
proof -
  define h0 where "h0 = mpz_init Pow_E (mpz_init Pow_B h)"
  have h0: "cells h0 p = cells h p" if "p \<noteq> Pow_B" "p \<noteq> Pow_E" for p using that by (simp add: h0_def mpz_init_def)
  have z0: "cells h0 Pow_B = zero_mpz" "cells h0 Pow_E = zero_mpz" "plenty h0" "keeps {Pow_B, Pow_E} h h0"
    using assms(1) by (simp_all add: h0_def mpz_init_def keeps_put_iff)
  have b0: "cells h0 b = cells h b" and e0: "cells h0 e = cells h e" using h0 assms(6-9) by simp_all
  have "used (cells h0 b) + 1 < 2 ^ 32" "wf_mpz (cells h0 Pow_B)" "wf_mpz (cells h0 b)" using assms(2,4) b0 z0 by simp_all
  from set_gives [OF z0(3) this assms(6)] obtain h1 where h1: "mpz_set Pow_B b h0 = Some (SBN_OK, h1)" "only Pow_B h0 h1"
    "wf_mpz (cells h1 Pow_B)" "digits (cells h1 Pow_B) = digits (cells h0 b)" "neg (cells h1 Pow_B) = neg (cells h0 b)"
    by (elim givesE) blast
  have c1: "cells h1 p = cells h0 p" if "p \<noteq> Pow_B" for p using only_other [OF h1(2) that] .
  have e1: "cells h1 e = cells h e" "cells h1 Pow_E = zero_mpz" using c1 [of e] c1 [of Pow_E] assms(8) e0 z0 by simp_all
  have "used (cells h1 e) + 1 < 2 ^ 32" "wf_mpz (cells h1 Pow_E)" "wf_mpz (cells h1 e)" using assms(3,5) e1 by simp_all
  from set_gives [OF only_plenty [OF h1(2) z0(3)] this assms(9)] obtain h2 where h2: "mpz_set Pow_E e h1 = Some (SBN_OK, h2)" "only Pow_E h1 h2"
    "wf_mpz (cells h2 Pow_E)" "digits (cells h2 Pow_E) = digits (cells h1 e)" "neg (cells h2 Pow_E) = neg (cells h1 e)"
    "used (cells h1 e) < length (atoms (cells h2 Pow_E))"
    by (elim givesE) blast
  have "cells h2 Pow_B = cells h1 Pow_B" using only_other [OF h2(2)] by simp
  moreover have "keeps {Pow_B, Pow_E} h0 h2"
    using keeps_step [OF only_keeps [OF h1(2)] only_keeps [OF h2(2)], of "{Pow_B, Pow_E}"] by simp
  ultimately show ?thesis
    using h1 h2 b0 e1 z0(4) only_plenty [OF h2(2) only_plenty [OF h1(2) z0(3)]]
    unfolding h0_def [symmetric] by (intro exI [of _ h1] exI [of _ h2]) (auto simp: mag_def intro: keeps_step)
qed

lemma power_setup:
  assumes "plenty h" "wf_mpz (cells h r)" "wf_mpz (cells h b)" "wf_mpz (cells h e)" "wf_mpz (cells h m)"
    "used (cells h b) \<le> L" "used (cells h e) + 1 < 2 ^ 32" "used (cells h m) \<le> L" "1 \<le> L" "L < 2 ^ 24"
    "\<not> neg (cells h e)" "neg (cells h b) \<Longrightarrow> even (mag (cells h e))" "{b, e} \<inter> {Pow_B, Pow_E} = {}" "m \<notin> pow_vars r"
    "r \<notin> insert Pow_B (insert Pow_E mul_locals)"
  shows "\<exists>h4. power_raw (Some m) r b e h = ok_then (pow_loop (Some m) r h4) (\<lambda>h.
       ok_then (mpz_mul r r Pow_B h) (\<lambda>h. Some (SBN_OK, upd r (\<lambda>m. m\<lparr>neg := False\<rparr>) h))) \<and>
     keeps (pow_vars r) h h4 \<and> pow_state r m (mag (cells h m)) L 1 (mag (cells h b)) (mag (cells h e)) h4"
proof -
  let ?b = "mag (cells h b)" and ?e = "mag (cells h e)"
  have ne: "r \<noteq> Pow_B" "r \<noteq> Pow_E" "m \<noteq> r" "m \<noteq> Pow_B" "m \<noteq> Pow_E" "b \<noteq> Pow_B" "b \<noteq> Pow_E" "e \<noteq> Pow_B" "e \<noteq> Pow_E"
    using assms(13-15) by (auto simp: pow_vars_def)
  have "used (cells h b) + 1 < 2 ^ 32" using assms(6,10) by simp
  from power_copies [OF assms(1,3,4) this assms(7) ne(6-9)] obtain h1 h2 where
    h: "mpz_set Pow_B b (mpz_init Pow_E (mpz_init Pow_B h)) = Some (SBN_OK, h1)" "mpz_set Pow_E e h1 = Some (SBN_OK, h2)"
    "plenty h2" "keeps {Pow_B, Pow_E} h h2"
    and B2: "wf_mpz (cells h2 Pow_B)" "mag (cells h2 Pow_B) = ?b" "neg (cells h2 Pow_B) = neg (cells h b)"
    and E2: "wf_mpz (cells h2 Pow_E)" "mag (cells h2 Pow_E) = ?e" "neg (cells h2 Pow_E) = neg (cells h e)" "0 < length (atoms (cells h2 Pow_E))"
    by blast
  have rs: "(if neg (cells h2 Pow_B) then mpz_is_odd_macro (cells h2 Pow_E) else Some False) = Some False"
    using testbit_spec [of 0 "atoms (cells h2 Pow_E)"] wf_nval_atoms [OF E2(1)] E2 B2(3) assms(12) by (simp add: mpz_is_odd_macro_def bit_0)
  define h3 where "h3 = mpz_abs_macro Pow_B h2"
  have c3: "cells h3 p = cells h2 p" if "p \<noteq> Pow_B" for p using that by (simp add: h3_def mpz_abs_macro_def)
  have B3: "has h3 Pow_B (int ?b)" using B2 by (simp add: h3_def mpz_abs_macro_def has_def ival_def)
  have E3: "has h3 Pow_E (int ?e)" using E2 assms(11) c3 [of Pow_E] by (simp add: has_def ival_def)
  have pl3: "plenty h3" and k3: "keeps {Pow_B, Pow_E} h h3" using h(3,4) by (simp_all add: h3_def mpz_abs_macro_def keeps_upd_iff)
  have r3: "wf_mpz (cells h3 r)" using keeps_props(1) [OF k3 _ assms(2)] ne by simp
  from set_ui_gives [OF pl3 r3, of 1] obtain h4 where h4: "mpz_set_ui r 1 h3 = Some (SBN_OK, h4)" "only r h3 h4" "has h4 r (int 1)"
    by (elim givesE) auto
  have k4: "keeps (pow_vars r) h h4"
    using keeps_step [OF keeps_mono [OF k3] only_keeps [OF h4(2)], of "pow_vars r"] by (simp add: pow_vars_def)
  have B4: "has h4 Pow_B (int ?b)" "has h4 Pow_E (int ?e)" using B3 E3 only_other [OF h4(2)] ne by (simp_all add: has_def)
  have m4: "wf_mpz (cells h4 m) \<and> mag (cells h4 m) = mag (cells h m) \<and> used (cells h4 m) = used (cells h m)"
    by (rule keeps_mag [OF k4 assms(14,5)])
  have "?b < 4294967296 ^ L"
    by (rule less_le_trans [OF mag_less [OF assms(3)]]) (use assms(6) in \<open>simp add: power_increasing\<close>)
  moreover have "1 < (4294967296 :: nat) ^ L" using assms(9) by (intro one_less_power) simp_all
  ultimately have "pow_state r m (mag (cells h m)) L 1 ?b ?e h4"
    using h4(3) B4 m4 assms(8) only_plenty [OF h4(2) pl3] by (simp add: pow_state_def)
  moreover have "power_raw (Some m) r b e h = ok_then (pow_loop (Some m) r h4) (\<lambda>h.
       ok_then (mpz_mul r r Pow_B h) (\<lambda>h. Some (SBN_OK, upd r (\<lambda>m. m\<lparr>neg := False\<rparr>) h)))"
    unfolding power_raw_def h(1) ok_then_def bind.bind_lunit prod.case simp_thms if_True h(2) rs h3_def [symmetric] h4(1) by simp
  ultimately show ?thesis using k4 by blast
qed

text \<open>For an exponent of 0 the loop does not run and the base is the result.\<close>

lemma power_raw_gives:
  assumes "plenty h" "wf_mpz (cells h r)" "wf_mpz (cells h b)" "wf_mpz (cells h e)" "wf_mpz (cells h m)"
    "used (cells h b) \<le> L" "used (cells h e) + 1 < 2 ^ 32" "used (cells h m) \<le> L" "1 \<le> L" "L < 2 ^ 24"
    "\<not> neg (cells h e)" "neg (cells h b) \<Longrightarrow> even (mag (cells h e))" "{b, e} \<inter> {Pow_B, Pow_E} = {}" "m \<notin> pow_vars r"
    "r \<notin> insert Pow_B (insert Pow_E mul_locals)" "0 < mag (cells h m)"
  shows "gives (power_raw (Some m) r b e h) (\<lambda>h'. keeps (pow_vars r) h h' \<and> (\<exists>P. has h' r (int P) \<and> P < 4294967296 ^ (L + L) \<and>
    P mod mag (cells h m) = mag (cells h b) ^ max 1 (mag (cells h e)) mod mag (cells h m)))"
proof -
  let ?b = "mag (cells h b)" and ?e = "mag (cells h e)" and ?M = "mag (cells h m)" and ?S = "pow_vars r"
  obtain h4 where e4: "power_raw (Some m) r b e h = ok_then (pow_loop (Some m) r h4) (\<lambda>h.
       ok_then (mpz_mul r r Pow_B h) (\<lambda>h. Some (SBN_OK, upd r (\<lambda>m. m\<lparr>neg := False\<rparr>) h)))"
    and k4: "keeps ?S h h4" and s4: "pow_state r m ?M L 1 ?b ?e h4"
    using power_setup [OF assms(1-15)] by blast
  have loop: "gives (pow_loop (Some m) r h4) (\<lambda>h'. keeps ?S h4 h' \<and>
     (\<exists>X C E. pow_state r m ?M L X C E h' \<and> X * C mod ?M = ?b ^ max 1 ?e mod ?M))"
  proof (cases "?e = 0")
    case True
    have "\<not> mpz_cmpabs_ui (cells h4 Pow_E) 1 > 0" using s4 cmpabs_1 [of h4 Pow_E ?e] True by (simp add: pow_state_def)
    then have e: "pow_loop (Some m) r h4 = Some (SBN_OK, h4)" by (simp add: pow_loop.simps)
    have "1 * ?b mod ?M = ?b ^ max 1 ?e mod ?M" using True by simp
    then show ?thesis unfolding e gives_Some using s4 by (intro conjI keeps_refl) blast+
  next
    case False
    then have "1 * ?b ^ ?e = ?b ^ max 1 ?e" by (simp add: max_def)
    have "0 < ?e" using False by simp
    from pow_loop_gives [OF s4 this assms(10,16,15,14)] show ?thesis
    proof (rule gives_mono)
      fix h' assume "keeps ?S h4 h' \<and> (\<exists>X C. pow_state r m ?M L X C 1 h' \<and> X * C mod ?M = 1 * ?b ^ ?e mod ?M)"
      then show "keeps ?S h4 h' \<and> (\<exists>X C E. pow_state r m ?M L X C E h' \<and> X * C mod ?M = ?b ^ max 1 ?e mod ?M)"
        unfolding \<open>1 * ?b ^ ?e = ?b ^ max 1 ?e\<close> by blast
    qed
  qed
  show ?thesis unfolding e4 gives_ok_then
  proof (rule gives_mono [OF loop])
    fix h5 assume "keeps ?S h4 h5 \<and> (\<exists>X C E. pow_state r m ?M L X C E h5 \<and> X * C mod ?M = ?b ^ max 1 ?e mod ?M)"
    then obtain X C E where h5: "keeps ?S h4 h5" "pow_state r m ?M L X C E h5" "X * C mod ?M = ?b ^ max 1 ?e mod ?M" by blast
    have hr: "has h5 r (int X)" "has h5 Pow_B (int C)" "X < 4294967296 ^ L" "C < 4294967296 ^ L" "plenty h5"
      using h5(2) by (simp_all add: pow_state_def)
    have u: "used (cells h5 r) \<le> L" "used (cells h5 Pow_B) \<le> L" using has_used hr by blast+
    have nl: "r \<noteq> Muli_rt" using assms(15) by (auto simp: mul_locals_def)
    have "used (cells h5 r) + used (cells h5 Pow_B) + 1 < 2 ^ 32" using u assms(10) by simp
    from mpz_mul_gives [OF hr(5) _ _ _ this nl nl] has_nat [OF hr(1)] has_nat [OF hr(2)]
    have g: "gives (mpz_mul r r Pow_B h5) (\<lambda>h'. keeps {r, Muli_rt} h5 h' \<and> has h' r (int (X * C)))" by simp
    show "gives (mpz_mul r r Pow_B h5) (\<lambda>h6. gives (Some (SBN_OK, upd r (\<lambda>m. m\<lparr>neg := False\<rparr>) h6)) (\<lambda>h'. keeps ?S h h' \<and>
       (\<exists>P. has h' r (int P) \<and> P < 4294967296 ^ (L + L) \<and> P mod ?M = ?b ^ max 1 ?e mod ?M)))"
    proof (rule gives_mono [OF g])
      fix h6 assume h6: "keeps {r, Muli_rt} h5 h6 \<and> has h6 r (int (X * C))"
      then have "keeps ?S h5 h6" by (auto simp: pow_vars_def mul_locals_def intro: keeps_mono)
      then have k: "keeps ?S h h6" using k4 h5(1) keeps_step by blast
      have v: "mag (cells h6 r) = X * C" "wf_mpz (cells h6 r)" using h6 has_nat by blast+
      have "X * C < 4294967296 ^ L * 4294967296 ^ L" using hr(3,4) by (intro mult_strict_mono) simp_all
      then have "X * C < 4294967296 ^ (L + L)" by (simp only: power_add)
      moreover have "has (upd r (\<lambda>m. m\<lparr>neg := False\<rparr>) h6) r (int (X * C))" using v by (simp add: has_def ival_def)
      moreover have "keeps ?S h (upd r (\<lambda>m. m\<lparr>neg := False\<rparr>) h6)" using k by (simp add: keeps_upd_iff pow_vars_def)
      ultimately show "gives (Some (SBN_OK, upd r (\<lambda>m. m\<lparr>neg := False\<rparr>) h6)) (\<lambda>h'. keeps ?S h h' \<and>
       (\<exists>P. has h' r (int P) \<and> P < 4294967296 ^ (L + L) \<and> P mod ?M = ?b ^ max 1 ?e mod ?M))"
        using h5(3) unfolding gives_Some by blast
    qed
  qed
qed

lemma powm_gives:
  assumes "plenty h" "wf_mpz (cells h r)" "wf_mpz (cells h b)" "wf_mpz (cells h e)" "wf_mpz (cells h m)" "0 < mag (cells h m)"
    "used (cells h b) < 2 ^ 24" "used (cells h e) < 2 ^ 24" "used (cells h m) < 2 ^ 24" "\<not> neg (cells h e)"
    "neg (cells h b) \<Longrightarrow> even (mag (cells h e))" "{r, b, e, m} \<inter> insert Powm_m (insert Pow_B (insert Pow_E mul_locals)) = {}"
  shows "gives (mpz_powm r b e m h) (\<lambda>h'. keeps (insert Powm_m (pow_vars r)) h h' \<and>
    has h' r (int (mag (cells h b) ^ max 1 (mag (cells h e)) mod mag (cells h m))))"
proof -
  let ?S = "insert Powm_m (pow_vars r)" and ?M = "mag (cells h m)" and ?P = "mag (cells h b) ^ max 1 (mag (cells h e))"
  define L where "L = max 1 (max (used (cells h b)) (used (cells h m)))"
  have L: "L < 2 ^ 24" "used (cells h b) \<le> L" "used (cells h m) \<le> L" "1 \<le> L" using assms by (simp_all add: L_def)
  define mm where "mm = (if r = m then Powm_m else m)"
  define h0 where "h0 = clone_if (r = m) Powm_m m h"
  have rv: "r \<notin> insert Pow_B (insert Pow_E mul_locals)" and mv: "mm \<notin> pow_vars r" and be: "{b, e} \<inter> {Pow_B, Pow_E} = {}"
    using assms(12) by (auto simp: mm_def pow_vars_def mul_locals_def)
  have h0: "cells h0 r = cells h r" "cells h0 b = cells h b" "cells h0 e = cells h e" "cells h0 mm = cells h m" "plenty h0" "keeps ?S h h0"
    using assms(1,12) by (auto simp: h0_def mm_def clone_if_def mpz_clone_stack_def keeps_put_iff)
  have "used (cells h e) + 1 < 2 ^ 32" using assms(8) by simp
  from power_raw_gives [OF h0(5), of r b e mm L, unfolded h0, OF assms(2-5) L(2) this L(3,4,1) assms(10,11) be mv rv assms(6)]
  have "gives (power_raw (Some mm) r b e h0) (\<lambda>h1. gives (mpz_mod r r mm h1) (\<lambda>h'. keeps ?S h h' \<and> has h' r (int (?P mod ?M))))"
  proof (rule gives_mono)
    fix h1 assume "keeps (pow_vars r) h0 h1 \<and> (\<exists>P. has h1 r (int P) \<and> P < 4294967296 ^ (L + L) \<and> P mod ?M = ?P mod ?M)"
    then obtain P where h1: "keeps (pow_vars r) h0 h1" "has h1 r (int P)" "P < 4294967296 ^ (L + L)" "P mod ?M = ?P mod ?M" by blast
    have k1: "keeps ?S h h1" using keeps_mono [OF h1(1), of ?S] h0(6) by (auto intro: keeps_step)
    have m1: "wf_mpz (cells h1 mm) \<and> mag (cells h1 mm) = ?M \<and> used (cells h1 mm) = used (cells h m)"
      using keeps_mag [OF h1(1) mv] assms(5) by (simp add: h0)
    have u: "used (cells h1 r) < 2 ^ 26" using has_used [OF h1(2,3)] L(1) by simp
    have "gives (mpz_mod r r mm h1) (\<lambda>h'. keeps {r, Div_z, Div_d, Mod_m} h1 h' \<and> has h' r (ival (cells h1 r) mod int (mag (cells h1 mm))))"
      by (rule mod_gives) (use has_nat [OF h1(2)] m1 u keeps_plenty [OF h1(1) h0(5)] assms(6,9) rv mv in \<open>auto simp: mul_locals_def pow_vars_def\<close>)
    then show "gives (mpz_mod r r mm h1) (\<lambda>h'. keeps ?S h h' \<and> has h' r (int (?P mod ?M)))"
    proof (rule gives_mono)
      fix h2 assume h2: "keeps {r, Div_z, Div_d, Mod_m} h1 h2 \<and> has h2 r (ival (cells h1 r) mod int (mag (cells h1 mm)))"
      then have "keeps ?S h1 h2" by (auto simp: pow_vars_def mul_locals_def intro: keeps_mono)
      then show "keeps ?S h h2 \<and> has h2 r (int (?P mod ?M))"
        using h2 k1 m1 has_nat [OF h1(2)] h1(4) by (simp add: zmod_int [symmetric]) (blast intro: keeps_step)
    qed
  qed
  then show ?thesis using assms(10) by (simp add: mpz_powm_def mm_def [symmetric] h0_def [symmetric])
qed

section \<open>Properties\<close>



end
