(* ===== verification/Bigstr.thy ===== *)
theory Bigstr
  imports Strings Rc4 Bigpow
begin

text \<open>
  Big numbers as text, and the random numbers of sbignum.c.

  A buffer is the list of its bytes; a write behind its end is undefined behaviour (\<open>None\<close>).  The
  tables are those of sbignum-tables.c for words of 32 bits.
\<close>

section \<open>Tables\<close>

definition cset :: string where "cset = ''0123456789abcdefghijklmnopqrstuvwxyz''"

definition r_cset :: "int list" where
  "r_cset = replicate 48 (- 1) @ map int [0..<10] @ replicate 39 (- 1) @ map int [10..<36] @ replicate 133 (- 1)"

text \<open>The biggest power of the base that fits in a word, and its exponent.\<close>

definition basepowtable :: "(u32 \<times> nat) list" where
  "basepowtable =
    [(0, 0), (0, 0), (2147483648, 31), (3486784401, 20), (1073741824, 15), (1220703125, 13), (2176782336, 12),
     (1977326743, 11), (1073741824, 10), (3486784401, 10), (1000000000, 9), (2357947691, 9), (429981696, 8),
     (815730721, 8), (1475789056, 8), (2562890625, 8), (268435456, 7), (410338673, 7), (612220032, 7), (893871739, 7),
     (1280000000, 7), (1801088541, 7), (2494357888, 7), (3404825447, 7), (191102976, 6), (244140625, 6), (308915776, 6),
     (387420489, 6), (481890304, 6), (594823321, 6), (729000000, 6), (887503681, 6), (1073741824, 6), (1291467969, 6),
     (1544804416, 6), (1838265625, 6), (2176782336, 6)]"

text \<open>A byte above 127 is a negative index.\<close>

definition sbn_chartoval :: "char \<Rightarrow> int option" where
  "sbn_chartoval c = (if (of_char c :: nat) < 128 then Some (r_cset ! of_char (tolower c)) else None)"

section \<open>Printing\<close>

text \<open>The digits of one word \<open>x\<close>, at most \<open>i\<close>; they end early when the rest of the number is zero.\<close>

fun tostr_digits :: "nat \<Rightarrow> u32 \<Rightarrow> bool \<Rightarrow> u32 \<Rightarrow> string \<Rightarrow> nat \<Rightarrow> (string \<times> nat) option" where
  "tostr_digits 0 b rest x s d = Some (s, d)"
| "tostr_digits (Suc i) b rest x s d =
     Option.bind (put_char s d (cset ! unat (x mod b))) (\<lambda>s.
       if x div b = 0 \<and> rest then Some (s, d + 1) else tostr_digits i b rest (x div b) s (d + 1))"

partial_function (option) tostr_loop :: "u32 \<Rightarrow> u32 \<Rightarrow> nat \<Rightarrow> mpz \<Rightarrow> string \<Rightarrow> nat \<Rightarrow> (string \<times> nat) option" where
  "tostr_loop b hb hbn t s d =
     (if used t = 0 then Some (s, d)
      else Option.bind (mpz_selfdiv1_qr_raw t hb) (\<lambda>(x, t).
        Option.bind (tostr_digits hbn b (used t = 0) x s d) (\<lambda>(s, d). tostr_loop b hb hbn t s d)))"

text \<open>The sign, the end of the string, and the reversal.  \<open>l\<close> is the room that is left, as the code
  counts it.\<close>

definition tostr_done :: "bool \<Rightarrow> nat \<Rightarrow> string \<Rightarrow> nat \<Rightarrow> string option" where
  "tostr_done sign l s d = do {
     (s, d) \<leftarrow> (if l \<noteq> 0 \<and> sign then map_option (\<lambda>s. (s, d + 1)) (put_char s d (CHR ''-'')) else Some (s, d));
     s \<leftarrow> put_char s d (CHR 0x00);
     Some (rev (take d s) @ drop d s)
   }"

definition mpz_tostr :: "ptr \<Rightarrow> u32 \<Rightarrow> string \<Rightarrow> nat \<Rightarrow> bn \<Rightarrow> (sbn_err \<times> string \<times> bn) option" where
  "mpz_tostr z b s l h =
     (if b < 2 \<or> b > 36 then Some (SBN_INVAL, s, h)
      else if l = 0 then Some (SBN_OK, s, h)
      else if used (cells h z) = 0 then do {
        s \<leftarrow> put_char s 0 (CHR ''0'');
        s \<leftarrow> tostr_done (neg (cells h z)) l s 1;
        Some (SBN_OK, s, h)
      }
      else do {
        (err, h) \<leftarrow> mpz_set Str_t z (mpz_init Str_t h);
        (s, d) \<leftarrow> (if l - 1 \<noteq> 0
                  then tostr_loop b (fst (basepowtable ! unat b)) (snd (basepowtable ! unat b)) (cells h Str_t) s 0
                  else Some (s, 0));
        s \<leftarrow> tostr_done (neg (cells h z)) (l - 1) s d;
        Some (SBN_OK, s, h)
      })"

section \<open>Reading\<close>

text \<open>The base from a prefix, when the base asked for is 0.\<close>

definition guess_base :: "string \<Rightarrow> int \<times> string" where
  "guess_base s = (case s of
     CHR ''0'' # s \<Rightarrow> (case s of
        c # s' \<Rightarrow> if tolower c = CHR ''x'' then (16, s') else if tolower c = CHR ''b'' then (2, s') else (8, s)
      | [] \<Rightarrow> (8, s))
   | _ \<Rightarrow> (10, s))"

text \<open>The digits from the last to the first; the first character is not skipped as a blank.\<close>

definition digits_reversed :: "string \<Rightarrow> string" where
  "digits_reversed s = (case s of [] \<Rightarrow> [] | c # cs \<Rightarrow> dropWhile isspace (rev cs) @ [c])"

text \<open>The result of \<open>mpz_set_ui\<close> for the digit is not looked at.\<close>

fun set_str_loop :: "ptr \<Rightarrow> int \<Rightarrow> string \<Rightarrow> bn \<Rightarrow> outcome" where
  "set_str_loop z b [] h = Some (SBN_OK, h)"
| "set_str_loop z b (c # cs) h =
     Option.bind (sbn_chartoval c) (\<lambda>digit.
       if digit < 0 \<or> digit \<ge> b then Some (SBN_INVAL, h)
       else Option.bind (mpz_set_ui Str_toadd (word_of_int digit) h) (\<lambda>(_, h).
         ok_then (mpz_mul Str_toadd Str_toadd Str_pow h) (\<lambda>h.
         ok_then (mpz_add z z Str_toadd h) (\<lambda>h.
         ok_then (mpz_mul_ui Str_pow Str_pow (word_of_int b) h) (\<lambda>h.
           set_str_loop z b cs h)))))"

definition mpz_set_str :: "ptr \<Rightarrow> string \<Rightarrow> int \<Rightarrow> bn \<Rightarrow> outcome" where
  "mpz_set_str z s b h =
     (let s = dropWhile isspace s;
          sign = (case s of c # _ \<Rightarrow> c = CHR ''-'' | [] \<Rightarrow> False);
          s = (if sign then tl s else s);
          (b, s) = (if b = 0 then guess_base s else (b, s)) in
      if b < 2 \<or> b > 36 then Some (SBN_INVAL, h)
      else Option.bind (mpz_zero (cells h z)) (\<lambda>m.
        ok_then (mpz_set_ui Str_pow 1 (poke z m (mpz_init Str_toadd (mpz_init Str_pow h)))) (\<lambda>h.
        ok_then (set_str_loop z b (digits_reversed s) h) (\<lambda>h.
          Some (SBN_OK, upd z (\<lambda>m. m\<lparr>neg := sign\<rparr>) h)))))"

section \<open>Random numbers\<close>

definition sbn_rand_init :: "rc4 \<Rightarrow> rc4" where
  "sbn_rand_init r = r\<lparr>rc4_sbox := map word_of_nat [0..<256], rc4_seedflag := True\<rparr>"

definition sbn_rand :: "rc4 \<Rightarrow> (u32 \<times> rc4) option" where
  "sbn_rand r = do {
     let r = (if rc4_seedflag r then r else sbn_rand_init r);
     (a, r) \<leftarrow> rc4_byte r;
     (b, r) \<leftarrow> rc4_byte r;
     (c, r) \<leftarrow> rc4_byte r;
     (d, r) \<leftarrow> rc4_byte r;
     Some (le32 a b c d, r)
   }"

primrec seed_mix :: "bytes \<Rightarrow> nat \<Rightarrow> bytes \<Rightarrow> bytes option" where
  "seed_mix [] i sbox = Some sbox"
| "seed_mix (x # xs) i sbox = do {
     old \<leftarrow> ld8 sbox (i mod 256);
     sbox \<leftarrow> st8 sbox (i mod 256) (old XOR x);
     seed_mix xs (i + 1) sbox
   }"

primrec discard :: "nat \<Rightarrow> rc4 \<Rightarrow> rc4 option" where
  "discard 0 r = Some r"
| "discard (Suc n) r = Option.bind (sbn_rand r) (\<lambda>(_, r). discard n r)"

definition sbn_seed :: "bytes \<Rightarrow> rc4 \<Rightarrow> rc4 option" where
  "sbn_seed seed r = do {
     sbox \<leftarrow> seed_mix seed 0 (rc4_sbox r);
     discard 32 (r\<lparr>rc4_sbox := sbox\<rparr>)
   }"

primrec random_words :: "nat \<Rightarrow> rc4 \<Rightarrow> (u32 list \<times> rc4) option" where
  "random_words 0 r = Some ([], r)"
| "random_words (Suc n) r = do {
     (w, r) \<leftarrow> sbn_rand r;
     (ws, r) \<leftarrow> random_words n r;
     Some (w # ws, r)
   }"

text \<open>The words of the old value above the new ones are not cleared; the length is taken over all.\<close>

definition mpz_random :: "ptr \<Rightarrow> 32 word \<Rightarrow> bn \<Rightarrow> rc4 \<Rightarrow> (sbn_err \<times> bn \<times> rc4) option" where
  "mpz_random z len h r =
     (let sign = sint len < 0; len = (if sign then - len else len) in
      if len = 0 then map_option (\<lambda>(e, h). (e, h, r)) (mpz_setzero z h)
      else do {
        (err, h) \<leftarrow> mpz_realloc z (unat (len - 1)) h;
        if err \<noteq> SBN_OK then Some (err, h, r)
        else do {
          (ws, r) \<leftarrow> random_words (nat (sint len)) r;
          xs \<leftarrow> overwrite (atoms (cells h z)) ws;
          Some (SBN_OK, upd z (\<lambda>m. (mpz_normalize_macro (m\<lparr>atoms := xs\<rparr>))\<lparr>neg := sign\<rparr>) h, r)
        }
      })"

section \<open>The tables are right\<close>

definition base_ok :: "nat \<Rightarrow> bool" where
  "base_ok b \<longleftrightarrow> 2 \<le> b \<and> b \<le> 36"

lemma basepow_all:
  "list_all (\<lambda>b. let (p, e) = basepowtable ! b in uint p = int b ^ e \<and> 0 < e) [2..<37]"
  by code_simp

lemma basepow:
  assumes "base_ok b"
  shows "unat (fst (basepowtable ! b)) = b ^ snd (basepowtable ! b)" "0 < snd (basepowtable ! b)"
proof -
  have "2 \<le> b" "b < 37" using assms by (simp_all add: base_ok_def)
  then have "b \<in> set [2..<37]" by (simp only: set_upt atLeastLessThan_iff)
  from basepow_all [unfolded list_all_iff, rule_format, OF this]
  have "uint (fst (basepowtable ! b)) = int b ^ snd (basepowtable ! b)" "0 < snd (basepowtable ! b)"
    by (simp_all add: case_prod_unfold Let_def)
  then show "unat (fst (basepowtable ! b)) = b ^ snd (basepowtable ! b)" "0 < snd (basepowtable ! b)"
    by (simp_all add: of_nat_eq_iff [where 'a = int, symmetric])
qed

lemma cset_all:
  "list_all (\<lambda>n. sbn_chartoval (cset ! n) = Some (int n) \<and> \<not> isspace (cset ! n) \<and> cset ! n \<notin> {CHR ''-'', CHR 0x00}) [0..<36]"
  by code_simp

lemma cset_digit:
  assumes "n < 36"
  shows "sbn_chartoval (cset ! n) = Some (int n)" "\<not> isspace (cset ! n)" "cset ! n \<noteq> CHR ''-''" "cset ! n \<noteq> CHR 0x00"
  using cset_all [unfolded list_all_iff, rule_format, of n] assms by simp_all

section \<open>Division by a word\<close>

lemma div1_word:
  fixes d a :: u32 and t :: u64
  assumes "unat t < unat d"
  defines "w \<equiv> push_bit 32 t + ucast a"
  shows "unat (ucast (w div ucast d) :: u32) = (4294967296 * unat t + unat a) div unat d"
    "unat (w mod ucast d) = (4294967296 * unat t + unat a) mod unat d"
proof -
  let ?n = "4294967296 * unat t + unat a"
  have d: "unat (ucast d :: u64) = unat d" by (simp add: unat_ucast_mod unat32_mod64)
  have n: "?n < 4294967296 * unat d"
  proof -
    have "4294967296 * Suc (unat t) \<le> 4294967296 * unat d" using assms(1) by (intro mult_le_mono2) simp
    then have "4294967296 + 4294967296 * unat t \<le> 4294967296 * unat d" by (simp only: mult_Suc_right)
    then show ?thesis using unat32_less [of a] by (simp only: not_le [symmetric])
  qed
  also have "\<dots> \<le> 4294967296 * 4294967296" by (rule mult_le_mono2) (rule less_imp_le [OF unat32_less])
  finally have n64: "?n < 18446744073709551616" by simp
  have w: "unat w = ?n"
    using n64 by (simp add: w_def push_bit_eq_mult unat_word_ariths unat_ucast_mod mod_add_eq mod_add_left_eq mult.commute
        mod_add_right_eq)
  have "?n div unat d < 4294967296" using n by (simp add: less_mult_imp_div_less)
  then show "unat (ucast (w div ucast d) :: u32) = ?n div unat d"
    by (simp add: unat_ucast_mod unat_div_distrib w d unat32_mod64)
  show "unat (w mod ucast d) = ?n mod unat d" by (simp only: unat_mod_distrib w d)
qed

lemma div1_loop_spec:
  "unat t < unat d \<Longrightarrow> div1_loop d xs t = (qs, t') \<Longrightarrow>
    length qs = length xs \<and> unat t' < unat d \<and> nval xs + 4294967296 ^ length xs * unat t = unat d * nval qs + unat t'"
proof (induction d xs t arbitrary: qs t' rule: div1_loop.induct)
  case (2 d a as t)
  obtain qs1 t1 where r: "div1_loop d as t = (qs1, t1)" by (cases "div1_loop d as t")
  let ?w = "push_bit 32 t1 + ucast a :: u64" and ?n = "4294967296 * unat t1 + unat a"
  have ih: "length qs1 = length as" "unat t1 < unat d"
    "nval as + 4294967296 ^ length as * unat t = unat d * nval qs1 + unat t1" using 2 r by simp_all
  have q: "qs = ucast (?w div ucast d) # qs1" "t' = ?w mod ucast d" using "2.prems"(2) by (simp_all add: r Let_def)
  note w = div1_word [OF ih(2), of a]
  have "unat d * nval qs + unat t' = unat d * (?n div unat d) + ?n mod unat d + 4294967296 * (unat d * nval qs1)"
    unfolding q nval.simps w by (simp only: distrib_left mult.assoc [symmetric] mult.commute [of "unat d" 4294967296])
  also have "\<dots> = unat a + 4294967296 * (unat d * nval qs1 + unat t1)" by (simp add: algebra_simps)
  also have "\<dots> = nval (a # as) + 4294967296 ^ length (a # as) * unat t" by (simp only: ih(3) [symmetric]) (simp add: algebra_simps)
  finally show ?case using ih "2.prems"(1) by (simp add: q w)
qed simp

text \<open>One division takes at most one word from the number.\<close>

lemma selfdiv1_spec:
  assumes m: "wf_mpz m" "used m \<noteq> 0" and d: "d \<noteq> 0"
  shows "\<exists>x m'. mpz_selfdiv1_qr_raw m d = Some (x, m') \<and> wf_mpz m' \<and> neg m' = neg m \<and>
    unat x = mag m mod unat d \<and> mag m' = mag m div unat d"
proof -
  obtain qs t where r: "div1_loop d (digits m) 0 = (qs, t)" by (cases "div1_loop d (digits m) 0")
  have d0: "0 < unat d" using d by (simp add: unat_gt_0)
  then have s: "length qs = used m" "unat t < unat d" "mag m = unat d * nval qs + unat t"
    using div1_loop_spec [OF _ r] m(1) by (simp_all add: length_digits mag_def)
  have q: "nval qs = mag m div unat d" "unat t = mag m mod unat d" using s(2,3) by simp_all
  have ne: "qs \<noteq> []" using s(1) m(2) by auto
  define u where "u = (if last qs = 0 then used m - 1 else used m)"
  define m' where "m' = m\<lparr>atoms := qs @ drop (used m) (atoms m), used := u\<rparr>"
  have "unat t < 4294967296" using s(2) unat32_less [of d] by linarith
  then have x: "unat (ucast t :: u32) = unat t" by (simp add: unat_ucast_mod)
  have run: "mpz_selfdiv1_qr_raw m d = Some (ucast t, m')"
    using m ne d r by (simp add: mpz_selfdiv1_qr_raw_def first_words_def wf_mpz_def digits_def m'_def u_def)
  have u: "u \<le> length qs" using s(1) by (simp add: u_def)
  have top: "set (drop u qs) \<subseteq> {0}"
    using ne s(1) by (cases qs rule: rev_cases) (auto simp: u_def)
  have dig: "digits m' = take u qs" using u by (simp add: m'_def digits_def)
  have v: "nval (take u qs) = nval qs" using top by (rule take_drop_nval)
  have "normal (take u qs)"
  proof (cases "last qs = 0 \<and> 1 < used m")
    case True
    then have k: "used m - 1 = Suc (used m - 2)" by arith
    have "(4294967296 :: nat) ^ (used m - 2) * unat d \<le> 4294967296 ^ (used m - 2) * 4294967296"
      by (rule mult_le_mono2) (rule less_imp_le [OF unat32_less])
    also have "\<dots> \<le> mag m" using mag_ge [OF m] by (simp only: k power_Suc2)
    finally have "4294967296 ^ (used m - 2) \<le> mag m div unat d" using d0 by (simp add: less_eq_div_iff_mult_less_eq)
    then show ?thesis using True s(1) by (simp add: normal_iff v q(1)) (simp add: u_def min_absorb2 numeral_2_eq_2)
  next
    case False
    then show ?thesis using ne s(1) m(2) by (auto simp: u_def normal_def)
  qed
  then have "wf_mpz m'" using u s(1) m(1) top dig by (auto simp: wf_mpz_def m'_def)
  moreover have "mag m' = mag m div unat d" by (simp add: mag_def dig v q)
  ultimately show ?thesis using run x q by (auto simp: m'_def)
qed

section \<open>Numerals\<close>

text \<open>The digits of a number, the least significant first; none for 0.\<close>

fun base_digits :: "nat \<Rightarrow> nat \<Rightarrow> nat list" where
  "base_digits b n = (if b < 2 \<or> n = 0 then [] else n mod b # base_digits b (n div b))"

declare base_digits.simps [simp del]

primrec low_digits :: "nat \<Rightarrow> nat \<Rightarrow> nat \<Rightarrow> nat list" where
  "low_digits b 0 n = []"
| "low_digits b (Suc i) n = n mod b # low_digits b i (n div b)"

primrec digit_value :: "nat \<Rightarrow> nat list \<Rightarrow> nat" where
  "digit_value b [] = 0"
| "digit_value b (d # ds) = d + b * digit_value b ds"

lemma base_digits_0 [simp]: "base_digits b 0 = []"
  by (simp add: base_digits.simps)

lemma base_digits_pos: "2 \<le> b \<Longrightarrow> 0 < n \<Longrightarrow> base_digits b n = n mod b # base_digits b (n div b)"
  by (subst base_digits.simps) simp

lemma digit_value_base: "2 \<le> b \<Longrightarrow> digit_value b (base_digits b n) = n"
proof (induction b n rule: base_digits.induct)
  case (1 b n)
  then show ?case by (cases "n = 0") (simp_all add: base_digits_pos)
qed

lemma base_digits_less: "2 \<le> b \<Longrightarrow> d \<in> set (base_digits b n) \<Longrightarrow> d < b"
proof (induction b n rule: base_digits.induct)
  case (1 b n)
  show ?case
  proof (cases "n = 0")
    case False
    then show ?thesis using 1 by (auto simp: base_digits_pos)
  qed (use 1 in simp)
qed

lemma base_digits_split: "2 \<le> b \<Longrightarrow> b ^ i \<le> n \<Longrightarrow> base_digits b n = low_digits b i n @ base_digits b (n div b ^ i)"
proof (induction i arbitrary: n)
  case (Suc i)
  then have "0 < b ^ Suc i" by simp
  then have "0 < n" using Suc.prems(2) by linarith
  have "b ^ i \<le> n div b" using Suc.prems by (simp add: less_eq_div_iff_mult_less_eq mult.commute)
  then have "base_digits b (n div b) = low_digits b i (n div b) @ base_digits b (n div b div b ^ i)" by (rule Suc.IH [OF Suc.prems(1)])
  then show ?case using base_digits_pos [OF Suc.prems(1) \<open>0 < n\<close>] by (simp add: div_mult2_eq)
qed simp

lemma low_digits_mod: "low_digits b i (n mod b ^ i) = low_digits b i n"
proof (induction i arbitrary: n)
  case (Suc i)
  have "n mod (b * b ^ i) div b = n div b mod b ^ i" by (cases "b = 0") (simp_all add: mod_mult2_eq)
  moreover have "n mod (b * b ^ i) mod b = n mod b" by (simp add: mod_mod_cancel)
  ultimately show ?case using Suc [of "n div b"] by simp
qed simp

lemma length_low_digits [simp]: "length (low_digits b i n) = i"
  by (induction i arbitrary: n) simp_all

lemma length_base_digits: "2 \<le> b \<Longrightarrow> n < 2 ^ k \<Longrightarrow> length (base_digits b n) \<le> k"
proof (induction k arbitrary: n)
  case (Suc k)
  show ?case
  proof (cases "n = 0")
    case False
    have "n div b \<le> n div 2" using Suc.prems(1) by (simp add: div_le_mono2)
    also have "n div 2 < 2 ^ k" using Suc.prems(2) by (simp add: less_mult_imp_div_less mult.commute)
    finally show ?thesis using Suc False by (simp add: base_digits_pos)
  qed simp
qed simp

section \<open>Printing is correct\<close>

text \<open>\<open>splice s d cs\<close>: the buffer with \<open>cs\<close> written from \<open>d\<close> on.\<close>

definition splice :: "string \<Rightarrow> nat \<Rightarrow> string \<Rightarrow> string" where
  "splice s d cs = take d s @ cs @ drop (d + length cs) s"

lemma splice_Nil [simp]: "splice s d [] = s"
  by (simp add: splice_def)

lemma length_splice [simp]: "d + length cs \<le> length s \<Longrightarrow> length (splice s d cs) = length s"
  by (simp add: splice_def)

lemma put_char_splice: "d < length s \<Longrightarrow> put_char s d c = Some (splice s d [c])"
  by (simp add: put_char_def splice_def upd_conv_take_nth_drop)

lemma splice_splice: "d + length cs \<le> length s \<Longrightarrow> splice (splice s d cs) (d + length cs) cs' = splice s d (cs @ cs')"
  by (simp add: splice_def ac_simps)

lemma splice_cons: "d < length s \<Longrightarrow> splice (splice s d [c]) (d + 1) cs = splice s d (c # cs)"
  using splice_splice [of d "[c]" s cs] by simp

definition numeral_of :: "nat list \<Rightarrow> string" where
  "numeral_of = List.map (\<lambda>d. cset ! d)"

lemma unat_base: "base_ok b \<Longrightarrow> unat (of_nat b :: u32) = b"
  by (simp only: unat_of_nat) (simp add: base_ok_def)

lemma tostr_digits_full:
  assumes "base_ok b"
  shows "d + i \<le> length s \<Longrightarrow> tostr_digits i (of_nat b) False x s d = Some (splice s d (numeral_of (low_digits b i (unat x))), d + i)"
proof (induction i arbitrary: x s d)
  case (Suc i)
  have "tostr_digits i (of_nat b) False (x div of_nat b) (splice s d [cset ! (unat x mod b)]) (d + 1) =
    Some (splice (splice s d [cset ! (unat x mod b)]) (d + 1) (numeral_of (low_digits b i (unat x div b))), d + 1 + i)"
    using Suc unat_base [OF assms] by (simp add: unat_div_distrib)
  then show ?case
    using Suc.prems unat_base [OF assms] by (simp add: put_char_splice unat_mod_distrib splice_cons [simplified] numeral_of_def)
qed (simp add: numeral_of_def)

lemma tostr_digits_rest:
  assumes "base_ok b"
  shows "0 < unat x \<Longrightarrow> unat x < b ^ i \<Longrightarrow> d + length (base_digits b (unat x)) \<le> length s \<Longrightarrow>
    tostr_digits i (of_nat b) True x s d =
      Some (splice s d (numeral_of (base_digits b (unat x))), d + length (base_digits b (unat x)))"
proof (induction i arbitrary: x s d)
  case (Suc i)
  let ?x = "x div of_nat b" and ?c = "cset ! (unat x mod b)"
  have b: "2 \<le> b" using assms by (simp add: base_ok_def)
  have x: "unat ?x = unat x div b" using unat_base [OF assms] by (simp add: unat_div_distrib)
  have ds: "base_digits b (unat x) = unat x mod b # base_digits b (unat ?x)"
    using base_digits_pos [OF b Suc.prems(1)] by (simp only: x)
  have d: "d < length s" using Suc.prems(3) ds by simp
  have z: "?x = 0 \<longleftrightarrow> unat ?x = 0" by (simp add: unsigned_eq_0_iff)
  show ?case
  proof (cases "?x = 0")
    case True
    then have "base_digits b (unat ?x) = []" by simp
    then show ?thesis using d True unat_base [OF assms] by (simp add: put_char_splice unat_mod_distrib ds numeral_of_def)
  next
    case False
    have "0 < unat ?x" using False z by simp
    moreover have "unat ?x < b ^ i" using Suc.prems(2) unfolding x by (simp add: less_mult_imp_div_less mult.commute)
    moreover have "d + 1 + length (base_digits b (unat ?x)) \<le> length (splice s d [?c])" using Suc.prems(3) d by (simp add: ds)
    ultimately have "tostr_digits i (of_nat b) True ?x (splice s d [?c]) (d + 1) = Some (splice (splice s d [?c]) (d + 1)
        (numeral_of (base_digits b (unat ?x))), d + 1 + length (base_digits b (unat ?x)))"
      by (rule Suc.IH)
    then show ?thesis using d False unat_base [OF assms]
      by (simp add: put_char_splice unat_mod_distrib ds numeral_of_def splice_cons [simplified])
  qed
qed simp

lemma tostr_loop_spec:
  assumes b: "base_ok b" and hb: "unat hb = b ^ e" "0 < e"
  shows "wf_mpz t \<Longrightarrow> d + length (base_digits b (mag t)) \<le> length s \<Longrightarrow>
    tostr_loop (of_nat b) hb e t s d =
      Some (splice s d (numeral_of (base_digits b (mag t))), d + length (base_digits b (mag t)))"
proof (induction "mag t" arbitrary: t s d rule: less_induct)
  case less
  have b2: "2 \<le> b" using b by (simp add: base_ok_def)
  show ?case
  proof (cases "used t = 0")
    case True
    then have "mag t = 0" using used_0_iff [OF less.prems(1)] by simp
    then show ?thesis using True by (subst tostr_loop.simps) (simp add: numeral_of_def)
  next
    case False
    then have pos: "0 < mag t" using used_0_iff [OF less.prems(1)] by simp
    have "1 < unat hb" unfolding hb(1) using b2 hb(2) by (intro one_less_power) simp_all
    then have "hb \<noteq> 0" by auto
    from selfdiv1_spec [OF less.prems(1) False this] obtain x t' where
      run: "mpz_selfdiv1_qr_raw t hb = Some (x, t')" and t': "wf_mpz t'" "unat x = mag t mod b ^ e" "mag t' = mag t div b ^ e"
      by (auto simp: hb(1))
    have z: "used t' = 0 \<longleftrightarrow> mag t < b ^ e" using used_0_iff [OF t'(1)] b2 t'(3) by (simp add: div_eq_0_iff)
    show ?thesis
    proof (cases "used t' = 0")
      case True
      then have x: "unat x = mag t" using z t'(2) by simp
      then have "tostr_digits e (of_nat b) True x s d =
          Some (splice s d (numeral_of (base_digits b (mag t))), d + length (base_digits b (mag t)))"
        using tostr_digits_rest [OF b, of x e d s] True z pos less.prems(2) by simp
      then show ?thesis using False True run by (subst tostr_loop.simps) (simp add: tostr_loop.simps [of _ _ _ t'])
    next
      case False
      then have ds: "base_digits b (mag t) = low_digits b e (mag t) @ base_digits b (mag t')"
        using z base_digits_split [OF b2] by (simp add: t'(3))
      let ?s = "splice s d (numeral_of (low_digits b e (mag t)))"
      have "d + e \<le> length s" using less.prems(2) by (simp add: ds)
      then have 1: "tostr_digits e (of_nat b) False x s d = Some (?s, d + e)"
        using tostr_digits_full [OF b, of d e s x] by (simp add: t'(2) low_digits_mod)
      have len: "length (numeral_of (low_digits b e (mag t))) = e" by (simp add: numeral_of_def)
      have "mag t' < mag t" unfolding t'(3) using \<open>1 < unat hb\<close> pos hb(1) by (intro div_less_dividend) simp_all
      moreover have "d + e + length (base_digits b (mag t')) \<le> length ?s"
        using less.prems(2) \<open>d + e \<le> length s\<close> len by (simp add: ds)
      ultimately have "tostr_loop (of_nat b) hb e t' ?s (d + e) =
          Some (splice ?s (d + e) (numeral_of (base_digits b (mag t'))), d + e + length (base_digits b (mag t')))"
        using less.hyps t'(1) by blast
      moreover have "splice ?s (d + e) (numeral_of (base_digits b (mag t'))) = splice s d (numeral_of (base_digits b (mag t)))"
        using splice_splice [of d "numeral_of (low_digits b e (mag t))" s] \<open>d + e \<le> length s\<close> len by (simp add: ds numeral_of_def)
      ultimately show ?thesis using False \<open>used t \<noteq> 0\<close> run 1 by (subst tostr_loop.simps) (simp add: ds)
    qed
  qed
qed

text \<open>The text of a number: its numeral behind the sign.\<close>

definition text_of :: "nat \<Rightarrow> mpz \<Rightarrow> string" where
  "text_of b m = (if neg m then ''-'' else []) @ (if mag m = 0 then ''0'' else rev (numeral_of (base_digits b (mag m))))"

lemma tostr_done_spec:
  assumes "d + of_bool sign < length s" "l \<noteq> 0"
  shows "tostr_done sign l s d = Some ((if sign then ''-'' else []) @ rev (take d s) @ CHR 0x00 # drop (d + of_bool sign + 1) s)"
proof (cases sign)
  case True
  have "splice (splice s d ''-'') (d + 1) [CHR 0x00] = splice s d (''-'' @ [CHR 0x00])"
    using assms True splice_splice [of d "''-''" s "[CHR 0x00]"] by simp
  then show ?thesis using assms True
    by (simp add: tostr_done_def put_char_splice) (simp add: splice_def)
next
  case False
  then show ?thesis using assms by (simp add: tostr_done_def put_char_splice) (simp add: splice_def)
qed

lemma tostr_spec:
  assumes "plenty h" "wf_mpz (cells h z)" "used (cells h z) + 1 < 2 ^ 32" "z \<noteq> Str_t" "base_ok b"
    "2 \<le> l" "length (text_of b (cells h z)) < length s"
  shows "\<exists>h'. mpz_tostr z (of_nat b) s l h =
      Some (SBN_OK, text_of b (cells h z) @ CHR 0x00 # drop (length (text_of b (cells h z)) + 1) s, h') \<and> keeps {Str_t} h h'"
proof -
  let ?m = "cells h z" and ?b = "of_nat b :: u32"
  have b: "\<not> (?b < 2 \<or> ?b > 36)" using assms(5) unat_base [OF assms(5)] by (simp add: word_less_nat_alt base_ok_def)
  have l: "l \<noteq> 0" "l - 1 \<noteq> 0" using assms(6) by simp_all
  show ?thesis
  proof (cases "used (cells h z) = 0")
    case True
    then have "mag ?m = 0" using used_0_iff [OF assms(2)] by simp
    then have t: "text_of b ?m = (if neg ?m then ''-'' else []) @ ''0''" by (simp add: text_of_def)
    then have "1 + of_bool (neg ?m) < length (splice s 0 ''0'')" using assms(7) by (cases "neg ?m") simp_all
    from tostr_done_spec [OF this l(1)]
    have "tostr_done (neg ?m) l (splice s 0 ''0'') 1 = Some (text_of b ?m @ CHR 0x00 # drop (length (text_of b ?m) + 1) s)"
      using assms(7) by (cases "neg ?m") (simp_all add: t splice_def)
    moreover have "put_char s 0 (CHR ''0'') = Some (splice s 0 ''0'')" using assms(7) by (intro put_char_splice) auto
    ultimately show ?thesis using True b l by (simp add: mpz_tostr_def)
  next
    case False
    then have pos: "mag ?m \<noteq> 0" using used_0_iff [OF assms(2)] by simp
    let ?D = "numeral_of (base_digits b (mag ?m))"
    have len: "length ?D = length (base_digits b (mag ?m))" by (simp add: numeral_of_def)
    have t: "text_of b ?m = (if neg ?m then ''-'' else []) @ rev ?D" using pos by (simp add: text_of_def)
    let ?h = "mpz_init Str_t h"
    have "gives (mpz_set Str_t z ?h) (\<lambda>h'. only Str_t ?h h' \<and> wf_mpz (cells h' Str_t) \<and> mag (cells h' Str_t) = mag ?m)"
      by (rule gives_mono [OF set_gives]) (use assms in \<open>auto simp: mpz_init_def mag_def\<close>)
    then obtain h' where h': "mpz_set Str_t z ?h = Some (SBN_OK, h')" "only Str_t ?h h'" "wf_mpz (cells h' Str_t)"
      "mag (cells h' Str_t) = mag ?m" by (elim givesE) auto
    note tb = basepow [OF assms(5)]
    have dl: "0 + length (base_digits b (mag (cells h' Str_t))) \<le> length s" using assms(7) len by (simp add: t h'(4))
    have u: "unat ?b = b" by (rule unat_base [OF assms(5)])
    have loop: "tostr_loop ?b (fst (basepowtable ! unat ?b)) (snd (basepowtable ! unat ?b)) (cells h' Str_t) s 0 =
        Some (splice s 0 ?D, length ?D)"
      using tostr_loop_spec [OF assms(5) tb h'(3) dl] by (simp add: u h'(4) len)
    have "length ?D + of_bool (neg ?m) < length (splice s 0 ?D)" using assms(7) by (cases "neg ?m") (simp_all add: t)
    from tostr_done_spec [OF this l(2)]
    have "tostr_done (neg ?m) (l - 1) (splice s 0 ?D) (length ?D) =
        Some (text_of b ?m @ CHR 0x00 # drop (length (text_of b ?m) + 1) s)"
      using assms(7) by (auto simp: splice_def t)
    moreover have "neg (cells h' z) = neg ?m" using only_other [OF h'(2)] assms(4) by (simp add: mpz_init_def)
    moreover have "keeps {Str_t} h h'"
      using only_keeps [OF h'(2), of "{Str_t}"] by (auto simp: mpz_init_def keeps_def split: if_splits)
    ultimately show ?thesis using False b l h'(1) loop by (simp add: mpz_tostr_def)
  qed
qed

section \<open>Reading is correct\<close>

text \<open>The numbers that \<open>set_str_loop\<close> works on, before the digit of weight \<open>b ^ j\<close>.\<close>

definition reading :: "ptr \<Rightarrow> nat \<Rightarrow> nat \<Rightarrow> nat \<Rightarrow> bn \<Rightarrow> bool" where
  "reading z b j V h \<longleftrightarrow> plenty h \<and> has h z (int V) \<and> has h Str_pow (int (b ^ j)) \<and> wf_mpz (cells h Str_toadd) \<and> V < b ^ j"

definition str_vars :: "ptr \<Rightarrow> ptr set" where
  "str_vars z = {z, Str_pow, Str_toadd, Muli_rt, Imm}"

lemma pow_word: "base_ok b \<Longrightarrow> b ^ j < 4294967296 ^ Suc j"
proof -
  assume "base_ok b"
  then have "b ^ j \<le> 4294967296 ^ j" by (intro power_mono) (simp_all add: base_ok_def)
  also have "\<dots> < 4294967296 ^ Suc j" by simp
  finally show ?thesis .
qed

text \<open>One digit.\<close>

lemma set_str_digit:
  assumes b: "base_ok b" and n: "n < b" and j: "j < 2 ^ 24" and z: "z \<notin> {Str_pow, Str_toadd, Muli_rt, Imm}"
    and s: "reading z b j V h"
    and rest: "\<And>h'. keeps (str_vars z) h h' \<Longrightarrow> reading z b (Suc j) (V + b ^ j * n) h' \<Longrightarrow> gives (set_str_loop z (int b) cs h') Q"
  shows "gives (set_str_loop z (int b) (cset ! n # cs) h) Q"
proof -
  have pl: "plenty h" and hz: "has h z (int V)" and hp: "has h Str_pow (int (b ^ j))" and wt: "wf_mpz (cells h Str_toadd)" and V: "V < b ^ j"
    using s by (auto simp: reading_def)
  have n36: "n < 36" and b36: "b \<le> 36" using b n by (simp_all add: base_ok_def)
  have wi: "word_of_int (int k) = (of_nat k :: u32)" for k by simp
  have un: "unat (of_nat n :: u32) = n" by (simp only: unat_of_nat) (use n36 in simp)
  have up: "used (cells h Str_pow) \<le> Suc j" by (rule has_used [OF hp pow_word [OF b]])
  have uz: "used (cells h z) \<le> Suc j" using has_used [OF hz] V pow_word [OF b, of j] by (meson less_trans)
  from set_ui_gives [OF pl wt, of "of_nat n"] obtain h1 where
    h1: "mpz_set_ui Str_toadd (of_nat n) h = Some (SBN_OK, h1)" "only Str_toadd h h1" "has h1 Str_toadd (int n)"
    by (elim givesE) (auto simp: un)
  have c1: "cells h1 Str_pow = cells h Str_pow" "cells h1 z = cells h z" using only_other [OF h1(2)] z by auto
  have k1: "keeps (str_vars z) h h1" using only_keeps [OF h1(2)] by (simp add: str_vars_def)
  have p1: "plenty h1" by (rule keeps_plenty [OF k1 pl])
  have "n < 4294967296 ^ 1" using n36 by simp
  from has_used [OF h1(3) this] have ut: "used (cells h1 Str_toadd) \<le> 1" .
  have "gives (mpz_mul Str_toadd Str_toadd Str_pow h1) (\<lambda>h'. keeps {Str_toadd, Muli_rt} h1 h' \<and>
      has h' Str_toadd (ival (cells h1 Str_toadd) * ival (cells h1 Str_pow)))"
    by (rule mpz_mul_gives) (use p1 h1(3) hp c1 ut up j in \<open>auto simp: has_def\<close>)
  then obtain h2 where h2: "mpz_mul Str_toadd Str_toadd Str_pow h1 = Some (SBN_OK, h2)" "keeps {Str_toadd, Muli_rt} h1 h2"
    "has h2 Str_toadd (int (n * b ^ j))"
    by (elim givesE) (use h1(3) hp c1 in \<open>auto simp: has_def\<close>)
  have k2: "keeps (str_vars z) h h2" using keeps_step [OF k1 keeps_mono [OF h2(2)]] by (simp add: str_vars_def)
  have p2: "plenty h2" by (rule keeps_plenty [OF k2 pl])
  have z2: "has h2 z (int V)" by (rule keeps_has [OF h2(2)]) (use z hz c1 in \<open>auto simp: has_def\<close>)
  have q2: "has h2 Str_pow (int (b ^ j))" by (rule keeps_has [OF h2(2)]) (use hp c1 in \<open>auto simp: has_def\<close>)
  have small: "n * b ^ j < 4294967296 ^ Suc (Suc j)"
  proof -
    have "n * b ^ j \<le> b ^ Suc j" using n by simp
    also have "\<dots> < 4294967296 ^ Suc (Suc j)" by (rule pow_word [OF b])
    finally show ?thesis .
  qed
  have uz2: "used (cells h2 z) \<le> Suc j" using has_used [OF z2] V pow_word [OF b, of j] by (meson less_trans)
  have up2: "used (cells h2 Str_pow) \<le> Suc j" by (rule has_used [OF q2 pow_word [OF b]])
  have ut2: "used (cells h2 Str_toadd) \<le> Suc (Suc j)" by (rule has_used [OF h2(3) small])
  have "gives (mpz_add z z Str_toadd h2) (\<lambda>h'. keeps {z} h2 h' \<and> has h' z (ival (cells h2 z) + ival (cells h2 Str_toadd)))"
    by (rule mpz_add_gives) (use p2 z2 h2(3) uz2 ut2 j z in \<open>auto simp: has_def unmoved_def\<close>)
  then obtain h3 where h3: "mpz_add z z Str_toadd h2 = Some (SBN_OK, h3)" "keeps {z} h2 h3" "has h3 z (int (V + b ^ j * n))"
    by (elim givesE) (use z2 h2(3) in \<open>auto simp: has_def mult.commute\<close>)
  have k3: "keeps (str_vars z) h h3" using keeps_step [OF k2 keeps_mono [OF h3(2)]] by (simp add: str_vars_def)
  have p3: "plenty h3" by (rule keeps_plenty [OF k3 pl])
  have q3: "has h3 Str_pow (int (b ^ j))" and t3: "has h3 Str_toadd (int (n * b ^ j))"
    using keeps_has [OF h3(2)] q2 h2(3) z by auto
  have "used (cells h3 Str_pow) \<le> Suc j" by (rule has_used [OF q3 pow_word [OF b]])
  then have "gives (mpz_mul_ui Str_pow Str_pow (of_nat b) h3) (\<lambda>h'. keeps {Str_pow, Muli_rt, Imm} h3 h' \<and>
      has h' Str_pow (ival (cells h3 Str_pow) * int (unat (of_nat b :: u32))))"
    by (intro mul_ui_gives) (use p3 q3 j in \<open>auto simp: has_def\<close>)
  then obtain h4 where h4: "mpz_mul_ui Str_pow Str_pow (of_nat b) h3 = Some (SBN_OK, h4)" "keeps {Str_pow, Muli_rt, Imm} h3 h4"
    "has h4 Str_pow (int (b ^ Suc j))"
    by (elim givesE) (use q3 unat_base [OF b] in \<open>auto simp: has_def mult.commute\<close>)
  have k4: "keeps (str_vars z) h h4" using keeps_step [OF k3 keeps_mono [OF h4(2)]] by (simp add: str_vars_def)
  have "V + b ^ j * n < b ^ j * Suc n" using V by simp
  also have "\<dots> \<le> b ^ Suc j" using n by (simp only: power_Suc mult.commute [of b]) (intro mult_le_mono2, simp)
  finally have "V + b ^ j * n < b ^ Suc j" .
  moreover have "has h4 z (int (V + b ^ j * n))" and "wf_mpz (cells h4 Str_toadd)"
    using keeps_has [OF h4(2)] h3(3) t3 z by (auto simp: has_def)
  ultimately have "reading z b (Suc j) (V + b ^ j * n) h4"
    using h4(3) keeps_plenty [OF k4 pl] by (simp only: reading_def)
  then have "gives (set_str_loop z (int b) cs h4) Q" by (rule rest [OF k4])
  then show ?thesis using cset_digit(1) [OF n36] n h1(1) h2(1) h3(1) h4(1) by (simp add: wi ok_then_def)
qed

lemma set_str_loop_gives:
  assumes b: "base_ok b" and z: "z \<notin> {Str_pow, Str_toadd, Muli_rt, Imm}"
  shows "\<forall>d \<in> set ds. d < b \<Longrightarrow> j + length ds < 2 ^ 24 \<Longrightarrow> reading z b j V h \<Longrightarrow>
    gives (set_str_loop z (int b) (numeral_of ds) h) (\<lambda>h'. keeps (str_vars z) h h' \<and> plenty h' \<and> has h' z (int (V + b ^ j * digit_value b ds)))"
proof (induction ds arbitrary: j V h)
  case Nil
  then show ?case by (simp add: numeral_of_def reading_def)
next
  case (Cons n ds)
  have n: "n < b" "j < 2 ^ 24" using Cons.prems(1,2) by simp_all
  have *: "gives (set_str_loop z (int b) (cset ! n # numeral_of ds) h) (\<lambda>h'. keeps (str_vars z) h h' \<and> plenty h' \<and>
      has h' z (int (V + b ^ j * n + b ^ Suc j * digit_value b ds)))"
  proof (rule set_str_digit [OF b n z Cons.prems(3)])
    fix h' assume h': "keeps (str_vars z) h h'" "reading z b (Suc j) (V + b ^ j * n) h'"
    have "gives (set_str_loop z (int b) (numeral_of ds) h') (\<lambda>h''. keeps (str_vars z) h' h'' \<and> plenty h'' \<and>
        has h'' z (int (V + b ^ j * n + b ^ Suc j * digit_value b ds)))"
      by (rule Cons.IH [OF _ _ h'(2)]) (use Cons.prems in simp_all)
    then show "gives (set_str_loop z (int b) (numeral_of ds) h') (\<lambda>h''. keeps (str_vars z) h h'' \<and> plenty h'' \<and>
        has h'' z (int (V + b ^ j * n + b ^ Suc j * digit_value b ds)))"
      using keeps_step [OF h'(1)] by (elim gives_mono) blast
  qed
  have v: "b ^ j * n + b ^ Suc j * digit_value b ds = b ^ j * digit_value b (n # ds)" by (simp add: algebra_simps)
  show ?case using * by (simp only: numeral_of_def list.map add.assoc v)
qed

text \<open>A numeral behind an optional sign, without blanks.\<close>

lemma set_str_gives:
  assumes b: "base_ok b" and z: "z \<notin> {Str_pow, Str_toadd, Muli_rt, Imm}" and ds: "\<forall>d \<in> set ds. d < b" "length ds < 2 ^ 24" "ds \<noteq> []"
    and h: "plenty h" "wf_mpz (cells h z)"
  shows "gives (mpz_set_str z ((if sign then ''-'' else []) @ rev (numeral_of ds)) (int b) h)
    (\<lambda>h'. keeps (str_vars z) h h' \<and> has h' z (if sign then - int (digit_value b ds) else int (digit_value b ds)))"
proof -
  let ?N = "rev (numeral_of ds)"
  have chars: "\<not> isspace c \<and> c \<noteq> CHR ''-''" if "c \<in> set ?N" for c
  proof -
    obtain d where "c = cset ! d" "d < b" using \<open>c \<in> set ?N\<close> ds(1) by (auto simp: numeral_of_def)
    then show ?thesis using cset_digit [of d] b by (simp add: base_ok_def)
  qed
  obtain c cs where N: "?N = c # cs" using ds(3) by (cases ?N) (auto simp: numeral_of_def)
  have "\<forall>c \<in> set (rev cs). \<not> isspace c" using chars by (simp only: N set_rev list.set) blast
  then have cs: "dropWhile isspace (rev cs) = rev cs" by (cases "rev cs") simp_all
  have rev: "digits_reversed ?N = numeral_of ds"
    using N cs by (simp add: digits_reversed_def rev_swap)
  have skip: "dropWhile isspace ((if sign then ''-'' else []) @ ?N) = (if sign then ''-'' else []) @ ?N"
    using chars [of c] N by simp
  obtain m where m: "mpz_zero (cells h z) = Some m" "length (atoms m) = length (atoms (cells h z))" "set (atoms m) \<subseteq> {0}" "used m = 0"
    using zero_spec [OF h(2)] by metis
  define h0 where "h0 = poke z m (mpz_init Str_toadd (mpz_init Str_pow h))"
  have c0: "cells h0 z = m" "cells h0 Str_pow = zero_mpz" "cells h0 Str_toadd = zero_mpz"
    using z by (auto simp: h0_def mpz_init_def)
  have k0: "keeps (str_vars z) h h0" by (auto simp: h0_def mpz_init_def keeps_def str_vars_def)
  have p0: "plenty h0" by (rule keeps_plenty [OF k0 h(1)])
  have wm: "wf_mpz m" "ival m = 0" using m(3,4) by (simp_all add: wf_mpz_def normal_def digits_def ival_def mag_def)
  have "wf_mpz (cells h0 Str_pow)" by (simp add: c0)
  from set_ui_gives [OF p0 this, of 1] obtain h1 where
    h1: "mpz_set_ui Str_pow 1 h0 = Some (SBN_OK, h1)" "only Str_pow h0 h1" "has h1 Str_pow (int 1)"
    by (elim givesE) auto
  have k1: "keeps (str_vars z) h h1" using keeps_step [OF k0 only_keeps [OF h1(2)]] by (simp add: str_vars_def)
  have "reading z b 0 0 h1"
    using h1(3) only_other [OF h1(2)] z c0 wm keeps_plenty [OF k1 h(1)] by (auto simp: reading_def has_def)
  from set_str_loop_gives [OF b z ds(1) _ this] ds(2)
  have loop: "gives (set_str_loop z (int b) (numeral_of ds) h1) (\<lambda>h'. keeps (str_vars z) h1 h' \<and> plenty h' \<and> has h' z (int (digit_value b ds)))"
    by simp
  have sgn: "(case (if sign then ''-'' else []) @ ?N of c # _ \<Rightarrow> c = CHR ''-'' | [] \<Rightarrow> False) = sign"
    using chars [of c] N by simp
  have body: "(if sign then tl ((if sign then ''-'' else []) @ ?N) else (if sign then ''-'' else []) @ ?N) = ?N" by simp
  have bs: "\<not> (int b < 2 \<or> int b > 36)" "int b \<noteq> 0" using b by (auto simp: base_ok_def)
  have "mpz_set_str z ((if sign then ''-'' else []) @ ?N) (int b) h =
      ok_then (set_str_loop z (int b) (numeral_of ds) h1) (\<lambda>h. Some (SBN_OK, upd z (\<lambda>m. m\<lparr>neg := sign\<rparr>) h))"
    unfolding mpz_set_str_def skip Let_def sgn body if_not_P [OF bs(2)] prod.case if_not_P [OF bs(1)] m(1) rev bind.bind_lunit
      h0_def [symmetric] h1(1) by (simp add: ok_then_def)
  moreover have "gives (ok_then (set_str_loop z (int b) (numeral_of ds) h1) (\<lambda>h. Some (SBN_OK, upd z (\<lambda>m. m\<lparr>neg := sign\<rparr>) h)))
    (\<lambda>h'. keeps (str_vars z) h h' \<and> has h' z (if sign then - int (digit_value b ds) else int (digit_value b ds)))"
    unfolding gives_ok_then
  proof (rule gives_mono [OF loop])
    fix h' assume h': "keeps (str_vars z) h1 h' \<and> plenty h' \<and> has h' z (int (digit_value b ds))"
    then have "keeps (str_vars z) h (upd z (\<lambda>m. m\<lparr>neg := sign\<rparr>) h')"
      using keeps_step [OF k1] by (simp add: keeps_upd_iff str_vars_def)
    moreover have "has (upd z (\<lambda>m. m\<lparr>neg := sign\<rparr>) h') z (if sign then - int (digit_value b ds) else int (digit_value b ds))"
    proof -
      have "mag (cells h' z) = digit_value b ds" "wf_mpz (cells h' z)" using h' has_nat by blast+
      then show ?thesis by (simp add: has_def ival_neg)
    qed
    ultimately show "gives (Some (SBN_OK, upd z (\<lambda>m. m\<lparr>neg := sign\<rparr>) h'))
      (\<lambda>h'. keeps (str_vars z) h h' \<and> has h' z (if sign then - int (digit_value b ds) else int (digit_value b ds)))" by simp
  qed
  ultimately show ?thesis by simp
qed

section \<open>The random numbers\<close>

lemma sbn_rand_hp: "sbn_rand r = hp_rand e (if rc4_seedflag r then r else sbn_rand_init r)"
  by (simp add: sbn_rand_def hp_rand_def sbn_rand_init_def)

lemma sbn_rand_run:
  assumes "rc4_ok r"
  shows "\<exists>w r'. sbn_rand r = Some (w, r') \<and> rc4_ok r' \<and> rc4_seedflag r' \<and>
    prga_run 4 (rc4_view (if rc4_seedflag r then r else sbn_rand_init r)) = (bytes32 w, rc4_view r')"
proof -
  let ?r = "if rc4_seedflag r then r else sbn_rand_init r"
  have "rc4_ok ?r" "rc4_seedflag ?r" using assms by (auto simp: rc4_ok_def sbn_rand_init_def)
  then show ?thesis using hp_rand_run [of ?r undefined] unfolding sbn_rand_hp [of r undefined] by (simp only: if_True)
qed

lemma random_words_run: "rc4_ok r \<Longrightarrow> \<exists>ws r'. random_words n r = Some (ws, r') \<and> length ws = n \<and> rc4_ok r'"
proof (induction n arbitrary: r)
  case (Suc n)
  obtain w r1 where "sbn_rand r = Some (w, r1)" "rc4_ok r1" using sbn_rand_run [OF Suc.prems] by blast
  then show ?case using Suc.IH [of r1] by auto
qed simp

text \<open>What was mixed in before the first number is lost: the first call of \<open>sbn_rand\<close> sets up the sbox.\<close>

lemma seed_mix_run: "length s = 256 \<Longrightarrow> \<exists>s'. seed_mix xs i s = Some s' \<and> length s' = 256"
proof (induction xs arbitrary: i s)
  case (Cons x xs)
  have i: "i mod 256 < length s" using Cons.prems by simp
  then have "seed_mix (x # xs) i s = seed_mix xs (i + 1) (s[i mod 256 := s ! (i mod 256) XOR x])"
    by (simp add: ld8_defined st8_update)
  then show ?case using Cons by simp
qed simp

lemma early_seed_lost:
  assumes "rc4_ok r" "\<not> rc4_seedflag r" shows "sbn_seed seed r = sbn_seed [] r"
proof -
  obtain s' where "seed_mix seed 0 (rc4_sbox r) = Some s'" using seed_mix_run assms(1) by (metis rc4_ok_def)
  moreover have "discard 32 (r\<lparr>rc4_sbox := s'\<rparr>) = discard 32 r"
  proof -
    have "sbn_rand (r\<lparr>rc4_sbox := s'\<rparr>) = sbn_rand r" using assms(2) by (simp add: sbn_rand_def sbn_rand_init_def)
    then show ?thesis by (simp only: numeral_eq_Suc discard.simps)
  qed
  ultimately show ?thesis by (simp add: sbn_seed_def)
qed

lemma random_gives:
  assumes "plenty h" "wf_mpz (cells h z)" "rc4_ok r" "len \<noteq> 0" "sint len \<noteq> - (2 ^ 31)"
  shows "\<exists>h' r'. mpz_random z len h r = Some (SBN_OK, h', r') \<and> only z h h' \<and> wf_mpz (cells h' z) \<and>
    neg (cells h' z) = (sint len < 0) \<and> rc4_ok r'"
proof -
  define l where "l = (if sint len < 0 then - len else len)"
  have sl: "sint l = \<bar>sint len\<bar>"
  proof -
    have "sint (- len) = - sint len"
      using assms(5) sint_greater_eq [of len] sint_less [of len]
      by (simp add: sint_word_minus signed_take_bit_int_eq_self_iff)
    then show ?thesis by (simp add: l_def)
  qed
  have l0: "l \<noteq> 0" using assms(4) by (simp add: l_def)
  then have "sint l \<noteq> 0" by (metis signed_0 signed_word_eqI)
  then have pos: "0 < sint l" using sl by linarith
  have "take_bit 32 (sint l) = sint l" using pos sint_less [of l] by (intro take_bit_int_eq_self) simp_all
  then have ul: "unat l = nat (sint l)" by (simp add: unat_eq_nat_uint uint_sint)
  have lt: "nat (sint l) < 2 ^ 31" using sint_less [of l] by simp
  have um: "unat (l - 1) = nat (sint l) - 1" using l0 ul by (simp add: unat_minus_one)
  have "unat (l - 1) + 1 < 2 ^ 32" using lt by (simp add: um)
  from realloc_gives [OF assms(1) this, of z] obtain h1 where
    h1: "mpz_realloc z (unat (l - 1)) h = Some (SBN_OK, h1)" "only z h h1" "unat (l - 1) < length (atoms (cells h1 z))"
    by (elim givesE) blast
  obtain ws r1 where w: "random_words (nat (sint l)) r = Some (ws, r1)" "length ws = nat (sint l)" "rc4_ok r1"
    using random_words_run [OF assms(3)] by blast
  have "length ws \<le> length (atoms (cells h1 z))" using h1(3) pos by (simp add: w(2) um)
  then obtain xs where xs: "overwrite (atoms (cells h1 z)) ws = Some xs" by (simp add: overwrite_def)
  let ?m = "mpz_normalize_macro ((cells h1 z)\<lparr>atoms := xs\<rparr>)"
  have "wf_mpz ?m" by (rule normalize_macro_wf)
  then have "wf_mpz (?m\<lparr>neg := sint len < 0\<rparr>)" by simp
  moreover have "mpz_random z len h r = Some (SBN_OK, upd z (\<lambda>m. (mpz_normalize_macro (m\<lparr>atoms := xs\<rparr>))\<lparr>neg := sint len < 0\<rparr>) h1, r1)"
    using l0 h1(1) w(1) xs unfolding mpz_random_def Let_def l_def [symmetric] by simp
  ultimately show ?thesis using w(3) h1(2) by (auto simp: only_def)
qed

section \<open>Properties\<close>



end
