(* ===== verification/Spec2Isabelle.thy ===== *)
theory Spec2Isabelle
  imports Cksum Adbuf Ars Compile Wire Receiver Split Strings Rc4 Tool Send Probes Recv Loop Bigstr
begin

text \<open>
  StyxWire (a descendant of hping) sends hand made IP packets and analyses the replies.  Its core
  is ARS, a library that keeps a packet as a list of typed layers, compiles the fields that
  depend on other layers, and dissects captured bytes into layers; on top of it is a command line
  tool that sends probes and accounts for their replies.  File names are those under
  src/src.

  \<^bold>\<open>Conventions.\<close>  Machine integers are words of their C width, memory is little endian, a
  block is a list of bytes.  An access outside of a block, a failed assertion and a loop that does
  not end are the result \<open>None\<close> of the option type: that a function returns \<open>Some\<close> is
  therefore a statement of memory safety and termination, and is proved as such.  Whether \<open>malloc\<close>
  succeeds is a parameter, so that every out-of-memory branch is modelled.  Error codes are
  values of \<open>ars_code\<close>.  What is printed is not modelled.

  \<^bold>\<open>The packet library.\<close>
  \<^item> Cksum (ars.c, cksum.c): the Internet checksum, its chunked variant \<open>ars_multi_cksum\<close>, and
    their agreement with the sum of RFC 1071 in network order.
  \<^item> Adbuf (adbuf.c): growing text buffers; every operation refines an operation on strings.
  \<^item> Ars (ars.c, ars.h): packets and layers, adding, removing, flags, sizes, and the invariant
    \<open>pkt_wf\<close>, which every operation keeps.
  \<^item> Compile (ars.c): the compilers of the layer types, \<open>ars_compile\<close>, \<open>ars_build_packet\<close>,
    \<open>ars_send\<close>, and that they are memory safe on well-formed packets.
  \<^item> Wire (ars.c): which bytes each compiler writes and their values.
  \<^item> Receiver: what a receiver that follows the RFCs makes of a built packet (header lengths,
    checksums over the pseudo header, padding of options), with the theorems on the compiler.
  \<^item> Split (split.c): the dissector, a state machine over the captured bytes, with its termination,
    safety, and the round trip from bytes to layers and back.

  \<^bold>\<open>The tool.\<close>
  \<^item> Strings (hstring.c, hex.c, memstr.c, strlcpy.c): string helpers with their specifications.
  \<^item> Rc4 (random.c): the random generator, equivalent to the RC4 output function.
  \<^item> Tool (globals.h, clock.c, rtt.c, relid.c, statistics.c): the state of the tool, the delay table and
    the counters.
  \<^item> Send (ip_opt_build.c, datafiller.c, datahandler.c, sendip.c, sendip_handler.c): IP options, data,
    the IP header, fragmentation.
  \<^item> Probes (sendtcp.c, sendudp.c, sendicmp.c, sendrawip.c, sendhcmp.c, send.c): the probes of each mode.
  \<^item> Recv (waitpacket.c, logicmp.c, display_ipopt.c, getlhs.c): the analysis of a captured packet; no read
    leaves the captured bytes and the counters account for each reply once.
  \<^item> Kept: what a received packet leaves unchanged in the state of the tool.
  \<^item> Loop (lifecycle.c, listen.c, binding.c): the main loop as a step relation over events, the stop flags,
    the pacing of the probes, the end of the run, the listen mode and the control z binding.

  \<^bold>\<open>Big numbers (sbignum.c).\<close>  The numbers are records in a store indexed by pointers, so that operations on
  the same object are modelled as such; allocations are granted by an oracle of the store.  The value of a
  number is \<open>ival\<close>, its normal form \<open>wf_mpz\<close>; \<open>gives m Q\<close> says that an operation succeeds with a store in \<open>Q\<close>,
  \<open>keeps S\<close> that it changes no number outside of \<open>S\<close>.  The theorems bound the lengths of the operands (the
  lengths and indices of the code have 32 bits); the bounds are far above what memory can hold.
  \<^item> Bignum: representation, allocation, normal form, assignment, and the reasoning rules for operations.
  \<^item> Bigadd, Bigmul: comparison, sum, difference, product, factorial; they refine integer arithmetic.
  \<^item> Bigbits: shifts and single bits.
  \<^item> Bigdiv: bitwise division with its loop invariant, modular reduction, division by one word.
  \<^item> Bigpow: powers by repeated squaring, square root, greatest common divisor.
  \<^item> Bigstr: numbers as text in any base, the round trip, random numbers.

  \<^bold>\<open>Not modelled.\<close>  Interfaces, sockets and the capture library (system calls), the Tcl binding (glue
  code), the printing of replies, statistics and NDJSON, the installation of signal handlers, the scanner
  mode (processes and shared memory), and the conversions between big numbers and doubles.
\<close>

end
